(* ===== verification/Meld_Prelude.thy ===== *)
theory Meld_Prelude
  imports Main "HOL-Library.Word" "HOL-Library.List_Lexorder"
begin

text \<open>
  Shared ground of the development: the machine types of the Go sources, results that carry an
  error, the standard-library routines the sources call (\<open>sort.Search\<close>, \<open>encoding/binary\<close>,
  \<open>bytes.Reader\<close>, \<open>bytes.Compare\<close>) and the lemmas on lists, words and byte strings that the
  component theories use.

  A Go \<open>string\<close> is a sequence of bytes and is modelled, as a \<open>[]byte\<close> is, by a list of 8-bit
  words. The order of such lists is the lexicographic order of \<open>HOL-Library.List_Lexorder\<close>, which
  is what \<open>bytes.Compare\<close>, \<open>strings.Compare\<close> and \<open>sort.Strings\<close> use.
\<close>

section \<open>Types\<close>

type_synonym byte = "8 word"
type_synonym bytes = "8 word list"
type_synonym int64 = "64 word"
type_synonym uint64 = "64 word"
type_synonym uint32 = "32 word"
type_synonym uint16 = "16 word"

named_theorems codec \<open>round trips and lengths of the byte encodings\<close>
named_theorems lex \<open>lexicographic comparison of byte strings\<close>
named_theorems search \<open>positions found by sort.Search\<close>

definition str :: "string \<Rightarrow> bytes" where
  "str s = map of_char s"

section \<open>Results\<close>

text \<open>
  A Go function that returns \<open>(T, error)\<close> returns \<open>Inl e\<close> with the error or \<open>Inr v\<close> with the
  value. \<open>rbind\<close> is the pattern \<open>v, err := f(); if err != nil { return err }\<close>.
\<close>

definition rbind :: "'e + 'a \<Rightarrow> ('a \<Rightarrow> 'e + 'b) \<Rightarrow> 'e + 'b" where
  "rbind r f = (case r of Inl e \<Rightarrow> Inl e | Inr a \<Rightarrow> f a)"

lemma rbind_simps [simp]:
  "rbind (Inl e) f = Inl e"
  "rbind (Inr a) f = f a"
  by (simp_all add: rbind_def)

lemma rbind_cong [fundef_cong]:
  "r = r' \<Longrightarrow> (\<And>a. r' = Inr a \<Longrightarrow> f a = g a) \<Longrightarrow> rbind r f = rbind r' g"
  by (cases r') simp_all

lemma rbind_eq_Inr [simp]:
  "rbind r f = Inr b \<longleftrightarrow> (\<exists>a. r = Inr a \<and> f a = Inr b)"
  by (cases r) simp_all

lemma rbind_InrE:
  assumes "rbind r f = Inr b"
  obtains a where "r = Inr a" "f a = Inr b"
  using assms by auto

text \<open>\<open>with_error e r\<close> replaces whatever error \<open>r\<close> carries, as \<open>if err != nil { return e }\<close>.\<close>

definition with_error :: "'e \<Rightarrow> 'f + 'a \<Rightarrow> 'e + 'a" where
  "with_error e r = (case r of Inl _ \<Rightarrow> Inl e | Inr a \<Rightarrow> Inr a)"

lemma with_error_simps [simp]:
  "with_error e (Inl x) = Inl e"
  "with_error e (Inr a) = Inr a"
  "with_error e r = Inr a \<longleftrightarrow> r = Inr a"
  by (simp_all add: with_error_def split: sum.splits)

section \<open>Binary search: sort.Search\<close>

text \<open>
  \<open>sort.Search(n, f)\<close> halves the interval \<open>[i, j)\<close> until it is empty. For a predicate that is
  false up to some position and true from there on it returns that position.
\<close>

function go_Search_loop :: "(nat \<Rightarrow> bool) \<Rightarrow> nat \<Rightarrow> nat \<Rightarrow> nat" where
  "go_Search_loop f i j =
     (if i < j then
        (let h = (i + j) div 2
         in if \<not> f h then go_Search_loop f (h + 1) j else go_Search_loop f i h)
      else i)"
  by pat_completeness auto
termination
  by (relation "measure (\<lambda>(f, i, j). j - i)") auto

declare go_Search_loop.simps [simp del]

definition go_Search :: "nat \<Rightarrow> (nat \<Rightarrow> bool) \<Rightarrow> nat" where
  "go_Search n f = go_Search_loop f 0 n"

lemma go_Search_loop_eq:
  assumes "i \<le> k" "k \<le> j" "\<forall>m. i \<le> m \<longrightarrow> m < k \<longrightarrow> \<not> f m" "\<forall>m. k \<le> m \<longrightarrow> m < j \<longrightarrow> f m"
  shows "go_Search_loop f i j = k"
  using assms
proof (induction f i j rule: go_Search_loop.induct)
  case (1 f i j)
  show ?case
  proof (cases "i < j")
    case False
    with "1.prems" show ?thesis by (simp add: go_Search_loop.simps [of f i j])
  next
    case True
    define h where "h = (i + j) div 2"
    have h: "i \<le> h" "h < j" using True by (auto simp: h_def)
    show ?thesis
    proof (cases "f h")
      case True
      with h "1.prems" have "k \<le> h" by (meson not_le_imp_less)
      with "1.IH"(2) [OF \<open>i < j\<close> h_def] True "1.prems" h
      have "go_Search_loop f i h = k" by auto
      with True \<open>i < j\<close> show ?thesis
        by (simp add: go_Search_loop.simps [of f i j] Let_def flip: h_def)
    next
      case False
      with h "1.prems" have "\<not> k \<le> h" by blast
      then have "h + 1 \<le> k" by simp
      with "1.IH"(1) [OF \<open>i < j\<close> h_def] False "1.prems" h
      have "go_Search_loop f (h + 1) j = k" by auto
      with False \<open>i < j\<close> show ?thesis
        by (simp add: go_Search_loop.simps [of f i j] Let_def flip: h_def)
    qed
  qed
qed

lemma go_Search_eq:
  assumes "k \<le> n" "\<And>m. m < k \<Longrightarrow> \<not> f m" "\<And>m. k \<le> m \<Longrightarrow> m < n \<Longrightarrow> f m"
  shows "go_Search n f = k"
  unfolding go_Search_def by (rule go_Search_loop_eq) (use assms in auto)

text \<open>On a strictly sorted list the two searches the sources use are lengths of prefixes.\<close>

definition lower_bound :: "'a::linorder list \<Rightarrow> 'a \<Rightarrow> nat" where
  "lower_bound xs x = go_Search (length xs) (\<lambda>i. xs ! i \<ge> x)"

definition upper_bound :: "'a::linorder list \<Rightarrow> 'a \<Rightarrow> nat" where
  "upper_bound xs x = go_Search (length xs) (\<lambda>i. x < xs ! i)"

lemma takeWhile_false_from:
  fixes P :: "'a::linorder \<Rightarrow> bool"
  assumes "sorted_wrt (<) xs" "\<And>a b. P b \<Longrightarrow> a < b \<Longrightarrow> P a"
    "length (takeWhile P xs) \<le> m" "m < length xs"
  shows "\<not> P (xs ! m)"
proof
  assume P: "P (xs ! m)"
  have len: "length (takeWhile P xs) < length xs" using assms(3,4) by simp
  then have "\<not> P (xs ! length (takeWhile P xs))" by (rule nth_length_takeWhile)
  moreover have "P (xs ! length (takeWhile P xs))"
  proof (cases "length (takeWhile P xs) = m")
    case True
    then show ?thesis using P by simp
  next
    case False
    then have "xs ! length (takeWhile P xs) < xs ! m"
      using assms(1,3,4) by (simp add: sorted_wrt_nth_less)
    then show ?thesis using P assms(2) by blast
  qed
  ultimately show False by blast
qed

lemma go_Search_takeWhile:
  fixes P :: "'a::linorder \<Rightarrow> bool"
  assumes "sorted_wrt (<) xs" "\<And>a b. P b \<Longrightarrow> a < b \<Longrightarrow> P a"
  shows "go_Search (length xs) (\<lambda>i. \<not> P (xs ! i)) = length (takeWhile P xs)"
proof (rule go_Search_eq)
  show "length (takeWhile P xs) \<le> length xs" by (rule length_takeWhile_le)
  show "\<not> \<not> P (xs ! m)" if "m < length (takeWhile P xs)" for m
    using that by (metis nth_mem set_takeWhileD takeWhile_nth)
  show "\<not> P (xs ! m)" if "length (takeWhile P xs) \<le> m" "m < length xs" for m
    using takeWhile_false_from [of xs P m] assms that by blast
qed

lemma lower_bound_takeWhile [search]:
  "sorted_wrt (<) xs \<Longrightarrow> lower_bound xs x = length (takeWhile (\<lambda>y. y < x) xs)"
  using go_Search_takeWhile [of xs "\<lambda>y. y < x"]
  by (simp add: lower_bound_def not_less)

lemma upper_bound_takeWhile [search]:
  "sorted_wrt (<) xs \<Longrightarrow> upper_bound xs x = length (takeWhile (\<lambda>y. y \<le> x) xs)"
  using go_Search_takeWhile [of xs "\<lambda>y. y \<le> x"]
  by (simp add: upper_bound_def not_le)

section \<open>Byte strings in lexicographic order\<close>

definition bytes_Compare :: "bytes \<Rightarrow> bytes \<Rightarrow> int" where
  "bytes_Compare a b = (if a < b then -1 else if a = b then 0 else 1)"

lemma append_less_append_same [simp, lex]:
  fixes xs :: "'a::linorder list"
  shows "xs @ ys < xs @ zs \<longleftrightarrow> ys < zs"
  by (induction xs) simp_all

lemma append_less_append_len [lex]:
  fixes xs :: "'a::linorder list"
  assumes "length xs = length us"
  shows "xs @ ys < us @ vs \<longleftrightarrow> xs < us \<or> xs = us \<and> ys < vs"
  using assms by (induction xs us rule: list_induct2) auto

lemma less_list_prefix [lex]:
  fixes xs :: "'a::linorder list"
  shows "xs < xs @ ys \<longleftrightarrow> ys \<noteq> []"
  by (induction xs) (cases ys, auto)

lemma less_list_map_mono:
  fixes f :: "'a::linorder \<Rightarrow> 'b::linorder"
  assumes "strict_mono f"
  shows "map f xs < map f ys \<longleftrightarrow> xs < ys"
proof (induction xs arbitrary: ys)
  case Nil
  then show ?case by (cases ys) auto
next
  case (Cons x xs)
  then show ?case
    using assms by (cases ys) (auto simp: strict_mono_less strict_mono_eq)
qed

section \<open>Fixed-width integers: encoding/binary\<close>

text \<open>
  \<open>le_bytes n v\<close> holds the \<open>n\<close> low bytes of \<open>v\<close>, least significant first;
  \<open>be_bytes\<close> most significant first. \<open>PutUint16/32/64\<close> and \<open>Uint16/32/64\<close> are instances.
\<close>

fun le_bytes :: "nat \<Rightarrow> nat \<Rightarrow> bytes" where
  "le_bytes 0 v = []"
| "le_bytes (Suc n) v = of_nat v # le_bytes n (v div 256)"

lemma le_bytes_numeral:
  "le_bytes (numeral n) v = of_nat v # le_bytes (pred_numeral n) (v div 256)"
  using le_bytes.simps(2) [of "pred_numeral n" v] by (simp only: numeral_eq_Suc [of n])

fun le_nat :: "bytes \<Rightarrow> nat" where
  "le_nat [] = 0"
| "le_nat (b # bs) = unat b + 256 * le_nat bs"

definition be_bytes :: "nat \<Rightarrow> nat \<Rightarrow> bytes" where
  "be_bytes n v = rev (le_bytes n v)"

definition be_nat :: "bytes \<Rightarrow> nat" where
  "be_nat bs = le_nat (rev bs)"

lemma length_le_bytes [simp, codec]: "length (le_bytes n v) = n"
  by (induction n v rule: le_bytes.induct) simp_all

lemma length_be_bytes [simp, codec]: "length (be_bytes n v) = n"
  by (simp add: be_bytes_def)

lemma unat_bound: "unat (w :: 'a::len word) < 2 ^ LENGTH('a)"
  by (rule unsigned_less)

lemma unat_byte_of_nat [simp]: "unat (of_nat v :: byte) = v mod 256"
  by (simp add: unat_of_nat)

lemma le_nat_le_bytes [codec]: "le_nat (le_bytes n v) = v mod 256 ^ n"
proof (induction n v rule: le_bytes.induct)
  case (2 n v)
  have "v mod 256 + 256 * (v div 256 mod 256 ^ n) = v mod (256 * 256 ^ n)"
    by (simp add: mod_mult2_eq)
  with 2 show ?case by simp
qed simp

lemma le_nat_bound: "le_nat bs < 256 ^ length bs"
proof (induction bs)
  case (Cons b bs)
  have "unat b < 256" using unat_bound [of b] by simp
  with Cons show ?case by simp
qed simp

lemma le_bytes_le_nat [codec]: "length bs = n \<Longrightarrow> le_bytes n (le_nat bs) = bs"
proof (induction bs arbitrary: n)
  case (Cons b bs)
  have b: "unat b < 256" using unat_bound [of b] by simp
  then have "(of_nat (unat b + 256 * le_nat bs) :: byte) = b"
    by (simp add: word_unat_eq_iff del: of_nat_add of_nat_mult)
  with b Cons show ?case by auto
qed simp

lemma le_bytes_mod [simp]: "le_bytes n (v mod 256 ^ n) = le_bytes n v"
  using le_bytes_le_nat [of "le_bytes n v" n] by (simp add: le_nat_le_bytes)

lemma be_nat_be_bytes [codec]: "be_nat (be_bytes n v) = v mod 256 ^ n"
  by (simp add: be_nat_def be_bytes_def le_nat_le_bytes)

lemma be_bytes_be_nat [codec]: "length bs = n \<Longrightarrow> be_bytes n (be_nat bs) = bs"
  by (simp add: be_nat_def be_bytes_def le_bytes_le_nat)

lemma be_bytes_Suc: "be_bytes (Suc n) v = be_bytes n (v div 256) @ [of_nat v]"
  by (simp add: be_bytes_def)

lemma less_by_div_mod:
  "(v::nat) < w \<longleftrightarrow> v div m < w div m \<or> v div m = w div m \<and> v mod m < w mod m"
proof (cases "v div m" "w div m" rule: linorder_cases)
  case less
  then have "\<not> w \<le> v" using div_le_mono [of w v m] by linarith
  with less show ?thesis by simp
next
  case equal
  have "v = m * (v div m) + v mod m" "w = m * (w div m) + w mod m" by simp_all
  with equal show ?thesis by (metis nat_add_left_cancel_less less_irrefl)
next
  case greater
  then have "\<not> v \<le> w" using div_le_mono [of v w m] by linarith
  with greater show ?thesis by simp
qed

text \<open>Big-endian integers of one width sort as the numbers do.\<close>

lemma be_bytes_less [lex]:
  assumes "v < 256 ^ n" "w < 256 ^ n"
  shows "be_bytes n v < be_bytes n w \<longleftrightarrow> v < w"
  using assms
proof (induction n arbitrary: v w)
  case 0
  then show ?case by (simp add: be_bytes_def)
next
  case (Suc n)
  have dv: "v div 256 < 256 ^ n" "w div 256 < 256 ^ n"
    using Suc.prems by (simp_all add: less_mult_imp_div_less mult.commute)
  have eq: "be_bytes n (v div 256) = be_bytes n (w div 256) \<longleftrightarrow> v div 256 = w div 256"
    using dv by (metis be_nat_be_bytes mod_less)
  have "be_bytes (Suc n) v < be_bytes (Suc n) w \<longleftrightarrow>
      v div 256 < w div 256 \<or> v div 256 = w div 256 \<and> v mod 256 < w mod 256"
    using Suc.IH [OF dv]
    by (auto simp: be_bytes_Suc append_less_append_len eq word_less_nat_alt)
  also have "\<dots> \<longleftrightarrow> v < w"
    by (rule less_by_div_mod [symmetric])
  finally show ?case .
qed

lemma be_bytes_eq [lex]:
  assumes "v < 256 ^ n" "w < 256 ^ n"
  shows "be_bytes n v = be_bytes n w \<longleftrightarrow> v = w"
proof
  assume "be_bytes n v = be_bytes n w"
  then have "be_nat (be_bytes n v) = be_nat (be_bytes n w)" by (rule arg_cong)
  with assms show "v = w" by (simp only: be_nat_be_bytes mod_less)
qed simp

definition put16 :: "uint16 \<Rightarrow> bytes" where
  "put16 w = le_bytes 2 (unat w)"

definition put32 :: "uint32 \<Rightarrow> bytes" where
  "put32 w = le_bytes 4 (unat w)"

definition put64 :: "uint64 \<Rightarrow> bytes" where
  "put64 w = le_bytes 8 (unat w)"

definition get16 :: "bytes \<Rightarrow> uint16" where
  "get16 bs = of_nat (le_nat bs)"

definition get32 :: "bytes \<Rightarrow> uint32" where
  "get32 bs = of_nat (le_nat bs)"

definition get64 :: "bytes \<Rightarrow> uint64" where
  "get64 bs = of_nat (le_nat bs)"

definition be_put32 :: "uint32 \<Rightarrow> bytes" where
  "be_put32 w = be_bytes 4 (unat w)"

definition be_put64 :: "uint64 \<Rightarrow> bytes" where
  "be_put64 w = be_bytes 8 (unat w)"

definition be_get64 :: "bytes \<Rightarrow> uint64" where
  "be_get64 bs = of_nat (be_nat bs)"

lemma length_put [simp, codec]:
  "length (put16 a) = 2" "length (put32 b) = 4" "length (put64 c) = 8"
  "length (be_put32 b) = 4" "length (be_put64 c) = 8"
  by (simp_all add: put16_def put32_def put64_def be_put32_def be_put64_def)

lemma get_put [simp, codec]:
  "get16 (put16 a) = a" "get32 (put32 b) = b" "get64 (put64 c) = c" "be_get64 (be_put64 c) = c"
  using unat_bound [of a] unat_bound [of b] unat_bound [of c]
  by (simp_all add: get16_def put16_def get32_def put32_def get64_def put64_def be_get64_def
      be_put64_def le_nat_le_bytes be_nat_be_bytes)

lemma put_get [codec]:
  "length bs = 2 \<Longrightarrow> put16 (get16 bs) = bs"
  "length bs = 4 \<Longrightarrow> put32 (get32 bs) = bs"
  "length bs = 8 \<Longrightarrow> put64 (get64 bs) = bs"
  "length bs = 8 \<Longrightarrow> be_put64 (be_get64 bs) = bs"
  using le_nat_bound [of bs] le_nat_bound [of "rev bs"]
  by (simp_all add: get16_def put16_def get32_def put32_def get64_def put64_def be_get64_def
      be_put64_def unat_of_nat le_bytes_le_nat be_bytes_def be_nat_def)

lemma be_put64_less [lex]: "be_put64 v < be_put64 w \<longleftrightarrow> v < w"
  using unat_bound [of v] unat_bound [of w]
  by (simp add: be_put64_def be_bytes_less word_less_nat_alt)

lemma be_put32_less [lex]: "be_put32 v < be_put32 w \<longleftrightarrow> v < w"
  using unat_bound [of v] unat_bound [of w]
  by (simp add: be_put32_def be_bytes_less word_less_nat_alt)

section \<open>Readers and slices\<close>

text \<open>
  A \<open>bytes.Reader\<close> is the list of the bytes not yet read. \<open>ReadFull\<close> takes exactly \<open>n\<close> bytes
  or fails; \<open>slice bs i j\<close> is \<open>bs[i:j]\<close> for bounds inside the list.
\<close>

datatype read_error = UnexpectedEOF

definition ReadFull :: "nat \<Rightarrow> bytes \<Rightarrow> read_error + bytes \<times> bytes" where
  "ReadFull n r = (if length r < n then Inl UnexpectedEOF else Inr (take n r, drop n r))"

lemma ReadFull_append [simp, codec]:
  "length bs = n \<Longrightarrow> ReadFull n (bs @ r) = Inr (bs, r)"
  by (simp add: ReadFull_def)

lemma ReadFull_Inr [simp]:
  "ReadFull n r = Inr (a, r') \<longleftrightarrow> r = a @ r' \<and> length a = n"
proof
  assume "ReadFull n r = Inr (a, r')"
  then have "\<not> length r < n" "a = take n r" "r' = drop n r"
    by (simp_all add: ReadFull_def split: if_splits)
  then show "r = a @ r' \<and> length a = n" by simp
next
  assume "r = a @ r' \<and> length a = n"
  then show "ReadFull n r = Inr (a, r')" by (simp add: ReadFull_def)
qed

definition slice :: "bytes \<Rightarrow> nat \<Rightarrow> nat \<Rightarrow> bytes" where
  "slice bs i j = take (j - i) (drop i bs)"

definition allZero :: "bytes \<Rightarrow> bool" where
  "allZero bs = (\<forall>b \<in> set bs. b = 0)"

lemma allZero_replicate [simp]: "allZero (replicate n 0)"
  by (simp add: allZero_def)

lemma allZero_iff: "allZero bs \<longleftrightarrow> bs = replicate (length bs) 0"
  unfolding allZero_def by (metis in_set_replicate replicate_eqI)

section \<open>Go maps as sorted association lists\<close>

text \<open>
  A Go map with ordered keys is the association list of its entries in strictly ascending key
  order. The representation is canonical: two such lists with the same lookups are equal
  (\<open>sorted_map_ext\<close>). \<open>map_of\<close> reads an entry, \<open>map_put\<close> is \<open>m[k] = v\<close> and \<open>map_del\<close> is
  \<open>delete(m, k)\<close>.
\<close>

definition sorted_map :: "('k::linorder \<times> 'v) list \<Rightarrow> bool" where
  "sorted_map m = sorted_wrt (<) (map fst m)"

fun map_put :: "'k::linorder \<Rightarrow> 'v \<Rightarrow> ('k \<times> 'v) list \<Rightarrow> ('k \<times> 'v) list" where
  "map_put k v [] = [(k, v)]"
| "map_put k v ((a, b) # m) =
     (if k < a then (k, v) # (a, b) # m
      else if k = a then (k, v) # m
      else (a, b) # map_put k v m)"

fun map_del :: "'k::linorder \<Rightarrow> ('k \<times> 'v) list \<Rightarrow> ('k \<times> 'v) list" where
  "map_del k [] = []"
| "map_del k ((a, b) # m) = (if a = k then m else (a, b) # map_del k m)"

named_theorems gomap \<open>lookups in updated maps\<close>

lemma sorted_map_Nil [simp]: "sorted_map []"
  by (simp add: sorted_map_def)

lemma sorted_map_Cons [simp]:
  "sorted_map ((a, b) # m) \<longleftrightarrow> (\<forall>k \<in> fst ` set m. a < k) \<and> sorted_map m"
  by (auto simp: sorted_map_def)

lemma sorted_map_append:
  "sorted_map (xs @ ys) \<longleftrightarrow>
     sorted_map xs \<and> sorted_map ys \<and> (\<forall>a \<in> fst ` set xs. \<forall>b \<in> fst ` set ys. a < b)"
  by (auto simp: sorted_map_def sorted_wrt_append)

lemma sorted_map_distinct: "sorted_map m \<Longrightarrow> distinct (map fst m)"
  by (simp add: sorted_map_def strict_sorted_iff)

lemma map_of_map_put [simp, gomap]:
  "map_of (map_put k v m) = (map_of m)(k \<mapsto> v)"
  by (induction k v m rule: map_put.induct) (auto simp: fun_eq_iff)

lemma fst_set_map_put [simp]: "fst ` set (map_put k v m) = insert k (fst ` set m)"
  by (induction k v m rule: map_put.induct) auto

lemma set_map_put: "x \<in> set (map_put k v m) \<Longrightarrow> x = (k, v) \<or> x \<in> set m"
  by (induction k v m rule: map_put.induct) (auto split: if_splits)

lemma sorted_map_put [simp, gomap]: "sorted_map m \<Longrightarrow> sorted_map (map_put k v m)"
  by (induction k v m rule: map_put.induct) auto

lemma map_of_notin: "sorted_map ((a, b) # m) \<Longrightarrow> map_of m a = None"
  by (auto simp: map_of_eq_None_iff)

lemma map_of_map_del [simp, gomap]:
  "sorted_map m \<Longrightarrow> map_of (map_del k m) = (map_of m)(k := None)"
proof (induction k m rule: map_del.induct)
  case (2 k a b m)
  then show ?case using map_of_notin [of a b m] by (auto simp: fun_eq_iff)
qed simp

lemma set_map_del: "x \<in> set (map_del k m) \<Longrightarrow> x \<in> set m"
  by (induction k m rule: map_del.induct) (auto split: if_splits)

lemma sorted_map_del [simp, gomap]: "sorted_map m \<Longrightarrow> sorted_map (map_del k m)"
  by (induction k m rule: map_del.induct) (auto dest: set_map_del)

lemma map_del_absent: "map_of m k = None \<Longrightarrow> map_del k m = m"
  by (induction k m rule: map_del.induct) auto

lemma map_put_same: "sorted_map m \<Longrightarrow> map_of m k = Some v \<Longrightarrow> map_put k v m = m"
proof (induction k v m rule: map_put.induct)
  case (2 k v a b m)
  then show ?case by (auto simp: image_iff dest!: map_of_SomeD split: if_splits)
qed simp

lemma sorted_map_ext:
  "sorted_map xs \<Longrightarrow> sorted_map ys \<Longrightarrow> map_of xs = map_of ys \<Longrightarrow> xs = ys"
proof (induction xs arbitrary: ys)
  case Nil
  then have "map_of ys (fst (hd ys)) = None" by simp
  then show ?case by (cases ys) auto
next
  case (Cons p xs)
  obtain a b where p: "p = (a, b)" by fastforce
  have a: "map_of ys a = Some b" unfolding Cons.prems(3) [symmetric] by (simp add: p)
  then obtain c d zs where ys: "ys = (c, d) # zs" by (cases ys) auto
  have c: "map_of (p # xs) c = Some d" unfolding Cons.prems(3) by (simp add: ys)
  have "a = c \<or> (a, b) \<in> set zs" using map_of_SomeD [OF a] ys by auto
  then have "c \<le> a" using Cons.prems(2) ys by fastforce
  have "c = a \<or> (c, d) \<in> set xs" using map_of_SomeD [OF c] p by auto
  then have "a \<le> c" using Cons.prems(1) p by fastforce
  with \<open>c \<le> a\<close> have ac: "a = c" by simp
  with a ys have bd: "b = d" by simp
  have "map_of xs = map_of zs"
  proof
    fix k
    have "map_of (p # xs) k = map_of ys k" by (rule fun_cong [OF Cons.prems(3)])
    then show "map_of xs k = map_of zs k"
      using map_of_notin [of a b xs] map_of_notin [of c d zs] Cons.prems(1,2) ac p ys
      by (cases "k = a") simp_all
  qed
  with Cons p ys ac bd show ?case by simp
qed

end
