(* ===== verification/Float64.thy ===== *)
theory Float64
  imports Meld_Prelude
begin

text \<open>
  The part of IEEE 754 double precision that the sources use: the classification of a bit pattern,
  the order of floats, the conversions \<open>float64(i)\<close> and \<open>int64(f)\<close>, \<open>math.Trunc\<close> and addition,
  all on the 64-bit patterns themselves.

  Every finite float is an integer multiple of \<open>2 ^ -1074\<close>, so its exact value is the integer
  \<open>fval f\<close> that counts those units. The patterns with the sign bit cleared are in the order of their
  values, and \<open>round_mag\<close> gives the pattern nearest to a magnitude, ties to the even pattern.
\<close>

type_synonym float64 = "64 word"

section \<open>Bit patterns and exact values\<close>

text \<open>\<open>funit\<close> counts the units in the number one.\<close>

definition funit :: nat where
  "funit = 2 ^ 1074"

definition inf_bits :: nat where
  "inf_bits = 2047 * 2 ^ 52"

definition float_abs_bits :: "float64 \<Rightarrow> nat" where
  "float_abs_bits f = unat f mod 2 ^ 63"

definition float_neg :: "float64 \<Rightarrow> bool" where
  "float_neg f \<longleftrightarrow> 2 ^ 63 \<le> unat f"

definition math_IsNaN :: "float64 \<Rightarrow> bool" where
  "math_IsNaN f \<longleftrightarrow> inf_bits < float_abs_bits f"

definition math_IsInf :: "float64 \<Rightarrow> bool" where
  "math_IsInf f \<longleftrightarrow> float_abs_bits f = inf_bits"

abbreviation float_finite :: "float64 \<Rightarrow> bool" where
  "float_finite f \<equiv> \<not> math_IsNaN f \<and> \<not> math_IsInf f"

definition bits_mag :: "nat \<Rightarrow> nat" where
  "bits_mag b = (if b < 2 ^ 52 then b else (2 ^ 52 + b mod 2 ^ 52) * 2 ^ (b div 2 ^ 52 - 1))"

definition fmag :: "float64 \<Rightarrow> nat" where
  "fmag f = bits_mag (float_abs_bits f)"

definition fval :: "float64 \<Rightarrow> int" where
  "fval f = (if float_neg f then - int (fmag f) else int (fmag f))"

definition float_bits :: "bool \<Rightarrow> nat \<Rightarrow> float64" where
  "float_bits neg b = (if neg then of_nat (2 ^ 63 + b) else of_nat b)"

text \<open>The Go comparison operators: every comparison with a NaN is false, and \<open>-0 == 0\<close>.\<close>

definition float_less :: "float64 \<Rightarrow> float64 \<Rightarrow> bool" where
  "float_less a b \<longleftrightarrow> \<not> math_IsNaN a \<and> \<not> math_IsNaN b \<and> fval a < fval b"

definition float_eq :: "float64 \<Rightarrow> float64 \<Rightarrow> bool" where
  "float_eq a b \<longleftrightarrow> \<not> math_IsNaN a \<and> \<not> math_IsNaN b \<and> fval a = fval b"

section \<open>Rounding\<close>

function excess_bits :: "nat \<Rightarrow> nat" where
  "excess_bits m = (if m < 2 ^ 53 then 0 else Suc (excess_bits (m div 2)))"
  by pat_completeness auto
termination by (relation "measure id") (auto intro!: div_less_dividend)

declare excess_bits.simps [simp del]

definition round_half_even :: "nat \<Rightarrow> nat \<Rightarrow> nat" where
  "round_half_even s m =
     (let q = m div 2 ^ s; r = m mod 2 ^ s
      in if 2 ^ s < 2 * r \<or> 2 ^ s = 2 * r \<and> odd q then q + 1 else q)"

definition round_mag :: "nat \<Rightarrow> nat" where
  "round_mag m = min inf_bits (excess_bits m * 2 ^ 52 + round_half_even (excess_bits m) m)"

definition round_int :: "bool \<Rightarrow> int \<Rightarrow> float64" where
  "round_int zero_neg v = float_bits (v < 0 \<or> v = 0 \<and> zero_neg) (round_mag (nat \<bar>v\<bar>))"

definition float64_of_int64 :: "int64 \<Rightarrow> float64" where
  "float64_of_int64 i = round_int False (sint i * int funit)"

definition math_Trunc :: "float64 \<Rightarrow> float64" where
  "math_Trunc f =
     (if float_finite f then float_bits (float_neg f) (round_mag (fmag f div funit * funit))
      else f)"

definition int64_of_float64 :: "float64 \<Rightarrow> int64" where
  "int64_of_float64 f =
     (let q = int (fmag f div funit) in if float_neg f then of_int (- q) else of_int q)"

definition nan_bits :: float64 where
  "nan_bits = 0x7FF8000000000001"

definition float_add :: "float64 \<Rightarrow> float64 \<Rightarrow> float64" where
  "float_add a b =
     (if math_IsNaN a \<or> math_IsNaN b then nan_bits
      else if math_IsInf a then
        (if math_IsInf b \<and> float_neg a \<noteq> float_neg b then nan_bits else a)
      else if math_IsInf b then b
      else round_int (float_neg a \<and> float_neg b) (fval a + fval b))"

section \<open>Facts\<close>

lemma float_abs_bits_bound: "float_abs_bits f < 2 ^ 63"
  by (simp add: float_abs_bits_def)

lemma inf_bits_bound: "inf_bits < 2 ^ 63"
  by (simp add: inf_bits_def)

lemma float_abs_bits_float_bits [simp]:
  "b < 2 ^ 63 \<Longrightarrow> float_abs_bits (float_bits neg b) = b"
  by (simp add: float_abs_bits_def float_bits_def unat_of_nat del: of_nat_add of_nat_power)

lemma float_neg_float_bits [simp]:
  "b < 2 ^ 63 \<Longrightarrow> float_neg (float_bits neg b) \<longleftrightarrow> neg"
  by (simp add: float_neg_def float_bits_def unat_of_nat del: of_nat_add of_nat_power)

lemma excess_bits_small: "m < 2 ^ 53 \<Longrightarrow> excess_bits m = 0"
  by (simp add: excess_bits.simps)

lemma excess_bits_big: "2 ^ 53 \<le> m \<Longrightarrow> excess_bits m = Suc (excess_bits (m div 2))"
  by (simp add: excess_bits.simps [of m] not_less)

lemma excess_bits_upper: "m div 2 ^ excess_bits m < 2 ^ 53"
proof (induction m rule: excess_bits.induct)
  case (1 m)
  then show ?case
    by (cases "m < 2 ^ 53") (simp_all add: excess_bits_small excess_bits_big div_mult2_eq)
qed

lemma excess_bits_lower: "excess_bits m > 0 \<Longrightarrow> 2 ^ 52 \<le> m div 2 ^ excess_bits m"
proof (induction m rule: excess_bits.induct)
  case (1 m)
  then have big: "\<not> m < 2 ^ 53" using excess_bits_small by fastforce
  show ?case
  proof (cases "excess_bits (m div 2)")
    case 0
    then show ?thesis using big by (simp add: excess_bits_big)
  next
    case (Suc n)
    have "m div 2 ^ Suc (excess_bits (m div 2)) = m div 2 div 2 ^ excess_bits (m div 2)"
      by (simp only: power_Suc div_mult2_eq)
    with 1(1) [OF big] Suc big show ?thesis by (simp only: excess_bits_big not_less)
  qed
qed

lemma excess_bits_mono: "m \<le> n \<Longrightarrow> excess_bits m \<le> excess_bits n"
proof (induction n arbitrary: m rule: excess_bits.induct)
  case (1 n)
  show ?case
  proof (cases "m < 2 ^ 53")
    case False
    with 1(2) have "\<not> n < 2 ^ 53" by simp
    with 1(1) [of "m div 2"] 1(2) False show ?thesis
      by (simp add: excess_bits_big div_le_mono)
  qed (simp add: excess_bits_small)
qed

lemma excess_bits_shift:
  assumes "2 ^ 52 \<le> a" "a < 2 ^ 53"
  shows "excess_bits (a * 2 ^ k) = k"
proof (induction k)
  case (Suc k)
  have "(2::nat) ^ 53 \<le> a * 2 ^ Suc k"
    using mult_le_mono [of "2^52" a 2 "2 ^ Suc k"] assms(1) by simp
  moreover have "a * 2 ^ Suc k div 2 = a * 2 ^ k" by simp
  ultimately show ?case using Suc by (simp add: excess_bits_big)
qed (use assms in \<open>simp add: excess_bits_small\<close>)

lemma round_half_even_bounds:
  "m div 2 ^ s \<le> round_half_even s m" "round_half_even s m \<le> m div 2 ^ s + 1"
  by (simp_all add: round_half_even_def Let_def)

lemma round_half_even_exact: "2 ^ s dvd m \<Longrightarrow> round_half_even s m = m div 2 ^ s"
  by (simp add: round_half_even_def)

lemma round_half_even_mono:
  assumes "m \<le> n"
  shows "round_half_even s m \<le> round_half_even s n"
proof (cases "m div 2 ^ s = n div 2 ^ s")
  case True
  have "m mod 2 ^ s \<le> n mod 2 ^ s"
    using assms True by (metis div_mult_mod_eq nat_add_left_cancel_le)
  then show ?thesis using True by (auto simp: round_half_even_def Let_def)
next
  case False
  with assms have "m div 2 ^ s < n div 2 ^ s"
    by (simp add: div_le_mono nat_less_le)
  then show ?thesis
    using round_half_even_bounds(2) [of s m] round_half_even_bounds(1) [of n s] by linarith
qed

text \<open>Rounding is monotone and leaves representable magnitudes alone.\<close>

lemma round_mag_mono:
  assumes "m \<le> n"
  shows "round_mag m \<le> round_mag n"
proof (cases "excess_bits m = excess_bits n")
  case True
  then show ?thesis
    using round_half_even_mono [OF assms, of "excess_bits n"] by (simp add: round_mag_def min_le_iff_disj)
next
  case False
  let ?s = "excess_bits m" and ?t = "excess_bits n"
  have st: "?s + 1 \<le> ?t" using False excess_bits_mono [OF assms] by linarith
  have "?s * 2 ^ 52 + round_half_even ?s m \<le> ?s * 2 ^ 52 + 2 ^ 53"
    using round_half_even_bounds(2) [of ?s m] excess_bits_upper [of m] by linarith
  also have "\<dots> = (?s + 1) * 2 ^ 52 + 2 ^ 52" by simp
  also have "\<dots> \<le> ?t * 2 ^ 52 + 2 ^ 52" using mult_le_mono1 [OF st] by (rule add_right_mono)
  also have "\<dots> \<le> ?t * 2 ^ 52 + round_half_even ?t n"
    using round_half_even_bounds(1) [of n ?t] excess_bits_lower [of n] st by linarith
  finally show ?thesis unfolding round_mag_def by (rule min.mono [OF order_refl])
qed

lemma round_mag_le_inf: "round_mag m \<le> inf_bits"
  by (simp add: round_mag_def)

lemma round_mag_bound: "round_mag m < 2 ^ 63"
  using round_mag_le_inf [of m] inf_bits_bound by linarith

lemma round_mag_bits_mag:
  assumes "b \<le> inf_bits"
  shows "round_mag (bits_mag b) = b"
proof (cases "b < 2 ^ 52")
  case True
  then have "b < 2 ^ 53" by simp
  with True assms show ?thesis
    by (simp add: round_mag_def bits_mag_def excess_bits_small round_half_even_def)
next
  case False
  define e where "e = b div 2 ^ 52"
  define a where "a = 2 ^ 52 + b mod 2 ^ 52"
  have e: "1 \<le> e" using False div_le_mono [of "2 ^ 52" b "2 ^ 52"] by (simp add: e_def)
  have a: "2 ^ 52 \<le> a" "a < 2 ^ 53"
    using mod_less_divisor [of "2 ^ 52" b] by (auto simp: a_def)
  have b: "(e - 1) * 2 ^ 52 + a = b"
  proof -
    have "(e - 1) * 2 ^ 52 + a = (e - 1 + 1) * 2 ^ 52 + b mod 2 ^ 52" by (simp add: a_def)
    also have "\<dots> = b" using e by (simp add: e_def)
    finally show ?thesis .
  qed
  have mag: "bits_mag b = a * 2 ^ (e - 1)" using False by (simp add: bits_mag_def a_def e_def)
  have ex: "excess_bits (bits_mag b) = e - 1" unfolding mag by (rule excess_bits_shift [OF a])
  have "round_half_even (e - 1) (bits_mag b) = a"
    using round_half_even_exact [of "e - 1" "bits_mag b"] by (simp add: mag)
  then show ?thesis using b assms unfolding round_mag_def ex by simp
qed

lemma bits_mag_less_iff:
  assumes "b \<le> inf_bits" "c \<le> inf_bits"
  shows "bits_mag b < bits_mag c \<longleftrightarrow> b < c"
proof -
  have le: "x \<le> y" if "bits_mag x \<le> bits_mag y" "x \<le> inf_bits" "y \<le> inf_bits" for x y
    using round_mag_mono [OF that(1)] that(2,3) by (simp add: round_mag_bits_mag)
  have "bits_mag b = bits_mag c \<longleftrightarrow> b = c"
    using assms by (metis round_mag_bits_mag)
  then show ?thesis using le [of b c] le [of c b] assms by (cases b c rule: linorder_cases) fastforce+
qed

lemma div_mod_compose:
  fixes c :: nat
  assumes "r < c"
  shows "(k * c + r) mod c = r" "(k * c + r) div c = k"
  using assms by simp_all

lemma bits_mag_compose:
  assumes "q \<le> 2 ^ 53" "s > 0 \<Longrightarrow> 2 ^ 52 \<le> q"
  shows "bits_mag (s * 2 ^ 52 + q) = q * 2 ^ s"
proof -
  consider "s = 0" "q < 2 ^ 52" | "q = 2 ^ 53" | "2 ^ 52 \<le> q" "q < 2 ^ 53"
    using assms by fastforce
  then show ?thesis
  proof cases
    case 2
    then have "s * 2 ^ 52 + q = (s + 2) * 2 ^ 52" by simp
    then show ?thesis using 2 by (simp only: bits_mag_def) simp
  next
    case 3
    then obtain r where r: "q = 2 ^ 52 + r" "r < 2 ^ 52"
      using le_Suc_ex [of "2 ^ 52" q] by auto
    then have "s * 2 ^ 52 + q = (s + 1) * 2 ^ 52 + r" by simp
    moreover note div_mod_compose [OF r(2), of "s + 1"]
    ultimately show ?thesis using r(1) by (simp only: bits_mag_def) simp
  qed (simp add: bits_mag_def)
qed

lemma bits_mag_round_mag:
  assumes "funit dvd m"
  shows "funit dvd bits_mag (round_mag m)"
proof -
  let ?s = "excess_bits m" and ?q = "round_half_even (excess_bits m) m"
  have "?q \<le> 2 ^ 53" "?s > 0 \<Longrightarrow> 2 ^ 52 \<le> ?q"
    using round_half_even_bounds(1) [of m ?s] round_half_even_bounds(2) [of ?s m]
      excess_bits_upper [of m] excess_bits_lower [of m]
    by linarith+
  then have mag: "bits_mag (?s * 2 ^ 52 + ?q) = ?q * 2 ^ ?s" by (rule bits_mag_compose)
  have unit: "funit dvd 2 ^ k" if "1074 \<le> k" for k
    unfolding funit_def using that by (rule le_imp_power_dvd)
  have "inf_bits = 2046 * 2 ^ 52 + 2 ^ 52" by (simp add: inf_bits_def)
  then have "bits_mag inf_bits = 2 ^ 52 * 2 ^ 2046"
    using bits_mag_compose [of "2 ^ 52" 2046] by (simp only:) simp
  then have inf: "funit dvd bits_mag inf_bits"
    using dvd_mult [OF unit [of 2046], of "2 ^ 52"] by simp
  have "funit dvd ?q * 2 ^ ?s"
  proof (cases "1074 \<le> ?s")
    case True
    then show ?thesis by (intro dvd_mult unit)
  next
    case False
    then have "(2::nat) ^ ?s dvd funit" unfolding funit_def by (intro le_imp_power_dvd) simp
    then have "2 ^ ?s dvd m" using assms by (rule dvd_trans)
    then show ?thesis using assms by (simp add: round_half_even_exact)
  qed
  with inf mag show ?thesis unfolding round_mag_def by (metis min_def)
qed

text \<open>The value of a rounded integer, and the facts that order comparisons need.\<close>

definition rnd :: "int \<Rightarrow> int" where
  "rnd v = (if v < 0 then - int (bits_mag (round_mag (nat \<bar>v\<bar>))) else int (bits_mag (round_mag (nat \<bar>v\<bar>))))"

lemma round_mag_0 [simp]: "round_mag 0 = 0"
  by (simp add: round_mag_def excess_bits_small round_half_even_def)

lemma bits_mag_0 [simp]: "bits_mag 0 = 0"
  by (simp add: bits_mag_def)

lemma fval_float_bits: "b < 2 ^ 63 \<Longrightarrow>
    fval (float_bits neg b) = (if neg then - int (bits_mag b) else int (bits_mag b))"
  by (simp add: fval_def fmag_def)

lemma fval_round_int [simp]: "fval (round_int z v) = rnd v"
  using round_mag_bound [of "nat \<bar>v\<bar>"]
  by (auto simp: round_int_def fval_float_bits rnd_def)

lemma not_nan_round_int [simp]: "\<not> math_IsNaN (round_int z v)"
  using round_mag_bound [of "nat \<bar>v\<bar>"] round_mag_le_inf [of "nat \<bar>v\<bar>"]
  by (simp add: math_IsNaN_def round_int_def not_less)

lemma rnd_mono:
  assumes "v \<le> w"
  shows "rnd v \<le> rnd w"
proof -
  have mono: "bits_mag (round_mag m) \<le> bits_mag (round_mag n)" if "m \<le> n" for m n
    using bits_mag_less_iff [OF round_mag_le_inf round_mag_le_inf, of n m] round_mag_mono [OF that]
    by linarith
  show ?thesis
    using assms mono [of "nat \<bar>v\<bar>" "nat \<bar>w\<bar>"] mono [of "nat \<bar>w\<bar>" "nat \<bar>v\<bar>"]
    by (auto simp: rnd_def)
qed

lemma rnd_fval:
  assumes "\<not> math_IsNaN f"
  shows "rnd (fval f) = fval f"
proof -
  have "float_abs_bits f \<le> inf_bits" using assms by (simp add: math_IsNaN_def)
  then have "round_mag (fmag f) = float_abs_bits f" by (simp add: fmag_def round_mag_bits_mag)
  then show ?thesis by (auto simp: rnd_def fval_def fmag_def)
qed

lemma rnd_dvd:
  assumes "int funit dvd v"
  shows "int funit dvd rnd v"
proof -
  have "funit dvd nat \<bar>v\<bar>" using assms by (simp add: int_dvd_int_iff [symmetric])
  then have "int funit dvd int (bits_mag (round_mag (nat \<bar>v\<bar>)))"
    by (simp only: int_dvd_int_iff bits_mag_round_mag)
  then show ?thesis unfolding rnd_def by (cases "v < 0") (simp_all only: if_True if_False dvd_minus_iff)
qed

lemma fval_less_mono: "rnd v < fval f \<Longrightarrow> \<not> math_IsNaN f \<Longrightarrow> v < fval f"
  using rnd_mono [of "fval f" v] rnd_fval [of f] by linarith

lemma fval_greater_mono: "fval f < rnd v \<Longrightarrow> \<not> math_IsNaN f \<Longrightarrow> fval f < v"
  using rnd_mono [of v "fval f"] rnd_fval [of f] by linarith

end
