(* ===== verification/Value_Model.thy ===== *)
theory Value_Model
  imports Float64
begin

text \<open>
  Values and documents of \<open>internal/database/value.go\<close> and \<open>document.go\<close>: the typed value, equality,
  the comparison of an integer with a float, field names, validation and dotted-path lookup.

  A \<open>Document\<close> is a Go map from field names; it is the sorted association list of its fields
  (\<open>sorted_map\<close> of the prelude), hereditarily (\<open>value_ok\<close>). A \<open>time.Time\<close> is its \<open>UnixMilli\<close>, since
  the constructor truncates to milliseconds in UTC, and a \<open>DocumentID\<close> is its 16 bytes.
\<close>

section \<open>Data\<close>

type_synonym DocumentID = bytes

datatype Value =
    VNull
  | VBool bool
  | VInt int64
  | VFloat float64
  | VString bytes
  | VBinary bytes
  | VTime int64
  | VArray "Value list"
  | VObject "(bytes \<times> Value) list"
  | VID DocumentID

type_synonym Document = "(bytes \<times> Value) list"

datatype db_error =
    ErrInvalidDocument
  | ErrCorrupt
  | ErrInvalidFilter
  | ErrImmutableID
  | ErrInvalidUpdate
  | ErrKey
  | ErrQueryBudget
  | ErrInvalidDelta
  | ErrInvalidIndex
  | ErrClosed

fun kind :: "Value \<Rightarrow> nat" where
  "kind VNull = 0"
| "kind (VBool _) = 1"
| "kind (VInt _) = 2"
| "kind (VFloat _) = 3"
| "kind (VString _) = 4"
| "kind (VBinary _) = 5"
| "kind (VTime _) = 6"
| "kind (VArray _) = 7"
| "kind (VObject _) = 8"
| "kind (VID _) = 9"

definition zeroID :: DocumentID where
  "zeroID = replicate 16 0"

definition IsZero :: "DocumentID \<Rightarrow> bool" where
  "IsZero i \<longleftrightarrow> i = zeroID"

definition field_id :: bytes where
  "field_id = str ''_id''"

definition Document_ID :: "Document \<Rightarrow> DocumentID option" where
  "Document_ID d = (case map_of d field_id of Some (VID i) \<Rightarrow> Some i | _ \<Rightarrow> None)"

section \<open>Identifiers in hexadecimal\<close>

definition hex_digit :: "nat \<Rightarrow> byte" where
  "hex_digit n = (if n < 10 then of_nat (48 + n) else of_nat (87 + n))"

definition hex_value :: "byte \<Rightarrow> nat option" where
  "hex_value c =
     (if 48 \<le> unat c \<and> unat c \<le> 57 then Some (unat c - 48)
      else if 97 \<le> unat c \<and> unat c \<le> 102 then Some (unat c - 87)
      else if 65 \<le> unat c \<and> unat c \<le> 70 then Some (unat c - 55)
      else None)"

fun hex_EncodeToString :: "bytes \<Rightarrow> bytes" where
  "hex_EncodeToString [] = []"
| "hex_EncodeToString (b # bs) =
     hex_digit (unat b div 16) # hex_digit (unat b mod 16) # hex_EncodeToString bs"

fun hex_DecodeString :: "bytes \<Rightarrow> bytes option" where
  "hex_DecodeString [] = Some []"
| "hex_DecodeString [_] = None"
| "hex_DecodeString (a # b # bs) =
     (case (hex_value a, hex_value b, hex_DecodeString bs) of
        (Some x, Some y, Some r) \<Rightarrow> Some (of_nat (16 * x + y) # r)
      | _ \<Rightarrow> None)"

definition ParseDocumentID :: "bytes \<Rightarrow> db_error + DocumentID" where
  "ParseDocumentID s =
     (case hex_DecodeString s of
        None \<Rightarrow> Inl ErrInvalidDocument
      | Some b \<Rightarrow> if length b \<noteq> 16 then Inl ErrInvalidDocument else Inr b)"

definition DocumentID_String :: "DocumentID \<Rightarrow> bytes" where
  "DocumentID_String i = hex_EncodeToString i"

section \<open>Comparison of an integer with a float\<close>

definition two63 :: float64 where
  "two63 = float_bits False (round_mag (2 ^ 63 * funit))"

definition neg_two63 :: float64 where
  "neg_two63 = float_bits True (round_mag (2 ^ 63 * funit))"

definition compareIntFloat :: "int64 \<Rightarrow> float64 \<Rightarrow> int option" where
  "compareIntFloat i f =
     (if math_IsNaN f then None
      else if float_less two63 f \<or> float_eq two63 f then Some (-1)
      else if float_less f neg_two63 then Some 1
      else if float_eq (float64_of_int64 i) f \<and> float_eq (math_Trunc f) f \<and> int64_of_float64 f = i
        then Some 0
      else if float_less (float64_of_int64 i) f then Some (-1)
      else Some 1)"

fun compareNumeric :: "Value \<Rightarrow> Value \<Rightarrow> int option" where
  "compareNumeric (VInt i) (VFloat f) = compareIntFloat i f"
| "compareNumeric (VFloat f) (VInt i) = map_option uminus (compareIntFloat i f)"
| "compareNumeric _ _ = None"

section \<open>Equality\<close>

text \<open>The fields of the Go struct that a value of another kind leaves at zero.\<close>

fun val_f :: "Value \<Rightarrow> float64" where
  "val_f (VFloat f) = f"
| "val_f _ = 0"

fun val_arr :: "Value \<Rightarrow> Value list" where
  "val_arr (VArray arr) = arr"
| "val_arr _ = []"

fun val_obj :: "Value \<Rightarrow> Document" where
  "val_obj (VObject obj) = obj"
| "val_obj _ = []"

fun value_Equal :: "Value \<Rightarrow> Value \<Rightarrow> bool"
  and values_Equal :: "Value list \<Rightarrow> Value list \<Rightarrow> bool"
  and fields_Equal :: "Document \<Rightarrow> Document \<Rightarrow> bool" where
  "value_Equal v w =
     (if kind v \<noteq> kind w then compareNumeric v w = Some 0
      else case v of
          VNull \<Rightarrow> True
        | VBool b \<Rightarrow> w = VBool b
        | VInt i \<Rightarrow> w = VInt i
        | VFloat f \<Rightarrow> float_eq f (val_f w)
        | VString s \<Rightarrow> w = VString s
        | VBinary bin \<Rightarrow> w = VBinary bin
        | VTime t \<Rightarrow> w = VTime t
        | VID i \<Rightarrow> w = VID i
        | VArray arr \<Rightarrow> length arr = length (val_arr w) \<and> values_Equal arr (val_arr w)
        | VObject obj \<Rightarrow> length obj = length (val_obj w) \<and> fields_Equal obj (val_obj w))"
| "values_Equal (v # vs) (w # ws) = (value_Equal v w \<and> values_Equal vs ws)"
| "values_Equal _ _ = True"
| "fields_Equal [] other = True"
| "fields_Equal ((k, v) # d) other =
     (case map_of other k of
        None \<Rightarrow> False
      | Some ov \<Rightarrow> value_Equal v ov \<and> fields_Equal d other)"

definition Document_Equal :: "Document \<Rightarrow> Document \<Rightarrow> bool" where
  "Document_Equal d other \<longleftrightarrow> length d = length other \<and> fields_Equal d other"

section \<open>Field names and validation\<close>

text \<open>\<open>utf8.Valid\<close> accepts exactly the byte sequences of Go's accept-range table.\<close>

definition utf8_cont :: "byte \<Rightarrow> bool" where
  "utf8_cont b \<longleftrightarrow> 0x80 \<le> b \<and> b \<le> 0xBF"

fun utf8_Valid :: "bytes \<Rightarrow> bool" where
  "utf8_Valid [] = True"
| "utf8_Valid (a # r) =
     (if a < 0x80 then utf8_Valid r
      else case r of [] \<Rightarrow> False | b # r2 \<Rightarrow>
        if 0xC2 \<le> a \<and> a \<le> 0xDF then utf8_cont b \<and> utf8_Valid r2
        else case r2 of [] \<Rightarrow> False | c # r3 \<Rightarrow>
          if 0xE0 \<le> a \<and> a \<le> 0xEF then
            (if a = 0xE0 then 0xA0 \<le> b else 0x80 \<le> b) \<and> (if a = 0xED then b \<le> 0x9F else b \<le> 0xBF)
              \<and> utf8_cont c \<and> utf8_Valid r3
          else case r3 of [] \<Rightarrow> False | d # r4 \<Rightarrow>
            0xF0 \<le> a \<and> a \<le> 0xF4 \<and>
            (if a = 0xF0 then 0x90 \<le> b else 0x80 \<le> b) \<and> (if a = 0xF4 then b \<le> 0x8F else b \<le> 0xBF)
              \<and> utf8_cont c \<and> utf8_cont d \<and> utf8_Valid r4)"

definition validField :: "bytes \<Rightarrow> bool" where
  "validField k \<longleftrightarrow>
     \<not> (k = [] \<or> \<not> utf8_Valid k \<or> 0 \<in> set k \<or> 0x2E \<in> set k \<or> take 1 k = [0x24]
        \<or> k = str ''__proto__'' \<or> k = str ''prototype'' \<or> k = str ''constructor'')"

fun leafOK :: "Value \<Rightarrow> bool" where
  "leafOK (VFloat f) = (\<not> (math_IsNaN f \<or> math_IsInf f))"
| "leafOK (VString s) = utf8_Valid s"
| "leafOK _ = True"

text \<open>
  \<open>validateFields\<close> and \<open>validateItems\<close> are the loops of \<open>validateDocument\<close> and \<open>validateArray\<close>;
  \<open>validateNested\<close> is the call that both loops make for an object or an array one level down, with
  the depth test at the head of the callee.
\<close>

fun validateFields :: "nat \<Rightarrow> Document \<Rightarrow> db_error + unit"
  and validateItems :: "nat \<Rightarrow> Value list \<Rightarrow> db_error + unit"
  and validateNested :: "nat \<Rightarrow> Value \<Rightarrow> db_error + unit" where
  "validateFields depth [] = Inr ()"
| "validateFields depth ((k, v) # d) =
     (if \<not> validField k then Inl ErrInvalidDocument
      else if \<not> leafOK v then Inl ErrInvalidDocument
      else rbind (validateNested depth v) (\<lambda>_. validateFields depth d))"
| "validateItems depth [] = Inr ()"
| "validateItems depth (v # vs) =
     (if \<not> leafOK v then Inl ErrInvalidDocument
      else rbind (validateNested depth v) (\<lambda>_. validateItems depth vs))"
| "validateNested depth v =
     (case v of
        VObject d \<Rightarrow> if 64 < depth + 1 then Inl ErrInvalidDocument else validateFields (depth + 1) d
      | VArray vs \<Rightarrow> if 64 < depth + 1 then Inl ErrInvalidDocument else validateItems (depth + 1) vs
      | _ \<Rightarrow> Inr ())"

definition validateDocument :: "nat \<Rightarrow> Document \<Rightarrow> db_error + unit" where
  "validateDocument depth d = (if 64 < depth then Inl ErrInvalidDocument else validateFields depth d)"

definition validateArray :: "nat \<Rightarrow> Value list \<Rightarrow> db_error + unit" where
  "validateArray depth vs = (if 64 < depth then Inl ErrInvalidDocument else validateItems depth vs)"

definition Validate :: "Document \<Rightarrow> db_error + unit" where
  "Validate d = validateDocument 0 d"

section \<open>Dotted paths\<close>

fun split_dot :: "bytes \<Rightarrow> bytes list" where
  "split_dot [] = [[]]"
| "split_dot (c # s) =
     (if c = 0x2E then [] # split_dot s
      else case split_dot s of [] \<Rightarrow> [[c]] | p # ps \<Rightarrow> (c # p) # ps)"

fun lookup_parts :: "Document \<Rightarrow> bytes list \<Rightarrow> Value option" where
  "lookup_parts current [] = None"
| "lookup_parts current (part # parts) =
     (case map_of current part of
        None \<Rightarrow> None
      | Some v \<Rightarrow>
          if parts = [] then Some v
          else case v of VObject d \<Rightarrow> lookup_parts d parts | _ \<Rightarrow> None)"

definition lookup :: "Document \<Rightarrow> bytes \<Rightarrow> Value option" where
  "lookup d path = lookup_parts d (split_dot path)"


section \<open>Exactness of the integer comparison\<close>

abbreviation int_val :: "int64 \<Rightarrow> int" where
  "int_val i \<equiv> sint i * int funit"

lemma funit_pos [simp]: "0 < funit" "funit \<noteq> 0"
  by (simp_all add: funit_def)

lemma bits_mag_two63: "bits_mag (1086 * 2 ^ 52) = 2 ^ 63 * funit"
proof -
  have "1086 * 2 ^ 52 = 1085 * 2 ^ 52 + (2::nat) ^ 52" by simp
  then have "bits_mag (1086 * 2 ^ 52) = 2 ^ 52 * 2 ^ 1085"
    using bits_mag_compose [of "2 ^ 52" 1085] by (simp only:) simp
  also have "\<dots> = 2 ^ 63 * funit" unfolding funit_def by (simp only: power_add [symmetric]) simp
  finally show ?thesis .
qed

lemma round_mag_two63: "round_mag (2 ^ 63 * funit) = 1086 * 2 ^ 52"
  unfolding bits_mag_two63 [symmetric]
  by (rule round_mag_bits_mag) (simp add: inf_bits_def)

lemma fval_two63:
  "fval two63 = 2 ^ 63 * int funit" "fval neg_two63 = - (2 ^ 63 * int funit)"
proof -
  have "(1086 * 2 ^ 52 :: nat) < 2 ^ 63" by simp
  note fval_float_bits [OF this, unfolded bits_mag_two63]
  then show "fval two63 = 2 ^ 63 * int funit" "fval neg_two63 = - (2 ^ 63 * int funit)"
    unfolding two63_def neg_two63_def round_mag_two63 by simp_all
qed

lemma not_nan_two63: "\<not> math_IsNaN two63" "\<not> math_IsNaN neg_two63"
  unfolding two63_def neg_two63_def round_mag_two63 math_IsNaN_def by (simp_all add: inf_bits_def)

lemma int_val_bounds: "- (2 ^ 63 * int funit) \<le> int_val i" "int_val i < 2 ^ 63 * int funit"
proof -
  have "- (2 ^ 63) \<le> sint i" "sint i < 2 ^ 63"
    using sint_greater_eq [of i] sint_less [of i] by simp_all
  then have "- (2 ^ 63) * int funit \<le> int_val i" "int_val i < 2 ^ 63 * int funit"
    using funit_pos by (simp_all only: mult_right_mono mult_strict_right_mono of_nat_0_less_iff of_nat_0_le_iff)
  then show "- (2 ^ 63 * int funit) \<le> int_val i" "int_val i < 2 ^ 63 * int funit"
    by simp_all
qed

lemma math_Trunc_integral:
  assumes "int funit dvd fval f" "\<not> math_IsNaN f"
  shows "float_eq (math_Trunc f) f"
proof (cases "float_finite f")
  case True
  have "funit dvd fmag f"
    using assms(1) by (simp add: fval_def int_dvd_int_iff split: if_splits)
  moreover have "round_mag (fmag f) = float_abs_bits f"
    using assms(2) by (simp add: fmag_def math_IsNaN_def round_mag_bits_mag)
  ultimately have "math_Trunc f = float_bits (float_neg f) (float_abs_bits f)"
    using True by (simp add: math_Trunc_def)
  moreover have "\<dots> = f"
  proof -
    have "unat f = (if float_neg f then 2 ^ 63 + float_abs_bits f else float_abs_bits f)"
      using unat_bound [of f] by (auto simp: float_neg_def float_abs_bits_def mod_if)
    then have "float_bits (float_neg f) (float_abs_bits f) = of_nat (unat f)"
      by (simp add: float_bits_def)
    then show ?thesis by simp
  qed
  ultimately show ?thesis using assms(2) by (simp add: float_eq_def)
qed (use assms in \<open>simp add: math_Trunc_def float_eq_def\<close>)


lemma int64_of_float64_integral:
  assumes "int funit dvd fval f"
  shows "int64_of_float64 f = of_int (fval f div int funit)"
proof -
  have "funit dvd fmag f"
    using assms by (simp add: fval_def int_dvd_int_iff split: if_splits)
  then have "int (fmag f div funit) = int (fmag f) div int funit"
    "- (int (fmag f) div int funit) = - int (fmag f) div int funit"
    by (simp_all add: zdiv_int div_minus_minus dvd_neg_div int_dvd_int_iff)
  then show ?thesis by (simp add: int64_of_float64_def fval_def Let_def)
qed

lemma sint_of_int_range: "- (2 ^ 63) \<le> k \<Longrightarrow> k < 2 ^ 63 \<Longrightarrow> sint (of_int k :: int64) = k"
  by (simp add: signed_of_int signed_take_bit_int_eq_self)

lemma float64_of_int64_facts:
  "fval (float64_of_int64 i) = rnd (int_val i)" "\<not> math_IsNaN (float64_of_int64 i)"
  by (simp_all add: float64_of_int64_def)

text \<open>
  The integer and the float compare by their exact values, except when the conversion of the integer
  rounds up onto the float.
\<close>

lemma compareIntFloat_mid:
  assumes nan: "\<not> math_IsNaN f"
    and range: "fval f < 2 ^ 63 * int funit" "- (2 ^ 63 * int funit) \<le> fval f"
  shows "compareIntFloat i f =
    Some (if int_val i < fval f \<and> rnd (int_val i) = fval f then 1 else sgn (int_val i - fval f))"
proof -
  have c: "compareIntFloat i f =
      (if rnd (int_val i) = fval f \<and> float_eq (math_Trunc f) f \<and> int64_of_float64 f = i then Some 0
       else if rnd (int_val i) < fval f then Some (-1) else Some 1)"
    using nan range
    by (simp add: compareIntFloat_def float_less_def float_eq_def not_nan_two63 fval_two63
        float64_of_int64_facts not_less)
  show ?thesis
  proof (cases "rnd (int_val i) = fval f")
    case True
    then have dvd: "int funit dvd fval f" using rnd_dvd [of "int_val i"] by simp
    then obtain k where k: "fval f = int funit * k" by blast
    have "- (2 ^ 63) \<le> k" "k < 2 ^ 63"
      using range k funit_pos(1) by (simp_all add: mult.commute [of _ "int funit"] flip: mult_minus_right)
    then have "int64_of_float64 f = i \<longleftrightarrow> sint i = k"
      using int64_of_float64_integral [OF dvd] k
      by (auto simp: sint_of_int_range)
    also have "\<dots> \<longleftrightarrow> int_val i = fval f" using k by (auto simp: mult.commute)
    finally show ?thesis
      using True c math_Trunc_integral [OF dvd nan] by (auto simp: sgn_if)
  next
    case False
    then have "rnd (int_val i) < fval f \<Longrightarrow> int_val i < fval f"
      "\<not> rnd (int_val i) < fval f \<Longrightarrow> fval f < int_val i"
      using fval_less_mono [OF _ nan, of "int_val i"] fval_greater_mono [OF _ nan, of "int_val i"]
      by linarith+
    then show ?thesis using False c rnd_fval [OF nan] by (auto simp: sgn_if)
  qed
qed

lemma compareIntFloat_exact:
  assumes "\<not> math_IsNaN f"
  shows "compareIntFloat i f =
    Some (if int_val i < fval f \<and> rnd (int_val i) = fval f \<and> fval f < 2 ^ 63 * int funit then 1
          else sgn (int_val i - fval f))"
proof -
  consider "2 ^ 63 * int funit \<le> fval f" | "fval f < - (2 ^ 63 * int funit)"
    | "fval f < 2 ^ 63 * int funit" "- (2 ^ 63 * int funit) \<le> fval f" by linarith
  then show ?thesis
  proof cases
    case 1
    then have "int_val i < fval f" using int_val_bounds(2) [of i] by linarith
    with 1 show ?thesis
      using assms
      by (auto simp: compareIntFloat_def float_less_def float_eq_def not_nan_two63 fval_two63 sgn_if)
  next
    case 2
    then have "fval f < int_val i" using int_val_bounds(1) [of i] by linarith
    moreover have "fval f < 2 ^ 63 * int funit"
    proof -
      have "0 \<le> 2 ^ 63 * int funit" by simp
      with 2 show ?thesis by linarith
    qed
    ultimately show ?thesis
      using assms 2
      by (auto simp: compareIntFloat_def float_less_def float_eq_def not_nan_two63 fval_two63 sgn_if)
  next
    case 3
    then show ?thesis using compareIntFloat_mid [OF assms] by auto
  qed
qed

lemma compareIntFloat_zero_iff:
  "compareIntFloat i f = Some 0 \<longleftrightarrow> \<not> math_IsNaN f \<and> int_val i = fval f"
proof (cases "math_IsNaN f")
  case True
  then show ?thesis by (simp add: compareIntFloat_def)
next
  case False
  then show ?thesis using compareIntFloat_exact [OF False, of i] by (auto simp: sgn_if)
qed

section \<open>Well-formed values and the meaning of equality\<close>

text \<open>
  \<open>value_all P\<close> states \<open>P\<close> of a value and of every value inside it. The invariant of the
  representation is \<open>value_wf\<close>; \<open>sem\<close> maps a value to its meaning, in which an integer and a float
  with the same exact value are the same number.
\<close>

fun value_all :: "(Value \<Rightarrow> bool) \<Rightarrow> Value \<Rightarrow> bool" where
  "value_all P v =
     (P v \<and>
      (case v of
         VArray vs \<Rightarrow> (\<forall>w \<in> set vs. value_all P w)
       | VObject d \<Rightarrow> (\<forall>w \<in> snd ` set d. value_all P w)
       | _ \<Rightarrow> True))"

declare value_all.simps [simp del]

lemma value_all_simps [simp]:
  "value_all P VNull = P VNull"
  "value_all P (VBool b) = P (VBool b)"
  "value_all P (VInt i) = P (VInt i)"
  "value_all P (VFloat f) = P (VFloat f)"
  "value_all P (VString s) = P (VString s)"
  "value_all P (VBinary s) = P (VBinary s)"
  "value_all P (VTime t) = P (VTime t)"
  "value_all P (VID x) = P (VID x)"
  "value_all P (VArray vs) = (P (VArray vs) \<and> (\<forall>w \<in> set vs. value_all P w))"
  "value_all P (VObject d) = (P (VObject d) \<and> (\<forall>w \<in> snd ` set d. value_all P w))"
  by (subst value_all.simps, simp)+

fun node_wf :: "Value \<Rightarrow> bool" where
  "node_wf (VObject d) = sorted_map d"
| "node_wf (VID x) = (length x = 16)"
| "node_wf _ = True"

fun node_number :: "Value \<Rightarrow> bool" where
  "node_number (VFloat f) = (\<not> math_IsNaN f)"
| "node_number _ = True"

abbreviation value_wf :: "Value \<Rightarrow> bool" where
  "value_wf \<equiv> value_all node_wf"

abbreviation nan_free :: "Value \<Rightarrow> bool" where
  "nan_free \<equiv> value_all node_number"

datatype meaning =
    SNull
  | SBool bool
  | SNumber int
  | SString bytes
  | SBinary bytes
  | STime int64
  | SArray "meaning list"
  | SObject "(bytes \<times> meaning) list"
  | SID DocumentID

fun sem :: "Value \<Rightarrow> meaning" where
  "sem VNull = SNull"
| "sem (VBool b) = SBool b"
| "sem (VInt i) = SNumber (int_val i)"
| "sem (VFloat f) = SNumber (fval f)"
| "sem (VString s) = SString s"
| "sem (VBinary s) = SBinary s"
| "sem (VTime t) = STime t"
| "sem (VArray vs) = SArray (map sem vs)"
| "sem (VObject d) = SObject (map (\<lambda>(k, v). (k, sem v)) d)"
| "sem (VID x) = SID x"

abbreviation sem_doc :: "Document \<Rightarrow> (bytes \<times> meaning) list" where
  "sem_doc d \<equiv> map (\<lambda>(k, v). (k, sem v)) d"

declare value_Equal.simps [simp del]

lemma values_Equal_list_all2:
  "length vs = length ws \<Longrightarrow> values_Equal vs ws = list_all2 value_Equal vs ws"
  by (induction vs ws rule: list_induct2) simp_all

lemma fields_Equal_iff:
  "fields_Equal d other \<longleftrightarrow>
     (\<forall>(k, v) \<in> set d. \<exists>ov. map_of other k = Some ov \<and> value_Equal v ov)"
  by (induction d) (auto split: option.splits)

lemma map_of_sem_doc: "map_of (sem_doc d) k = map_option sem (map_of d k)"
  by (simp add: map_of_map)

lemma sorted_sem_doc: "sorted_map (sem_doc d) = sorted_map d"
  by (simp add: sorted_map_def comp_def case_prod_unfold)

lemma fields_match_sem_doc:
  assumes "sorted_map d" "sorted_map e" "length d = length e"
    and "\<forall>(k, v) \<in> set d. \<exists>w. map_of e k = Some w \<and> sem v = sem w"
  shows "sem_doc d = sem_doc e"
proof -
  have "fst ` set d \<subseteq> fst ` set e"
    using assms(4) by (force dest: map_of_SomeD)
  moreover have "card (fst ` set d) = card (fst ` set e)"
    using assms(1-3) sorted_map_distinct [of d] sorted_map_distinct [of e]
    by (metis distinct_card length_map set_map)
  ultimately have "set (map fst d) = set (map fst e)"
    by (simp add: card_subset_eq)
  then have fsts: "map fst d = map fst e"
    using assms(1,2) unfolding sorted_map_def by (simp add: strict_sorted_equal)
  have "map_of (sem_doc d) k = map_of (sem_doc e) k" for k
  proof (cases "map_of d k")
    case None
    then have "map_of e k = None"
      using fsts by (metis list.set_map map_of_eq_None_iff)
    with None show ?thesis by (simp add: map_of_sem_doc)
  next
    case (Some v)
    then show ?thesis using assms(4) by (force simp: map_of_sem_doc dest: map_of_SomeD)
  qed
  then show ?thesis using assms(1,2) by (intro sorted_map_ext) (auto simp: sorted_sem_doc)
qed

lemma sem_doc_fields_match:
  assumes "sorted_map d" "sem_doc d = sem_doc e"
  shows "length d = length e \<and> (\<forall>(k, v) \<in> set d. \<exists>w. map_of e k = Some w \<and> sem v = sem w)"
proof -
  have "\<exists>w. map_of e k = Some w \<and> sem v = sem w" if "(k, v) \<in> set d" for k v
  proof -
    have "map_of d k = Some v" using that assms(1) by (simp add: sorted_map_distinct)
    then have "map_option sem (map_of e k) = Some (sem v)"
      using map_of_sem_doc [of d k] map_of_sem_doc [of e k] assms(2) by simp
    then show ?thesis by auto
  qed
  moreover have "length d = length e" using assms(2) by (metis length_map)
  ultimately show ?thesis by auto
qed

text \<open>\<open>Equal\<close> decides equality of meanings.\<close>

lemma value_Equal_sem:
  "value_wf v \<Longrightarrow> value_wf w \<Longrightarrow> nan_free v \<Longrightarrow> nan_free w \<Longrightarrow> value_Equal v w \<longleftrightarrow> sem v = sem w"
proof (induction v arbitrary: w)
  case (VArray vs)
  show ?case
  proof (cases w)
    case (VArray ws)
    have "list_all2 value_Equal vs ws \<longleftrightarrow> map sem vs = map sem ws" if "length vs = length ws"
      using that VArray.IH VArray.prems VArray
      by (auto simp: list_all2_conv_all_nth list_eq_iff_nth_eq)
    moreover have "map sem vs = map sem ws \<Longrightarrow> length vs = length ws"
      by (rule map_eq_imp_length_eq)
    ultimately have "length vs = length ws \<and> values_Equal vs ws \<longleftrightarrow> map sem vs = map sem ws"
      using values_Equal_list_all2 by blast
    then show ?thesis using VArray by (simp add: value_Equal.simps)
  qed (simp_all add: value_Equal.simps)
next
  case (VObject d)
  show ?case
  proof (cases w)
    case (VObject e)
    have IH: "value_Equal v x \<longleftrightarrow> sem v = sem x"
      if "(k, v) \<in> set d" "map_of e k = Some x" for k v x
      using VObject.IH [of "(k, v)" v x] VObject.prems VObject that
      by (force dest: map_of_SomeD)
    have "length d = length e \<and> fields_Equal d e \<longleftrightarrow> sem_doc d = sem_doc e"
      using fields_match_sem_doc [of d e] sem_doc_fields_match [of d e] VObject.prems VObject IH
      unfolding fields_Equal_iff by fastforce
    then show ?thesis using VObject by (simp add: value_Equal.simps)
  qed (simp_all add: value_Equal.simps)
next
  case (VInt i)
  then show ?case
    by (cases w) (auto simp: value_Equal.simps compareIntFloat_zero_iff dest: signed_word_eqI)
next
  case (VFloat f)
  then show ?case
    by (cases w) (auto simp: value_Equal.simps compareIntFloat_zero_iff float_eq_def)
next
  case VNull
  then show ?case by (cases w) (simp_all add: value_Equal.simps)
next
  case (VBool b)
  then show ?case by (cases w) (auto simp: value_Equal.simps)
next
  case (VString s)
  then show ?case by (cases w) (auto simp: value_Equal.simps)
next
  case (VBinary s)
  then show ?case by (cases w) (auto simp: value_Equal.simps)
next
  case (VTime t)
  then show ?case by (cases w) (auto simp: value_Equal.simps)
next
  case (VID x)
  then show ?case by (cases w) (auto simp: value_Equal.simps)
qed

lemma Document_Equal_sem:
  assumes "value_wf (VObject d)" "value_wf (VObject e)" "nan_free (VObject d)" "nan_free (VObject e)"
  shows "Document_Equal d e \<longleftrightarrow> sem_doc d = sem_doc e"
  using value_Equal_sem [OF assms] by (simp add: Document_Equal_def value_Equal.simps)

section \<open>What validation accepts\<close>

fun height :: "Value \<Rightarrow> nat" where
  "height v =
     (case v of
        VArray vs \<Rightarrow> Suc (foldr max (map height vs) 0)
      | VObject d \<Rightarrow> Suc (foldr max (map (\<lambda>(k, v). height v) d) 0)
      | _ \<Rightarrow> 0)"

declare height.simps [simp del]

lemma height_simps [simp]:
  "height VNull = 0" "height (VBool b) = 0" "height (VInt i) = 0" "height (VFloat f) = 0"
  "height (VString s) = 0" "height (VBinary s) = 0" "height (VTime t) = 0" "height (VID x) = 0"
  "height (VArray vs) = Suc (foldr max (map height vs) 0)"
  "height (VObject d) = Suc (foldr max (map (\<lambda>(k, v). height v) d) 0)"
  by (subst height.simps, simp)+

lemma foldr_max_le: "foldr max xs 0 \<le> (n::nat) \<longleftrightarrow> (\<forall>x \<in> set xs. x \<le> n)"
  by (induction xs) auto

definition node_valid :: "Value \<Rightarrow> bool" where
  "node_valid v \<longleftrightarrow> leafOK v \<and> (\<forall>k \<in> fst ` set (val_obj v). validField k)"

declare validateNested.simps [simp del]

lemma unit_result: "r \<noteq> Inr () \<Longrightarrow> \<exists>e. r = Inl e"
  by (cases r) auto

lemma validateItems_iff:
  "validateItems n vs = Inr () \<longleftrightarrow> (\<forall>v \<in> set vs. leafOK v \<and> validateNested n v = Inr ())"
  by (induction vs) auto

lemma validateFields_iff:
  "validateFields n d = Inr () \<longleftrightarrow>
     (\<forall>(k, v) \<in> set d. validField k \<and> leafOK v \<and> validateNested n v = Inr ())"
proof (induction d)
  case (Cons p d)
  then show ?case by (cases p) simp
qed simp

lemma node_valid_simps [simp]:
  "node_valid VNull" "node_valid (VBool b)" "node_valid (VInt i)" "node_valid (VBinary s)"
  "node_valid (VTime t)" "node_valid (VID x)" "node_valid (VArray vs)"
  "node_valid (VFloat f) = (\<not> math_IsNaN f \<and> \<not> math_IsInf f)"
  "node_valid (VString s) = utf8_Valid s"
  "node_valid (VObject d) = (\<forall>k \<in> fst ` set d. validField k)"
  by (simp_all add: node_valid_def)

lemma height_room:
  "n + Suc (foldr max hs 0) \<le> 64 \<longleftrightarrow> n + 1 \<le> 64 \<and> (\<forall>h \<in> set hs. h = 0 \<or> n + 1 + h \<le> 64)"
proof -
  have "n + Suc (foldr max hs 0) \<le> 64 \<longleftrightarrow> n + 1 \<le> 64 \<and> foldr max hs 0 \<le> 63 - n" by auto
  then show ?thesis unfolding foldr_max_le by fastforce
qed

lemma validateNested_iff:
  "leafOK v \<and> validateNested n v = Inr () \<longleftrightarrow>
     value_all node_valid v \<and> (height v = 0 \<or> n + height v \<le> 64)"
proof (induction v arbitrary: n)
  case (VArray vs)
  have "leafOK (VArray vs) \<and> validateNested n (VArray vs) = Inr () \<longleftrightarrow>
      n + 1 \<le> 64 \<and> validateItems (n + 1) vs = Inr ()"
    by (simp add: validateNested.simps)
  also have "validateItems (n + 1) vs = Inr () \<longleftrightarrow>
      (\<forall>v \<in> set vs. value_all node_valid v \<and> (height v = 0 \<or> n + 1 + height v \<le> 64))"
    unfolding validateItems_iff using VArray.IH by simp
  finally show ?case
    using height_room [of n "map height vs"] by fastforce
next
  case (VObject d)
  have "leafOK (VObject d) \<and> validateNested n (VObject d) = Inr () \<longleftrightarrow>
      n + 1 \<le> 64 \<and> validateFields (n + 1) d = Inr ()"
    by (simp add: validateNested.simps)
  also have "validateFields (n + 1) d = Inr () \<longleftrightarrow>
      (\<forall>p \<in> set d. validField (fst p) \<and> value_all node_valid (snd p) \<and>
         (height (snd p) = 0 \<or> n + 1 + height (snd p) \<le> 64))"
    unfolding validateFields_iff using VObject.IH by (simp add: case_prod_unfold snds.simps)
  finally show ?case
    using height_room [of n "map (\<lambda>(k, v). height v) d"] by (fastforce simp: case_prod_unfold)
qed (simp_all add: validateNested.simps)

lemma Validate_iff:
  "Validate d = Inr () \<longleftrightarrow> value_all node_valid (VObject d) \<and> height (VObject d) \<le> 65"
proof -
  have "Validate d = Inr () \<longleftrightarrow>
      (\<forall>(k, v) \<in> set d. validField k \<and> value_all node_valid v \<and> (height v = 0 \<or> height v \<le> 64))"
    using validateNested_iff [of _ 0]
    by (fastforce simp: Validate_def validateDocument_def validateFields_iff)
  also have "\<dots> \<longleftrightarrow> value_all node_valid (VObject d) \<and> height (VObject d) \<le> 65"
    by (fastforce simp: foldr_max_le)
  finally show ?thesis .
qed

lemma value_all_mono: "value_all P v \<Longrightarrow> (\<And>w. P w \<Longrightarrow> Q w) \<Longrightarrow> value_all Q v"
  by (induction v) force+

lemma node_valid_number: "node_valid v \<Longrightarrow> node_number v"
  by (cases v) simp_all

lemma Validate_nan_free: "Validate d = Inr () \<Longrightarrow> nan_free (VObject d)"
  unfolding Validate_iff by (meson node_valid_number value_all_mono)

section \<open>Identifiers round trip\<close>

lemma hex_value_digit [simp]: "n < 16 \<Longrightarrow> hex_value (hex_digit n) = Some n"
  by (auto simp: hex_value_def hex_digit_def unat_of_nat simp del: of_nat_add)

lemma hex_roundtrip: "hex_DecodeString (hex_EncodeToString bs) = Some bs"
proof (induction bs rule: hex_EncodeToString.induct)
  case (2 b bs)
  have "unat b < 256" using unat_bound [of b] by simp
  then have "unat b div 16 < 16" by simp
  then show ?case
    using 2 by (simp del: of_nat_add of_nat_mult)
qed simp

lemma excess_bits_scale: "2 ^ 52 \<le> a \<Longrightarrow> excess_bits (a * 2 ^ k) = k + excess_bits a"
proof (induction k)
  case (Suc k)
  have "(2::nat) ^ 53 \<le> a * 2 ^ Suc k"
    using mult_le_mono [of "2^52" a 2 "2 ^ Suc k"] Suc.prems by simp
  moreover have "a * 2 ^ Suc k div 2 = a * 2 ^ k" by simp
  ultimately show ?case using Suc by (simp add: excess_bits_big)
qed simp

section \<open>Properties\<close>

text \<open>
  C19 Comparison of an integer with a float. For every float that is not a
  NaN, \<open>compareIntFloat\<close> returns the sign of the difference of the exact values, with one exception:
  where the conversion \<open>float64(i)\<close> rounds the integer up onto a float below \<open>2^63\<close> it answers that
  the integer is greater although it is smaller.
\<close>

theorem compareIntFloat_exactness:
  assumes "\<not> math_IsNaN f"
  shows "compareIntFloat i f =
    Some (if int_val i < fval f \<and> fval (float64_of_int64 i) = fval f \<and> fval f < 2 ^ 63 * int funit
          then 1 else sgn (int_val i - fval f))"
  using compareIntFloat_exact [OF assms, of i] by (simp add: float64_of_int64_facts)

lemma double_funit: "(2::nat) ^ 1075 = 2 * funit"
proof -
  have "(1075::nat) = Suc 1074" by simp
  then show ?thesis unfolding funit_def by (simp only: power_Suc)
qed

lemma fval_pow53_4: "fval 0x4340000000000002 = (2 ^ 53 + 4) * int funit"
proof -
  have "float_abs_bits 0x4340000000000002 = 1075 * 2 ^ 52 + (2 ^ 52 + 2)" "\<not> float_neg 0x4340000000000002"
    by (simp_all add: float_abs_bits_def float_neg_def)
  then have "fval 0x4340000000000002 = int ((2 ^ 52 + 2) * 2 ^ 1075)"
    using bits_mag_compose [of "2 ^ 52 + 2" 1075] by (simp only: fval_def fmag_def if_False) simp
  also have "\<dots> = (2 ^ 53 + 4) * int funit" unfolding double_funit by simp
  finally show ?thesis .
qed

lemma rnd_pow53_3: "rnd ((2 ^ 53 + 3) * int funit) = (2 ^ 53 + 4) * int funit"
proof -
  have "excess_bits (2 ^ 53 + 3) = 1"
    by (subst excess_bits_big) (simp_all add: excess_bits_small)
  then have ex: "excess_bits ((2 ^ 53 + 3) * funit) = 1075"
    unfolding funit_def by (subst excess_bits_scale) simp_all
  have "(2 ^ 53 + 3) * funit = (2 ^ 52 + 1) * (2 * funit) + funit" by simp
  then have "(2 ^ 53 + 3) * funit div (2 * funit) = 2 ^ 52 + 1" "(2 ^ 53 + 3) * funit mod (2 * funit) = funit"
    using div_mod_compose [of funit "2 * funit" "2 ^ 52 + 1"] by simp_all
  then have "round_half_even 1075 ((2 ^ 53 + 3) * funit) = 2 ^ 52 + 2"
    unfolding round_half_even_def double_funit by (simp only: Let_def) simp
  then have "round_mag ((2 ^ 53 + 3) * funit) = 1075 * 2 ^ 52 + (2 ^ 52 + 2)"
    unfolding round_mag_def ex by (simp add: inf_bits_def)
  then have "bits_mag (round_mag ((2 ^ 53 + 3) * funit)) = (2 ^ 52 + 2) * 2 ^ 1075"
    using bits_mag_compose [of "2 ^ 52 + 2" 1075] by (simp only:) simp
  moreover have "nat \<bar>(2 ^ 53 + 3) * int funit\<bar> = (2 ^ 53 + 3) * funit"
    by (simp add: nat_mult_distrib)
  ultimately show ?thesis
    unfolding rnd_def double_funit by (simp only:) simp
qed

theorem compareIntFloat_exactness_witness:
  "compareIntFloat 0x20000000000003 0x4340000000000002 = Some 1 \<and>
   int_val 0x20000000000003 < fval 0x4340000000000002"
proof -
  have nan: "\<not> math_IsNaN 0x4340000000000002"
    by (simp add: math_IsNaN_def float_abs_bits_def inf_bits_def)
  have i: "int_val 0x20000000000003 = (2 ^ 53 + 3) * int funit" by simp
  have lt: "int_val 0x20000000000003 < fval 0x4340000000000002"
    unfolding fval_pow53_4 i by (rule mult_strict_right_mono) simp_all
  have "fval (float64_of_int64 0x20000000000003) = fval 0x4340000000000002"
    unfolding float64_of_int64_facts i rnd_pow53_3 fval_pow53_4 ..
  moreover have "fval 0x4340000000000002 < 2 ^ 63 * int funit"
    unfolding fval_pow53_4 by (rule mult_strict_right_mono) simp_all
  ultimately show ?thesis
    using compareIntFloat_exactness [OF nan, of "0x20000000000003"] lt by simp
qed

text \<open>
  C18 \<open>Value.Equal\<close> decides equality of meaning: on well-formed values without
  NaN it holds exactly when both denote the same scalar, the same number (integers and floats compared
  by exact value), or arrays and objects of the same meanings. So it is an equivalence relation.
\<close>

theorem Equal_decides_meaning:
  assumes "value_wf v" "value_wf w" "nan_free v" "nan_free w"
  shows "value_Equal v w \<longleftrightarrow> sem v = sem w"
  using assms by (rule value_Equal_sem)

theorem Equal_decides_meaning_witness:
  "value_Equal (VObject [([97], VArray [VInt 0, VString [98]])])
     (VObject [([97], VArray [VFloat 0x8000000000000000, VString [98]])])"
  by (subst Equal_decides_meaning)
    (simp_all add: math_IsNaN_def float_abs_bits_def inf_bits_def fval_def fmag_def)




end
