(* ===== verification/Index_Key.thy ===== *)
theory Index_Key
  imports Value_Model
begin

text \<open>
  The order-preserving scalar key of \<open>internal/database/index_key.go\<close>. A key starts with a tag for the
  kind; integers and floats share a 263-byte magnitude that holds every finite value exactly, strings
  and binary data escape zero bytes and end in two zeros. The theorems say that byte order of keys is
  the order of the values, that equal keys mean equal values and that no key is a proper prefix of
  another.
\<close>

unbundle bit_operations_syntax

section \<open>Model\<close>

definition numericMagnitudeBytes :: nat where
  "numericMagnitudeBytes = 263"

fun escape_bytes :: "bytes \<Rightarrow> bytes" where
  "escape_bytes [] = []"
| "escape_bytes (item # rest) =
     (if item = 0 then 0 # 0xFF # escape_bytes rest else item # escape_bytes rest)"

definition appendEscapedIndexBytes :: "bytes \<Rightarrow> bytes \<Rightarrow> bytes" where
  "appendEscapedIndexBytes result v = (result @ escape_bytes v) @ [0, 0]"

definition escapeIndexBytes :: "bytes \<Rightarrow> bytes" where
  "escapeIndexBytes v = appendEscapedIndexBytes [] v"

definition escapedIndexBytesLength :: "bytes \<Rightarrow> nat" where
  "escapedIndexBytesLength v = fold (\<lambda>item n. if item = 0 then n + 1 else n) v (length v + 2)"

definition overwrite :: "bytes \<Rightarrow> nat \<Rightarrow> bytes \<Rightarrow> bytes" where
  "overwrite bs i xs = take i bs @ xs @ drop (i + length xs) bs"

text \<open>The result holds the returned flag and the destination after the call.\<close>

definition writeShiftedIndexMagnitude :: "bytes \<Rightarrow> uint64 \<Rightarrow> nat \<Rightarrow> bool \<times> bytes" where
  "writeShiftedIndexMagnitude destination magnitude shift =
     (if destination = [] \<or> magnitude = 0 then (magnitude = 0, destination)
      else
        let byteShift = shift div 8; bitShift = shift mod 8;
            end = int (length destination) - int byteShift
        in if end < 8 then (False, destination)
           else
             let d1 = overwrite destination (nat end - 8) (be_put64 (push_bit bitShift magnitude))
             in if bitShift \<noteq> 0 then
                  let high = drop_bit (64 - bitShift) magnitude
                  in if high \<noteq> 0 then
                       if end < 9 then (False, d1)
                       else (True, d1[nat end - 9 := ucast high])
                     else (True, d1)
                else (True, d1))"

definition numeric_parts :: "Value \<Rightarrow> db_error + bool \<times> uint64 \<times> nat" where
  "numeric_parts v =
     (case v of
        VInt number \<Rightarrow>
          (let negative = number <s 0
           in Inr (negative, if negative then - (number + 1) + 1 else number, 1074))
      | _ \<Rightarrow>
          (if math_IsNaN (val_f v) \<or> math_IsInf (val_f v) then Inl ErrInvalidDocument
           else
             let bits = val_f v;
                 negative = (drop_bit 63 bits = 1);
                 exponent = unat (drop_bit 52 bits AND 0x7FF);
                 fraction = bits AND (push_bit 52 1 - 1)
             in if exponent = 0 then Inr (negative, fraction, 0)
                else Inr (negative, push_bit 52 1 OR fraction, exponent - 1)))"

definition appendNumericIndexKey :: "bytes \<Rightarrow> Value \<Rightarrow> db_error + bytes" where
  "appendNumericIndexKey destination v =
     (let zeros = replicate numericMagnitudeBytes 0
      in rbind (numeric_parts v) (\<lambda>(negative, magnitude, shift).
           if magnitude = 0 then Inr (destination @ 0x30 # 0x01 # zeros)
           else case writeShiftedIndexMagnitude zeros magnitude shift of
               (False, _) \<Rightarrow> Inl ErrKey
             | (True, digits) \<Rightarrow>
                 if negative then Inr (destination @ 0x30 # 0x00 # map (\<lambda>b. NOT b) digits)
                 else Inr (destination @ 0x30 # 0x02 # digits)))"

definition encodeNumericIndexKey :: "Value \<Rightarrow> db_error + bytes" where
  "encodeNumericIndexKey v = appendNumericIndexKey [] v"

fun appendIndexKey :: "bytes \<Rightarrow> Value \<Rightarrow> db_error + bytes" where
  "appendIndexKey destination VNull = Inr (destination @ [0x10])"
| "appendIndexKey destination (VBool b) = Inr (destination @ [if b then 0x21 else 0x20])"
| "appendIndexKey destination (VInt i) = appendNumericIndexKey destination (VInt i)"
| "appendIndexKey destination (VFloat f) = appendNumericIndexKey destination (VFloat f)"
| "appendIndexKey destination (VString s) = Inr (appendEscapedIndexBytes (destination @ [0x40]) s)"
| "appendIndexKey destination (VTime t) =
     Inr (destination @ 0x50 # be_put64 (t XOR push_bit 63 1))"
| "appendIndexKey destination (VID x) = Inr ((destination @ [0x60]) @ x)"
| "appendIndexKey destination (VBinary s) = Inr (appendEscapedIndexBytes (destination @ [0x70]) s)"
| "appendIndexKey destination (VArray _) = Inl ErrKey"
| "appendIndexKey destination (VObject _) = Inl ErrKey"

definition encodeIndexKey :: "Value \<Rightarrow> db_error + bytes" where
  "encodeIndexKey v = appendIndexKey [] v"

fun indexKeyCapacity :: "Value \<Rightarrow> nat" where
  "indexKeyCapacity VNull = 1"
| "indexKeyCapacity (VBool _) = 1"
| "indexKeyCapacity (VInt _) = 2 + numericMagnitudeBytes"
| "indexKeyCapacity (VFloat _) = 2 + numericMagnitudeBytes"
| "indexKeyCapacity (VString s) = 1 + escapedIndexBytesLength s"
| "indexKeyCapacity (VTime _) = 9"
| "indexKeyCapacity (VID _) = 17"
| "indexKeyCapacity (VBinary s) = 1 + escapedIndexBytesLength s"
| "indexKeyCapacity (VArray _) = 0"
| "indexKeyCapacity (VObject _) = 0"

section \<open>The order of scalars\<close>

fun scalar_rank :: "meaning \<Rightarrow> nat" where
  "scalar_rank SNull = 1"
| "scalar_rank (SBool _) = 2"
| "scalar_rank (SNumber _) = 3"
| "scalar_rank (SString _) = 4"
| "scalar_rank (STime _) = 5"
| "scalar_rank (SID _) = 6"
| "scalar_rank (SBinary _) = 7"
| "scalar_rank (SArray _) = 8"
| "scalar_rank (SObject _) = 9"

fun scalar_less :: "meaning \<Rightarrow> meaning \<Rightarrow> bool" where
  "scalar_less (SBool a) (SBool b) = (a < b)"
| "scalar_less (SNumber a) (SNumber b) = (a < b)"
| "scalar_less (SString a) (SString b) = (a < b)"
| "scalar_less (STime a) (STime b) = (a <s b)"
| "scalar_less (SID a) (SID b) = (a < b)"
| "scalar_less (SBinary a) (SBinary b) = (a < b)"
| "scalar_less a b = (scalar_rank a < scalar_rank b)"

section \<open>Escaped byte strings\<close>

lemma escape_framed [lex]:
  "escape_bytes x @ 0 # 0 # s < escape_bytes y @ 0 # 0 # t \<longleftrightarrow> x < y \<or> x = y \<and> s < t"
proof (induction x arbitrary: y)
  case Nil
  then show ?case
  proof (cases y)
    case (Cons b bs)
    have "b \<noteq> 0 \<Longrightarrow> 0 < b" by (simp add: word_neq_0_conv)
    then show ?thesis using Cons by auto
  qed simp
next
  case (Cons a x)
  have pos: "b \<noteq> 0 \<Longrightarrow> 0 < b" for b :: byte by (simp add: word_neq_0_conv)
  then show ?case
  proof (cases y)
    case Nil
    then show ?thesis using pos [of a] by auto
  next
    case (Cons b bs)
    then show ?thesis using Cons.IH [of bs] pos [of a] pos [of b] by auto
  qed
qed

lemma escape_inj: "escape_bytes x @ [0, 0] = escape_bytes y @ [0, 0] \<longleftrightarrow> x = y"
  using escape_framed [of x "[]" y "[]"] escape_framed [of y "[]" x "[]"]
  by (metis less_irrefl linorder_less_linear)

lemma escapedIndexBytesLength_eq: "escapedIndexBytesLength v = length (escapeIndexBytes v)"
proof -
  have "fold (\<lambda>item n. if item = 0 then n + 1 else n) v m + length v = length (escape_bytes v) + m" for m
    by (induction v arbitrary: m) auto
  from this [of "length v + 2"] show ?thesis
    by (simp add: escapedIndexBytesLength_def escapeIndexBytes_def appendEscapedIndexBytes_def)
qed

section \<open>Magnitudes\<close>

lemma le_bytes_add: "le_bytes (a + b) v = le_bytes a v @ le_bytes b (v div 256 ^ a)"
  by (induction a arbitrary: v) (simp_all add: div_mult2_eq)

lemma be_bytes_add: "be_bytes (a + b) v = be_bytes a (v div 256 ^ b) @ be_bytes b v"
  using le_bytes_add [of b a v] by (simp add: be_bytes_def add.commute)

lemma le_bytes_0: "le_bytes n 0 = replicate n 0"
  by (induction n) simp_all

lemma be_bytes_0: "be_bytes n 0 = replicate n 0"
  by (simp add: be_bytes_def le_bytes_0)

lemma be_bytes_mod: "be_bytes n (v mod 256 ^ n) = be_bytes n v"
  by (simp add: be_bytes_def)

lemma be_bytes_dvd: "256 ^ n dvd v \<Longrightarrow> be_bytes n v = replicate n 0"
  using be_bytes_mod [of n v] by (simp add: be_bytes_0)

lemma be_bytes_small:
  assumes "v < 256" "0 < n"
  shows "be_bytes n v = replicate (n - 1) 0 @ [of_nat v]"
proof -
  obtain k where "n = Suc k" using assms(2) by (cases n) auto
  then show ?thesis using assms(1) by (simp add: be_bytes_Suc be_bytes_0)
qed

lemma be_put64_push_bit:
  "be_put64 (push_bit k m) = be_bytes 8 (unat m * 2 ^ k)"
proof -
  have "unat (push_bit k m) = unat m * 2 ^ k mod 2 ^ 64"
    unfolding unsigned_push_bit_eq by (simp add: push_bit_eq_mult take_bit_eq_mod)
  then show ?thesis using be_bytes_mod [of 8 "unat m * 2 ^ k"] by (simp add: be_put64_def)
qed

lemma unat_drop_bit: "unat (drop_bit k (m :: 'a::len word)) = unat m div 2 ^ k"
  unfolding unsigned_drop_bit_eq by (simp add: drop_bit_eq_div take_bit_nat_eq_self unat_bound)

lemma shift_high:
  assumes "k < 8"
  shows "unat m * 2 ^ k div 2 ^ 64 = unat (drop_bit (64 - k) (m :: uint64))"
proof -
  have "k + (64 - k) = 64" using assms by simp
  then have "(2::nat) ^ 64 = 2 ^ k * 2 ^ (64 - k)" by (metis power_add)
  then have "unat m * 2 ^ k div 2 ^ 64 = 2 ^ k * unat m div (2 ^ k * 2 ^ (64 - k))"
    by (simp only: mult.commute)
  also have "\<dots> = unat m div 2 ^ (64 - k)" by (rule div_mult_mult1) simp
  finally show ?thesis by (simp add: unat_drop_bit)
qed

text \<open>The digits written into a zeroed buffer are the big-endian digits of the shifted magnitude.\<close>

lemma writeShiftedIndexMagnitude_digits:
  assumes m: "magnitude \<noteq> 0" and room: "shift div 8 + 8 \<le> n"
    and fit: "unat magnitude * 2 ^ (shift mod 8) < 2 ^ 64 \<or> shift div 8 + 9 \<le> n"
  shows "writeShiftedIndexMagnitude (replicate n 0) magnitude shift =
    (True, be_bytes n (unat magnitude * 2 ^ shift))"
proof -
  define b where "b = shift mod 8"
  define e where "e = n - shift div 8"
  define w where "w = unat magnitude * 2 ^ b"
  define h where "h = w div 2 ^ 64"
  have b: "b < 8" by (simp add: b_def)
  have n: "n = e + shift div 8" "8 \<le> e" using room by (simp_all add: e_def)
  have high: "h = unat (drop_bit (64 - b) magnitude)" unfolding h_def w_def by (rule shift_high [OF b])
  have "unat magnitude < 2 ^ 64" using unat_bound [of magnitude] by simp
  moreover have "(2::nat) ^ b < 2 ^ 8" using b by (intro power_strict_increasing) simp_all
  ultimately have "w < 2 ^ 64 * 2 ^ 8" unfolding w_def by (intro mult_strict_mono) simp_all
  then have h256: "h < 256" unfolding h_def by (intro less_mult_imp_div_less) simp
  have val: "unat magnitude * 2 ^ shift = w * 256 ^ (shift div 8)"
  proof -
    have "(2::nat) ^ shift = 2 ^ b * 2 ^ (8 * (shift div 8))"
      unfolding b_def by (simp only: power_add [symmetric]) simp
    then show ?thesis by (simp add: w_def power_mult)
  qed
  have digits: "be_bytes n (unat magnitude * 2 ^ shift) =
      be_bytes (e - 8) h @ be_bytes 8 w @ replicate (shift div 8) 0"
  proof -
    have "be_bytes n (unat magnitude * 2 ^ shift) = be_bytes e w @ replicate (shift div 8) 0"
      unfolding val n(1) be_bytes_add by (simp add: be_bytes_dvd)
    moreover have "be_bytes e w = be_bytes (e - 8) h @ be_bytes 8 w"
      using be_bytes_add [of "e - 8" 8 w] n(2) by (simp add: h_def)
    ultimately show ?thesis by simp
  qed
  have d1: "overwrite (replicate n 0) (e - 8) (be_put64 (push_bit b magnitude)) =
      replicate (e - 8) 0 @ be_bytes 8 w @ replicate (shift div 8) 0"
    using n by (simp add: overwrite_def be_put64_push_bit w_def)
  have e_int: "nat (int n - int (shift div 8)) = e" "int n - int (shift div 8) < 8 \<longleftrightarrow> e < 8"
    "int n - int (shift div 8) < 9 \<longleftrightarrow> e < 9"
    using n by simp_all
  have code: "writeShiftedIndexMagnitude (replicate n 0) magnitude shift =
      (if h \<noteq> 0 then
         if e < 9 then (False, replicate (e - 8) 0 @ be_bytes 8 w @ replicate (shift div 8) 0)
         else (True, (replicate (e - 8) 0 @ be_bytes 8 w @ replicate (shift div 8) 0)[e - 9 := of_nat h])
       else (True, replicate (e - 8) 0 @ be_bytes 8 w @ replicate (shift div 8) 0))"
  proof -
    have "b = 0 \<Longrightarrow> h = 0" using unat_bound [of magnitude] by (simp add: h_def w_def)
    moreover have "drop_bit (64 - b) magnitude = 0 \<longleftrightarrow> h = 0" unfolding high by (simp add: unat_eq_0)
    moreover have "ucast (drop_bit (64 - b) magnitude) = (of_nat h :: byte)"
      unfolding high by simp
    moreover have "n \<noteq> 0" using n by simp
    ultimately show ?thesis
      using m n(2)
      unfolding writeShiftedIndexMagnitude_def length_replicate Let_def b_def [symmetric] e_int d1
      by auto
  qed
  show ?thesis
  proof (cases "h = 0")
    case True
    then show ?thesis unfolding code digits by (simp add: be_bytes_0)
  next
    case False
    then have "\<not> w < 2 ^ 64" by (auto simp: h_def)
    then have e9: "9 \<le> e" using fit n by (simp add: w_def b_def)
    then have "replicate (e - 8) 0 = replicate (e - 9) (0::byte) @ [0]"
      by (metis Suc_diff_le diff_Suc_Suc eval_nat_numeral(3) replicate_Suc replicate_append_same)
    moreover have "be_bytes (e - 8) h = replicate (e - 9) 0 @ [of_nat h]"
      using be_bytes_small [OF h256, of "e - 8"] e9 by simp
    ultimately show ?thesis unfolding code digits using False e9 by (simp add: list_update_append)
  qed
qed

section \<open>Numbers\<close>

lemma unat_nonneg: "0 \<le> sint (i :: int64) \<Longrightarrow> int (unat i) = sint i"
proof -
  assume "0 \<le> sint i"
  then have "uint i = sint i"
    using sint_less [of i] uint_word_of_int [of "sint i", where ?'a = 64] by simp
  then show ?thesis by (simp only: uint_nat)
qed

lemma unat_negated: "sint (i :: int64) < 0 \<Longrightarrow> int (unat (- i)) = - sint i"
proof -
  assume neg: "sint i < 0"
  have "- i = of_int (- sint i)" by simp
  then have "uint (- i) = - sint i mod 2 ^ 64"
    using uint_word_of_int [of "- sint i", where ?'a = 64] by simp
  then have "uint (- i) = - sint i"
    using neg sint_greater_eq [of i] by simp
  then show ?thesis by (simp only: uint_nat)
qed

lemma numeric_parts_int:
  "\<exists>m. numeric_parts (VInt i) = Inr (sint i < 0, m, 1074) \<and> int (unat m) = \<bar>sint i\<bar>"
proof (cases "sint i < 0")
  case True
  then show ?thesis
    using unat_negated [OF True] by (simp add: numeric_parts_def word_sless_alt)
next
  case False
  then show ?thesis
    using unat_nonneg [of i] by (simp add: numeric_parts_def word_sless_alt)
qed

lemma float_fields:
  fixes f :: float64
  shows "drop_bit 63 f = 1 \<longleftrightarrow> float_neg f"
    and "unat (drop_bit 52 f AND 0x7FF) = float_abs_bits f div 2 ^ 52"
    and "unat (f AND (push_bit 52 1 - 1)) = float_abs_bits f mod 2 ^ 52"
proof -
  have b: "unat f < 2 ^ 64" using unat_bound [of f] by simp
  have "drop_bit 63 f = 1 \<longleftrightarrow> unat (drop_bit 63 f) = unat (1 :: float64)"
    by (rule word_unat_eq_iff)
  also have "\<dots> \<longleftrightarrow> unat f div 2 ^ 63 = 1" unfolding unat_drop_bit by simp
  also have "\<dots> \<longleftrightarrow> float_neg f"
  proof -
    have "unat f div 2 ^ 63 < 2" using b by (intro less_mult_imp_div_less) simp
    moreover have "1 \<le> unat f div 2 ^ 63 \<longleftrightarrow> 2 ^ 63 \<le> unat f" by (simp add: less_eq_div_iff_mult_less_eq)
    ultimately show ?thesis unfolding float_neg_def by linarith
  qed
  finally show "drop_bit 63 f = 1 \<longleftrightarrow> float_neg f" .
  have split: "unat f mod 2 ^ 63 = 2 ^ 52 * (unat f div 2 ^ 52 mod 2 ^ 11) + unat f mod 2 ^ 52"
    using mod_mult2_eq [of "unat f" "2 ^ 52" "2 ^ 11"] by simp
  have "(0x7FF :: float64) = mask 11" by (simp add: mask_eq_exp_minus_1)
  then have "unat (drop_bit 52 f AND 0x7FF) = unat (drop_bit 52 f) mod 2 ^ 11"
    by (simp only: take_bit_eq_mask [symmetric] unsigned_take_bit_eq) (simp add: take_bit_eq_mod)
  then show "unat (drop_bit 52 f AND 0x7FF) = float_abs_bits f div 2 ^ 52"
    unfolding unat_drop_bit float_abs_bits_def split by simp
  have "(push_bit 52 1 - 1 :: float64) = mask 52" by (simp add: mask_eq_exp_minus_1)
  then have "unat (f AND (push_bit 52 1 - 1)) = unat f mod 2 ^ 52"
    by (simp only: take_bit_eq_mask [symmetric] unsigned_take_bit_eq) (simp add: take_bit_eq_mod)
  then show "unat (f AND (push_bit 52 1 - 1)) = float_abs_bits f mod 2 ^ 52"
    unfolding float_abs_bits_def split by simp
qed

lemma or_implicit_bit:
  fixes x :: uint64
  assumes "unat x < 2 ^ 52"
  shows "unat (push_bit 52 1 OR x) = 2 ^ 52 + unat x"
proof -
  have "push_bit 52 1 AND x = 0"
  proof (rule bit_word_eqI)
    fix n
    have "x = take_bit 52 x"
      using assms by (simp add: word_unat_eq_iff unsigned_take_bit_eq take_bit_nat_eq_self)
    then have "\<not> bit x 52" by (metis bit_take_bit_iff less_irrefl)
    moreover have "bit (push_bit 52 (1 :: uint64)) n \<Longrightarrow> n = 52"
      unfolding bit_push_bit_iff bit_1_iff by auto
    ultimately show "bit (push_bit 52 1 AND x) n = bit (0 :: uint64) n"
      unfolding bit_and_iff by auto
  qed
  then have "push_bit 52 1 OR x = push_bit 52 1 + x" by (rule disjunctive_add_eq_or [symmetric])
  moreover have "unat (push_bit 52 1 + x) = 2 ^ 52 + unat x"
    using assms by (simp add: unat_word_ariths)
  ultimately show ?thesis by simp
qed

lemma numeric_parts_float:
  assumes "float_finite f"
  shows "\<exists>m s. numeric_parts (VFloat f) = Inr (float_neg f, m, s) \<and> unat m * 2 ^ s = fmag f \<and>
    unat m < 2 ^ 53 \<and> s \<le> 2045"
proof -
  define e where "e = float_abs_bits f div 2 ^ 52"
  define r where "r = float_abs_bits f mod 2 ^ 52"
  define x where "x = f AND (push_bit 52 1 - 1)"
  have x: "unat x = r" unfolding x_def r_def by (rule float_fields(3))
  have r: "r < 2 ^ 52" by (simp add: r_def)
  have "float_abs_bits f < 2047 * 2 ^ 52"
    using assms by (auto simp: math_IsNaN_def math_IsInf_def inf_bits_def)
  then have e: "e < 2047" unfolding e_def by (intro less_mult_imp_div_less) simp
  have abs: "float_abs_bits f = e * 2 ^ 52 + r" by (simp add: e_def r_def)
  have parts: "numeric_parts (VFloat f) =
      (if e = 0 then Inr (float_neg f, x, 0) else Inr (float_neg f, push_bit 52 1 OR x, e - 1))"
    using assms unfolding numeric_parts_def Value.case val_f.simps Let_def float_fields(1,2)
      x_def [symmetric] e_def [symmetric]
    by simp
  show ?thesis
  proof (cases "e = 0")
    case True
    then show ?thesis using parts x r abs by (simp add: fmag_def bits_mag_def)
  next
    case False
    then have "e = e - 1 + 1" by simp
    then have "e * 2 ^ 52 = (e - 1) * 2 ^ 52 + 2 ^ 52"
      by (metis add_mult_distrib nat_mult_1)
    then have "float_abs_bits f = (e - 1) * 2 ^ 52 + (2 ^ 52 + r)" using abs by simp
    then have "fmag f = (2 ^ 52 + r) * 2 ^ (e - 1)"
      unfolding fmag_def using bits_mag_compose [of "2 ^ 52 + r" "e - 1"] r by simp
    moreover have "unat (push_bit 52 1 OR x) = 2 ^ 52 + r" using or_implicit_bit [of x] x r by simp
    ultimately show ?thesis using parts False r e by simp
  qed
qed

text \<open>The key of an exact value, and the two facts that tie the code to it.\<close>

definition number_key :: "int \<Rightarrow> bytes" where
  "number_key x =
     0x30 # (if x = 0 then 0x01 # replicate 263 0
             else if x < 0 then 0x00 # map (\<lambda>b. NOT b) (be_bytes 263 (nat (- x)))
             else 0x02 # be_bytes 263 (nat x))"

lemma appendNumericIndexKey_parts:
  assumes parts: "numeric_parts v = Inr (neg, m, s)" and room: "s div 8 + 8 \<le> 263"
    and fit: "unat m * 2 ^ (s mod 8) < 2 ^ 64 \<or> s div 8 + 9 \<le> 263"
    and x: "x = (if neg then - int (unat m * 2 ^ s) else int (unat m * 2 ^ s))"
  shows "appendNumericIndexKey d v = Inr (d @ number_key x)"
proof (cases "m = 0")
  case True
  then show ?thesis
    using parts x by (simp add: appendNumericIndexKey_def number_key_def numericMagnitudeBytes_def)
next
  case False
  have "0 < unat m * 2 ^ s" using False by (simp add: unat_gt_0)
  moreover have "nat (int (unat m * 2 ^ s)) = unat m * 2 ^ s" by (rule nat_int)
  moreover note writeShiftedIndexMagnitude_digits [OF False room fit]
  ultimately show ?thesis
    using parts x False
    by (cases neg)
      (simp_all add: appendNumericIndexKey_def number_key_def numericMagnitudeBytes_def
        del: of_nat_mult of_nat_power)
qed

lemma appendNumericIndexKey_int:
  "appendNumericIndexKey d (VInt i) = Inr (d @ number_key (int_val i))"
proof -
  obtain m where m: "numeric_parts (VInt i) = Inr (sint i < 0, m, 1074)" "int (unat m) = \<bar>sint i\<bar>"
    using numeric_parts_int by blast
  have "int_val i = (if sint i < 0 then - int (unat m * 2 ^ 1074) else int (unat m * 2 ^ 1074))"
    unfolding funit_def [symmetric] of_nat_mult m(2) by simp
  then show ?thesis by (intro appendNumericIndexKey_parts [OF m(1)]) simp_all
qed

lemma appendNumericIndexKey_float:
  assumes "float_finite f"
  shows "appendNumericIndexKey d (VFloat f) = Inr (d @ number_key (fval f))"
proof -
  obtain m s where m: "numeric_parts (VFloat f) = Inr (float_neg f, m, s)"
    "unat m * 2 ^ s = fmag f" "unat m < 2 ^ 53" "s \<le> 2045"
    using numeric_parts_float [OF assms] by blast
  have "(2::nat) ^ (s mod 8) \<le> 2 ^ 7" by (intro power_increasing) simp_all
  then have "unat m * 2 ^ (s mod 8) < 2 ^ 53 * 2 ^ 7"
    using m(3) by (intro mult_less_le_imp_less) simp_all
  then have "unat m * 2 ^ (s mod 8) < 2 ^ 64" by simp
  then show ?thesis
    using m(2,4) by (intro appendNumericIndexKey_parts [OF m(1)]) (simp_all add: fval_def)
qed

definition magnitude_limit :: int where
  "magnitude_limit = 256 ^ 263"

lemma number_range:
  "\<bar>int_val i\<bar> < magnitude_limit" "float_finite f \<Longrightarrow> \<bar>fval f\<bar> < magnitude_limit"
proof -
  have "\<bar>sint i\<bar> \<le> 2 ^ 63" using sint_less [of i] sint_greater_eq [of i] by simp
  then have "\<bar>int_val i\<bar> \<le> 2 ^ 63 * int funit" by (simp only: abs_mult abs_of_nat mult_right_mono of_nat_0_le_iff)
  also have "\<dots> = 2 ^ (63 + 1074)" unfolding funit_def power_add by simp
  also have "\<dots> < (2::int) ^ (8 * 263)" by (rule power_strict_increasing) simp_all
  also have "\<dots> = magnitude_limit" unfolding power_mult magnitude_limit_def by simp
  finally show "\<bar>int_val i\<bar> < magnitude_limit" .
next
  assume "float_finite f"
  then obtain m s where m: "unat (m :: uint64) * 2 ^ s = fmag f" "unat m < 2 ^ 53" "s \<le> 2045"
    using numeric_parts_float [of f] by blast
  have "(2::nat) ^ s \<le> 2 ^ 2045" using m(3) by (intro power_increasing) simp_all
  then have "fmag f < 2 ^ 53 * 2 ^ 2045"
    using m(2) unfolding m(1) [symmetric] by (intro mult_less_le_imp_less) simp_all
  also have "\<dots> = 2 ^ (53 + 2045)" by (simp only: power_add)
  also have "\<dots> < 2 ^ (8 * 263)" by (rule power_strict_increasing) simp_all
  also have "\<dots> = 256 ^ 263" unfolding power_mult by simp
  finally have "int (fmag f) < int (256 ^ 263)" by (simp only: of_nat_less_iff)
  then show "\<bar>fval f\<bar> < magnitude_limit"
    unfolding fval_def of_nat_power magnitude_limit_def by simp
qed

lemma not_byte_less [simp]: "NOT a < NOT b \<longleftrightarrow> b < (a :: byte)"
proof -
  have "uint (NOT w) = 255 - uint w" for w :: byte
  proof -
    have "0 \<le> uint w" "uint w < 256" using uint_lt2p [of w] by simp_all
    then have "(255 - uint w) mod 256 = 255 - uint w" by (intro mod_pos_pos_trivial) linarith+
    moreover have "- uint w - 1 = 255 - uint w + (- 1) * 256" by simp
    ultimately have "(- uint w - 1) mod 256 = 255 - uint w" by (simp only: mod_mult_self1)
    then show ?thesis
      unfolding unsigned_not_eq by (simp add: not_int_def take_bit_eq_mod)
  qed
  then show ?thesis by (simp add: word_less_def)
qed

lemma map_not_less [lex]:
  "length xs = length ys \<Longrightarrow>
    map (\<lambda>b. NOT b) xs < map (\<lambda>b. NOT b) ys \<longleftrightarrow> ys < (xs :: bytes)"
  by (induction xs ys rule: list_induct2) auto

lemma map_not_eq: "map (\<lambda>b. NOT b) xs = map (\<lambda>b. NOT b) ys \<longleftrightarrow> xs = (ys :: bytes)"
  by (auto dest: map_injective [OF _ injI] simp: inj_map_eq_map [OF injI])

lemma nat_abs_bound: "\<bar>x\<bar> < int n \<Longrightarrow> nat x < n \<and> nat (- x) < n"
  by linarith

lemma number_key_framed [lex]:
  assumes "\<bar>x\<bar> < magnitude_limit" "\<bar>y\<bar> < magnitude_limit"
  shows "number_key x @ s < number_key y @ t \<longleftrightarrow> x < y \<or> x = y \<and> s < t"
proof -
  have b: "nat x < 256 ^ 263" "nat (- x) < 256 ^ 263" "nat y < 256 ^ 263" "nat (- y) < 256 ^ 263"
    using nat_abs_bound [of x "256 ^ 263"] nat_abs_bound [of y "256 ^ 263"] assms
    unfolding magnitude_limit_def by (simp_all only: of_nat_power of_nat_numeral)
  consider "x = 0" | "y = 0" "x \<noteq> 0" | "x < 0" "0 < y" | "y < 0" "0 < x"
    | "x < 0" "y < 0" | "0 < x" "0 < y" by linarith
  then show ?thesis
  proof cases
    case 5
    then show ?thesis
      using be_bytes_less [OF b(4) b(2)] be_bytes_eq [OF b(2) b(4)]
      by (auto simp: number_key_def append_less_append_len map_not_less map_not_eq)
  next
    case 6
    then show ?thesis
      using be_bytes_less [OF b(1) b(3)] be_bytes_eq [OF b(1) b(3)]
      by (auto simp: number_key_def append_less_append_len)
  qed (auto simp: number_key_def)
qed

section \<open>Scalars\<close>

lemma xor_top_bit: "w XOR push_bit 63 1 = w + (push_bit 63 1 :: int64)"
proof -
  have clear: "v XOR push_bit 63 1 = v + push_bit 63 1" if "\<not> bit v 63" for v :: int64
  proof -
    have "v AND push_bit 63 1 = 0"
    proof (rule bit_word_eqI)
      fix n
      show "bit (v AND push_bit 63 1) n = bit (0 :: int64) n"
        unfolding bit_and_iff bit_push_bit_iff bit_1_iff using that by (cases "n = 63") auto
    qed
    then show ?thesis by (rule disjunctive_add_eq_xor [symmetric])
  qed
  show ?thesis
  proof (cases "bit w 63")
    case True
    define v where "v = w XOR push_bit 63 1"
    have "\<not> bit v 63" unfolding v_def bit_xor_iff bit_push_bit_iff bit_1_iff using True by simp
    then have "v XOR push_bit 63 1 = v + push_bit 63 1" by (rule clear)
    moreover have "v XOR push_bit 63 1 = w" by (simp only: v_def xor.assoc xor_self_eq xor.right_neutral)
    ultimately have "w = v + push_bit 63 1" by simp
    moreover have "push_bit 63 1 + push_bit 63 1 = (0 :: int64)" by simp
    ultimately have "w + push_bit 63 1 = v" by (simp only: add.assoc add_0_right)
    then show ?thesis by (simp only: v_def)
  qed (rule clear)
qed

lemma flip_sign_less: "a XOR push_bit 63 1 < b XOR push_bit 63 1 \<longleftrightarrow> a <s (b :: int64)"
proof -
  have "uint (w XOR push_bit 63 1) = sint w + 2 ^ 63" for w :: int64
  proof -
    have "uint (w + push_bit 63 1) = (uint w + 2 ^ 63) mod 2 ^ 64" by (simp add: uint_word_ariths)
    moreover have "sint w = (uint w + 2 ^ 63) mod 2 ^ 64 - 2 ^ 63"
      using int_word_sint [of "uint w", where ?'a = 64] by simp
    ultimately show ?thesis unfolding xor_top_bit by simp
  qed
  then show ?thesis by (simp only: word_less_def word_sless_alt) simp
qed

lemma flip_sign_eq: "a XOR push_bit 63 1 = b XOR push_bit 63 1 \<longleftrightarrow> a = (b :: int64)"
  unfolding xor_top_bit by simp

fun scalar_key :: "meaning \<Rightarrow> bytes" where
  "scalar_key SNull = [0x10]"
| "scalar_key (SBool b) = [if b then 0x21 else 0x20]"
| "scalar_key (SNumber x) = number_key x"
| "scalar_key (SString s) = 0x40 # escape_bytes s @ [0, 0]"
| "scalar_key (STime t) = 0x50 # be_put64 (t XOR push_bit 63 1)"
| "scalar_key (SID x) = 0x60 # x"
| "scalar_key (SBinary s) = 0x70 # escape_bytes s @ [0, 0]"
| "scalar_key _ = []"

fun scalar_ok :: "meaning \<Rightarrow> bool" where
  "scalar_ok (SNumber x) = (\<bar>x\<bar> < magnitude_limit)"
| "scalar_ok (SID x) = (length x = 16)"
| "scalar_ok (SArray _) = False"
| "scalar_ok (SObject _) = False"
| "scalar_ok _ = True"

lemma appendIndexKey_Inr:
  assumes "appendIndexKey d v = Inr x"
  shows "x = d @ scalar_key (sem v)"
  using assms
proof (cases v)
  case (VFloat f)
  then have "float_finite f"
    using assms by (auto simp: appendNumericIndexKey_def numeric_parts_def split: if_splits)
  then show ?thesis using assms VFloat by (simp add: appendNumericIndexKey_float)
qed (auto simp: appendNumericIndexKey_int appendEscapedIndexBytes_def)

lemma appendIndexKey_ok:
  assumes "appendIndexKey d v = Inr x" "node_wf v"
  shows "scalar_ok (sem v)"
  using assms
proof (cases v)
  case (VFloat f)
  then have "float_finite f"
    using assms by (auto simp: appendNumericIndexKey_def numeric_parts_def split: if_splits)
  then show ?thesis using VFloat number_range(2) by simp
qed (simp_all add: number_range(1))

lemma number_key_tag: "\<exists>r. number_key x = 0x30 # r"
  by (simp add: number_key_def)

lemma be_put64_eq: "be_put64 a = be_put64 b \<longleftrightarrow> a = b"
  by (metis get_put(4))

lemma scalar_key_framed:
  assumes "scalar_ok a" "scalar_ok b"
  shows "scalar_key a @ s < scalar_key b @ t \<longleftrightarrow> scalar_less a b \<or> a = b \<and> s < t"
proof (cases a)
  case a: (SNumber x)
  show ?thesis
  proof (cases b)
    case (SNumber y)
    then show ?thesis using assms a by (simp add: number_key_framed)
  qed (use a number_key_tag [of x] assms in auto)
next
  case a: (STime x)
  show ?thesis
  proof (cases b)
    case (SNumber y)
    then show ?thesis using number_key_tag [of y] a by auto
  next
    case (STime y)
    then show ?thesis
      using a by (simp add: append_less_append_len be_put64_less be_put64_eq
          flip_sign_less [simplified] flip_sign_eq [simplified])
  qed (use a assms in auto)
next
  case a: (SID x)
  show ?thesis
  proof (cases b)
    case (SNumber y)
    then show ?thesis using number_key_tag [of y] a by auto
  next
    case (SID y)
    then show ?thesis using a assms by (simp add: append_less_append_len)
  qed (use a assms in auto)
next
  case a: (SBool p)
  show ?thesis
  proof (cases b)
    case (SNumber y)
    then show ?thesis using number_key_tag [of y] a by auto
  qed (use a assms in auto)
next
  case a: SNull
  show ?thesis
  proof (cases b)
    case (SNumber y)
    then show ?thesis using number_key_tag [of y] a by auto
  qed (use a assms in auto)
next
  case a: (SString p)
  show ?thesis
  proof (cases b)
    case (SNumber y)
    then show ?thesis using number_key_tag [of y] a by auto
  qed (use a assms in \<open>auto simp: escape_framed\<close>)
next
  case a: (SBinary p)
  show ?thesis
  proof (cases b)
    case (SNumber y)
    then show ?thesis using number_key_tag [of y] a by auto
  qed (use a assms in \<open>auto simp: escape_framed\<close>)
qed (use assms in auto)

section \<open>The interface: self-delimiting keys in the order of the values\<close>

text \<open>
  What every user of keys relies on. \<open>framed\<close> says that a key followed by any bytes compares by the
  value first, so keys can be concatenated and scanned by prefix.
\<close>

locale ordered_key =
  fixes valid :: "'a \<Rightarrow> bool"
    and enc :: "'a \<Rightarrow> 'e + bytes"
    and less :: "'a \<Rightarrow> 'a \<Rightarrow> bool"
    and same :: "'a \<Rightarrow> 'a \<Rightarrow> bool"
  assumes framed: "valid a \<Longrightarrow> valid b \<Longrightarrow> enc a = Inr x \<Longrightarrow> enc b = Inr y \<Longrightarrow>
      x @ s < y @ t \<longleftrightarrow> less a b \<or> same a b \<and> s < t"
    and same_key: "valid a \<Longrightarrow> valid b \<Longrightarrow> enc a = Inr x \<Longrightarrow> enc b = Inr y \<Longrightarrow> same a b \<Longrightarrow> x = y"
begin

lemma key_less:
  "valid a \<Longrightarrow> valid b \<Longrightarrow> enc a = Inr x \<Longrightarrow> enc b = Inr y \<Longrightarrow> x < y \<longleftrightarrow> less a b"
  using framed [of a b x y "[]" "[]"] by simp

lemma key_eq:
  assumes "valid a" "valid b" "enc a = Inr x" "enc b = Inr y"
  shows "x = y \<longleftrightarrow> same a b"
proof
  assume eq: "x = y"
  then have "x @ [] < y @ [0]" by (simp add: less_list_prefix)
  moreover have "\<not> less a b" using key_less [OF assms] eq by simp
  ultimately show "same a b" using framed [OF assms, of "[]" "[0]"] by simp
qed (rule same_key [OF assms])

lemma key_prefix_free:
  assumes "valid a" "valid b" "enc a = Inr x" "enc b = Inr y" "x @ s = y @ t"
  shows "x = y \<and> s = t"
proof -
  have "\<not> x < y" using assms(5) framed [OF assms(1-4), of s t] key_less [OF assms(1-4)] by auto
  moreover have "\<not> y < x"
    using assms(5) framed [OF assms(2,1,4,3), of t s] key_less [OF assms(2,1,4,3)] by auto
  ultimately have "x = y" by simp
  then show ?thesis using assms(5) by simp
qed

lemma less_total:
  "valid a \<Longrightarrow> valid b \<Longrightarrow> enc a = Inr x \<Longrightarrow> enc b = Inr y \<Longrightarrow> less a b \<or> same a b \<or> less b a"
  using key_less [of a b x y] key_less [of b a y x] key_eq [of a b x y] by force

lemma less_trans:
  "valid a \<Longrightarrow> valid b \<Longrightarrow> valid c \<Longrightarrow> enc a = Inr x \<Longrightarrow> enc b = Inr y \<Longrightarrow> enc c = Inr z \<Longrightarrow>
    less a b \<Longrightarrow> less b c \<Longrightarrow> less a c"
  using key_less [of a b x y] key_less [of b c y z] key_less [of a c x z] by force

end

definition value_less :: "Value \<Rightarrow> Value \<Rightarrow> bool" where
  "value_less v w = scalar_less (sem v) (sem w)"

definition value_same :: "Value \<Rightarrow> Value \<Rightarrow> bool" where
  "value_same v w \<longleftrightarrow> sem v = sem w"

interpretation scalar: ordered_key node_wf encodeIndexKey value_less value_same
proof
  fix a b x y s t
  assume a: "node_wf a" "node_wf b" "encodeIndexKey a = Inr x" "encodeIndexKey b = Inr y"
  then have "x = scalar_key (sem a)" "y = scalar_key (sem b)" "scalar_ok (sem a)" "scalar_ok (sem b)"
    using appendIndexKey_Inr [of "[]"] appendIndexKey_ok [of "[]"] unfolding encodeIndexKey_def by fastforce+
  then show "x @ s < y @ t \<longleftrightarrow> value_less a b \<or> value_same a b \<and> s < t"
    and "value_same a b \<Longrightarrow> x = y"
    by (simp_all add: scalar_key_framed value_less_def value_same_def)
qed

lemma encodeIndexKey_defined:
  "(\<exists>x. encodeIndexKey v = Inr x) \<longleftrightarrow>
     (case v of VFloat f \<Rightarrow> float_finite f | VArray _ \<Rightarrow> False | VObject _ \<Rightarrow> False | _ \<Rightarrow> True)"
proof (cases v)
  case (VFloat f)
  then show ?thesis
    by (auto simp: encodeIndexKey_def appendNumericIndexKey_float)
      (auto simp: appendNumericIndexKey_def numeric_parts_def split: if_splits)
qed (simp_all add: encodeIndexKey_def appendNumericIndexKey_int)

lemma length_number_key: "length (number_key x) = 265"
  by (simp add: number_key_def)

lemma length_encodeIndexKey:
  assumes "encodeIndexKey v = Inr x" "node_wf v"
  shows "length x = indexKeyCapacity v"
proof -
  have "x = scalar_key (sem v)"
    using appendIndexKey_Inr [of "[]" v x] assms(1) by (simp add: encodeIndexKey_def)
  then show ?thesis
    using assms
    by (cases v) (simp_all add: encodeIndexKey_def length_number_key numericMagnitudeBytes_def
        escapedIndexBytesLength_eq escapeIndexBytes_def appendEscapedIndexBytes_def)
qed

section \<open>Properties\<close>

text \<open>
  C1 Byte order of index keys is the order of the values: for two well-formed
  scalars, one key is smaller exactly when its value is smaller (kinds by rank, integers and floats
  together by exact value, strings and binary data bytewise, times as signed milliseconds), the keys
  are equal exactly when \<open>Value.Equal\<close> holds, and neither is a proper prefix of the other.
\<close>

theorem encodeIndexKey_order:
  assumes "value_wf v" "value_wf w" "encodeIndexKey v = Inr x" "encodeIndexKey w = Inr y"
  shows "(x < y \<longleftrightarrow> value_less v w) \<and> (x = y \<longleftrightarrow> value_Equal v w) \<and> (\<forall>s t. x @ s = y @ t \<longrightarrow> s = t)"
proof -
  have wf: "node_wf v" "node_wf w" using assms(1,2) by (simp_all add: value_all.simps)
  have "nan_free z" if "encodeIndexKey z = Inr k" for z k
    using that encodeIndexKey_defined [of z] by (cases z) auto
  then have "value_Equal v w \<longleftrightarrow> value_same v w"
    using value_Equal_sem assms by (simp add: value_same_def)
  then show ?thesis
    using scalar.key_less [OF wf assms(3,4)] scalar.key_eq [OF wf assms(3,4)]
      scalar.key_prefix_free [OF wf assms(3,4)] by blast
qed

theorem encodeIndexKey_order_witness:
  "\<not> value_Equal (VString [97]) (VString [97, 0]) \<and> value_less (VString [97]) (VString [97, 0]) \<and>
   encodeIndexKey (VString [97]) = Inr [0x40, 97, 0, 0] \<and>
   encodeIndexKey (VString [97, 0]) = Inr [0x40, 97, 0, 0xFF, 0, 0]"
proof -
  have e: "encodeIndexKey (VString [97]) = Inr [0x40, 97, 0, 0]"
    "encodeIndexKey (VString [97, 0]) = Inr [0x40, 97, 0, 0xFF, 0, 0]"
    by (simp_all add: encodeIndexKey_def appendEscapedIndexBytes_def)
  from encodeIndexKey_order [OF _ _ e] show ?thesis using e by simp
qed



end
