(* ===== verification/Compound_Key.thy ===== *)
theory Compound_Key
  imports Index_Key
begin

text \<open>
  Keys of compound and descending indexes, \<open>internal/database/compound_index_key.go\<close>. Every scalar key
  is framed on its own, ascending fields with the zero-escaping frame and descending fields with its
  bytewise complement, so the concatenation of the frames sorts as the tuple does.
\<close>

unbundle bit_operations_syntax

section \<open>Model\<close>

record IndexField =
  Field :: bytes
  Order :: int

definition maxCompoundIndexFields :: nat where
  "maxCompoundIndexFields = 4"

definition maxCanonicalSecondaryKeyLen :: nat where
  "maxCanonicalSecondaryKeyLen = 4096 - 24"

definition compoundPartialMarker :: byte where
  "compoundPartialMarker = 0x01"

definition compoundComponentFloor :: byte where
  "compoundComponentFloor = 0x02"

fun appendAscendingIndexComponent :: "bytes \<Rightarrow> bytes \<Rightarrow> bytes" where
  "appendAscendingIndexComponent destination [] = destination @ [0, 0]"
| "appendAscendingIndexComponent destination (v # scalar) =
     appendAscendingIndexComponent (if v = 0 then destination @ [0, 0xFF] else destination @ [v]) scalar"

fun appendDescendingIndexComponent :: "bytes \<Rightarrow> bytes \<Rightarrow> bytes" where
  "appendDescendingIndexComponent destination [] = destination @ [0xFF, 0xFF]"
| "appendDescendingIndexComponent destination (v # scalar) =
     (let inverted = NOT v
      in appendDescendingIndexComponent
           (if inverted = 0xFF then destination @ [0xFF, 0] else destination @ [inverted]) scalar)"

text \<open>The first loop: all scalars in one buffer and the end of each of them.\<close>

fun append_scalars :: "bytes \<Rightarrow> nat list \<Rightarrow> IndexField list \<Rightarrow> Value list \<Rightarrow> db_error + bytes \<times> nat list" where
  "append_scalars scalars ends (field # flds) (v # vs) =
     (if Order field \<noteq> 1 \<and> Order field \<noteq> -1 then Inl ErrKey
      else rbind (appendIndexKey scalars v) (\<lambda>scalars'.
             append_scalars scalars' (ends @ [length scalars']) flds vs))"
| "append_scalars scalars ends _ _ = Inr (scalars, ends)"

definition scalar_at :: "bytes \<Rightarrow> nat list \<Rightarrow> nat \<Rightarrow> bytes" where
  "scalar_at scalars ends index =
     slice scalars (if 0 < index then ends ! (index - 1) else 0) (ends ! index)"

definition result_capacity :: "bytes \<Rightarrow> nat list \<Rightarrow> nat \<Rightarrow> nat" where
  "result_capacity scalars ends n =
     fold (\<lambda>index cap.
         let scalar = scalar_at scalars ends index
         in fold (\<lambda>v c. if v = 0 then c + 1 else c) scalar (cap + length scalar + 2))
       [0..<n] 0"

fun append_components :: "bytes \<Rightarrow> bytes \<Rightarrow> nat list \<Rightarrow> nat \<Rightarrow> IndexField list \<Rightarrow> bytes" where
  "append_components result scalars ends index [] = result"
| "append_components result scalars ends index (field # flds) =
     append_components
       (if Order field = 1 then appendAscendingIndexComponent result (scalar_at scalars ends index)
        else appendDescendingIndexComponent result (scalar_at scalars ends index))
       scalars ends (index + 1) flds"

definition encodeCompoundIndexKey :: "Value list \<Rightarrow> IndexField list \<Rightarrow> db_error + bytes" where
  "encodeCompoundIndexKey vs flds =
     (if vs = [] \<or> length vs \<noteq> length flds \<or> maxCompoundIndexFields < length flds then Inl ErrKey
      else rbind (append_scalars [] [] flds vs) (\<lambda>(scalars, ends).
        if maxCanonicalSecondaryKeyLen < result_capacity scalars ends (length flds) then Inl ErrKey
        else Inr (append_components [] scalars ends 0 flds)))"

definition encodeCompoundPartialIndexKey ::
  "Value list \<Rightarrow> IndexField list \<Rightarrow> DocumentID \<Rightarrow> db_error + bytes" where
  "encodeCompoundPartialIndexKey vs flds i =
     (if vs = [] \<or> length vs \<noteq> length flds \<or> IsZero i then Inl ErrKey
      else rbind (encodeCompoundIndexKey vs flds) (\<lambda>key.
        if maxCanonicalSecondaryKeyLen < length key + 1 + length i then Inl ErrKey
        else Inr ((key @ [compoundPartialMarker]) @ i)))"

definition encodeCompoundIndexPrefix :: "Value list \<Rightarrow> IndexField list \<Rightarrow> db_error + bytes" where
  "encodeCompoundIndexPrefix vs flds =
     (if vs = [] \<or> length flds < length vs then Inl ErrKey
      else encodeCompoundIndexKey vs (take (length vs) flds))"

section \<open>The order of tuples\<close>

definition field_less :: "IndexField \<Rightarrow> Value \<Rightarrow> Value \<Rightarrow> bool" where
  "field_less field v w = (if Order field = 1 then value_less v w else value_less w v)"

fun tuple_less :: "IndexField list \<Rightarrow> Value list \<Rightarrow> Value list \<Rightarrow> bool" where
  "tuple_less (field # flds) (v # vs) (w # ws) \<longleftrightarrow>
     field_less field v w \<or> value_same v w \<and> tuple_less flds vs ws"
| "tuple_less _ _ _ \<longleftrightarrow> False"

section \<open>Frames\<close>

definition frame :: "IndexField \<Rightarrow> bytes \<Rightarrow> bytes" where
  "frame field x =
     (if Order field = 1 then escape_bytes x @ [0, 0] else map (\<lambda>b. NOT b) (escape_bytes x @ [0, 0]))"

lemma appendAscending_eq: "appendAscendingIndexComponent d x = d @ escape_bytes x @ [0, 0]"
  by (induction d x rule: appendAscendingIndexComponent.induct) auto

lemma not_eq_ff: "NOT (v :: byte) = 0xFF \<longleftrightarrow> v = 0"
proof -
  have "(0xFF :: byte) = NOT 0" by simp
  then show ?thesis by (metis bit.double_compl)
qed

lemma appendDescending_eq:
  "appendDescendingIndexComponent d x = d @ map (\<lambda>b. NOT b) (escape_bytes x @ [0, 0])"
  by (induction d x rule: appendDescendingIndexComponent.induct) (auto simp: Let_def not_eq_ff)

text \<open>Complementing every byte reverses the order of strings when neither is a prefix of the other.\<close>

lemma map_not_framed:
  fixes u w :: bytes
  assumes "\<forall>s t. u @ s \<noteq> w @ t"
  shows "map (\<lambda>b. NOT b) u @ s < map (\<lambda>b. NOT b) w @ t \<longleftrightarrow> w < u"
  using assms
proof (induction u arbitrary: w)
  case Nil
  then show ?case by (metis append_Nil append_Nil2)
next
  case (Cons a u)
  then obtain b v where w: "w = b # v"
    by (cases w) (metis append_Nil append_Nil2, simp)
  show ?case
  proof (cases "a = b")
    case True
    have "\<forall>s t. u @ s \<noteq> v @ t" using Cons.prems True w by simp
    then show ?thesis using Cons.IH [of v] True w by simp
  qed (simp add: w)
qed

lemma frame_framed:
  "frame field x @ s < frame field y @ t \<longleftrightarrow>
     (if Order field = 1 then x < y else y < x) \<or> x = y \<and> s < t"
proof (cases "Order field = 1")
  case True
  then show ?thesis by (simp add: frame_def escape_framed)
next
  case False
  show ?thesis
  proof (cases "x = y")
    case True
    then show ?thesis using False by (simp add: frame_def)
  next
    case neq: False
    have "escape_bytes x @ 0 # 0 # p \<noteq> escape_bytes y @ 0 # 0 # q" for p q
      using neq escape_framed [of x p y q] escape_framed [of y q x p]
      by (metis less_irrefl linorder_less_linear)
    then show ?thesis
      using False neq map_not_framed [of "escape_bytes x @ [0, 0]" "escape_bytes y @ [0, 0]" s t]
        escape_framed [of y "[]" x "[]"]
      by (simp add: frame_def)
  qed
qed

lemma length_frame: "length (frame field x) = length (escape_bytes x) + 2"
  by (simp add: frame_def)

section \<open>The loops\<close>

fun ends_of :: "nat \<Rightarrow> bytes list \<Rightarrow> nat list" where
  "ends_of n [] = []"
| "ends_of n (k # ks) = (n + length k) # ends_of (n + length k) ks"

abbreviation keys_of :: "Value list \<Rightarrow> bytes list" where
  "keys_of vs \<equiv> map (\<lambda>v. scalar_key (sem v)) vs"

lemma append_scalars_Inr:
  assumes "append_scalars sc ends flds vs = Inr (sc', ends')" "length flds = length vs"
  shows "sc' = sc @ concat (keys_of vs) \<and> ends' = ends @ ends_of (length sc) (keys_of vs) \<and>
    (\<forall>field \<in> set flds. Order field = 1 \<or> Order field = -1) \<and>
    (\<forall>v \<in> set vs. \<exists>x. encodeIndexKey v = Inr x)"
  using assms
proof (induction sc ends flds vs rule: append_scalars.induct)
  case (1 scalars ends field flds v vs)
  then obtain sc1 where sc1: "appendIndexKey scalars v = Inr sc1"
    and rec: "append_scalars sc1 (ends @ [length sc1]) flds vs = Inr (sc', ends')"
    and ord: "\<not> (Order field \<noteq> 1 \<and> Order field \<noteq> -1)"
    by (auto split: if_splits)
  have eq: "sc1 = scalars @ scalar_key (sem v)" using appendIndexKey_Inr [OF sc1] .
  have "\<exists>x. encodeIndexKey v = Inr x"
    using sc1 encodeIndexKey_defined [of v]
    by (cases v) (auto simp: appendNumericIndexKey_def numeric_parts_def split: if_splits)
  with "1.IH" [OF ord sc1 rec] "1.prems"(2) ord eq show ?case by simp
qed auto

lemma length_ends_of [simp]: "length (ends_of n ks) = length ks"
  by (induction n ks rule: ends_of.induct) simp_all

lemma ends_of_nth: "i < length ks \<Longrightarrow> ends_of n ks ! i = n + length (concat (take (Suc i) ks))"
proof (induction n ks arbitrary: i rule: ends_of.induct)
  case (2 n k ks)
  then show ?case by (cases i) simp_all
qed simp

lemma scalar_at_concat:
  assumes "i < length ks"
  shows "scalar_at (concat ks) (ends_of 0 ks) i = ks ! i"
proof -
  have start: "(if 0 < i then ends_of 0 ks ! (i - 1) else 0) = length (concat (take i ks))"
    using assms by (simp add: ends_of_nth)
  have "concat ks = concat (take i ks) @ ks ! i @ concat (drop (Suc i) ks)"
    using arg_cong [OF id_take_nth_drop [OF assms], of concat] by simp
  moreover have "length (concat (take (Suc i) ks)) = length (concat (take i ks)) + length (ks ! i)"
    using assms by (simp add: take_Suc_conv_app_nth)
  ultimately show ?thesis
    unfolding scalar_at_def start slice_def using assms by (simp add: ends_of_nth)
qed

definition frames :: "IndexField list \<Rightarrow> bytes list \<Rightarrow> bytes" where
  "frames flds ks = concat (map2 frame flds ks)"

lemma append_components_eq:
  "index + length flds = length ks \<Longrightarrow>
     append_components result (concat ks) (ends_of 0 ks) index flds = result @ frames flds (drop index ks)"
proof (induction flds arbitrary: result index)
  case (Cons field flds)
  then have i: "index < length ks" by simp
  then have "drop index ks = ks ! index # drop (index + 1) ks" by (simp add: Cons_nth_drop_Suc)
  with Cons i show ?case
    by (simp add: frames_def scalar_at_concat appendAscending_eq appendDescending_eq frame_def)
qed (simp add: frames_def)

lemma zero_count_fold:
  "fold (\<lambda>v c. if v = 0 then c + 1 else c) x n + length x = n + length (escape_bytes x)"
  by (induction x arbitrary: n) auto

lemma result_capacity_eq:
  assumes "length flds = length ks"
  shows "result_capacity (concat ks) (ends_of 0 ks) (length flds) = length (frames flds ks)"
proof -
  have "n \<le> length ks \<Longrightarrow> result_capacity (concat ks) (ends_of 0 ks) n =
      length (frames (take n flds) (take n ks))" for n
  proof (induction n)
    case (Suc n)
    then have n: "n < length ks" "n < length flds" using assms by simp_all
    have "fold (\<lambda>v c. if v = 0 then c + 1 else c) (ks ! n) (m + length (ks ! n) + 2) =
        m + length (escape_bytes (ks ! n)) + 2" for m
      using zero_count_fold [of "ks ! n" "m + length (ks ! n) + 2"] by simp
    with Suc n show ?case
      by (simp add: result_capacity_def scalar_at_concat Let_def take_Suc_conv_app_nth frames_def
          length_frame)
  qed (simp add: result_capacity_def frames_def)
  from this [of "length ks"] show ?thesis using assms by simp
qed

lemma encodeCompoundIndexKey_Inr:
  assumes "encodeCompoundIndexKey vs flds = Inr x"
  shows "x = frames flds (keys_of vs)" "length vs = length flds" "vs \<noteq> []"
    "length x \<le> maxCanonicalSecondaryKeyLen" "\<forall>v \<in> set vs. \<exists>k. encodeIndexKey v = Inr k"
proof -
  obtain sc ends where s: "append_scalars [] [] flds vs = Inr (sc, ends)"
    and len: "length vs = length flds" "vs \<noteq> []"
    and x: "\<not> maxCanonicalSecondaryKeyLen < result_capacity sc ends (length flds)"
      "x = append_components [] sc ends 0 flds"
    using assms by (auto simp: encodeCompoundIndexKey_def split: if_splits)
  have "sc = concat (keys_of vs)" "ends = ends_of 0 (keys_of vs)"
    "\<forall>v \<in> set vs. \<exists>k. encodeIndexKey v = Inr k"
    using append_scalars_Inr [OF s] len by simp_all
  then show "x = frames flds (keys_of vs)" "length x \<le> maxCanonicalSecondaryKeyLen"
    "length vs = length flds" "vs \<noteq> []" "\<forall>v \<in> set vs. \<exists>k. encodeIndexKey v = Inr k"
    using x len append_components_eq [of 0 flds "keys_of vs" "[]"] result_capacity_eq [of flds "keys_of vs"]
    by simp_all
qed

lemma appendIndexKey_append:
  "encodeIndexKey v = Inr x \<Longrightarrow> appendIndexKey d v = Inr (d @ x)"
  using encodeIndexKey_defined [of v]
  by (cases v) (auto simp: encodeIndexKey_def appendNumericIndexKey_int appendNumericIndexKey_float
      appendEscapedIndexBytes_def)

lemma append_scalars_exists:
  assumes "\<forall>v \<in> set vs. \<exists>x. encodeIndexKey v = Inr x"
    "\<forall>field \<in> set flds. Order field = 1 \<or> Order field = -1"
  shows "\<exists>r. append_scalars sc ends flds vs = Inr r"
  using assms
proof (induction sc ends flds vs rule: append_scalars.induct)
  case (1 scalars ends field flds v vs)
  then obtain x where "encodeIndexKey v = Inr x" by auto
  then have "appendIndexKey scalars v = Inr (scalars @ x)" by (rule appendIndexKey_append)
  moreover have "\<not> (Order field \<noteq> 1 \<and> Order field \<noteq> -1)" using "1.prems" by auto
  ultimately show ?case using "1.IH" "1.prems" by simp
qed auto

lemma encodeCompoundIndexKey_iff:
  "(\<exists>x. encodeCompoundIndexKey vs flds = Inr x) \<longleftrightarrow>
     vs \<noteq> [] \<and> length vs = length flds \<and> length flds \<le> maxCompoundIndexFields \<and>
     (\<forall>field \<in> set flds. Order field = 1 \<or> Order field = -1) \<and>
     (\<forall>v \<in> set vs. \<exists>k. encodeIndexKey v = Inr k) \<and>
     length (frames flds (keys_of vs)) \<le> maxCanonicalSecondaryKeyLen"
  (is "?enc \<longleftrightarrow> ?ok")
proof
  assume ?enc
  then obtain x where x: "encodeCompoundIndexKey vs flds = Inr x" ..
  then obtain r where r: "append_scalars [] [] flds vs = Inr r" "length flds \<le> maxCompoundIndexFields"
    by (auto simp: encodeCompoundIndexKey_def split: if_splits)
  with encodeCompoundIndexKey_Inr [OF x] append_scalars_Inr [of "[]" "[]" flds vs "fst r" "snd r"]
  show ?ok by simp
next
  assume ok: ?ok
  then obtain sc ends where r: "append_scalars [] [] flds vs = Inr (sc, ends)"
    using append_scalars_exists [of vs flds "[]" "[]"] by auto
  with append_scalars_Inr [OF r] ok result_capacity_eq [of flds "keys_of vs"] show ?enc
    by (simp add: encodeCompoundIndexKey_def)
qed

section \<open>Tuples in order\<close>

lemma frames_framed:
  assumes "length vs = length flds" "length ws = length flds"
    and "\<forall>v \<in> set vs. node_wf v \<and> (\<exists>k. encodeIndexKey v = Inr k)"
    and "\<forall>v \<in> set ws. node_wf v \<and> (\<exists>k. encodeIndexKey v = Inr k)"
  shows "frames flds (keys_of vs) @ s < frames flds (keys_of ws) @ t \<longleftrightarrow>
    tuple_less flds vs ws \<or> list_all2 value_same vs ws \<and> s < t"
  using assms
proof (induction flds vs ws rule: tuple_less.induct)
  case (1 field flds v vs w ws)
  obtain x y where xy: "encodeIndexKey v = Inr x" "encodeIndexKey w = Inr y" using "1.prems" by auto
  then have keys: "scalar_key (sem v) = x" "scalar_key (sem w) = y"
    using appendIndexKey_Inr [of "[]"] by (simp_all add: encodeIndexKey_def)
  have wf: "node_wf v" "node_wf w" using "1.prems" by simp_all
  have "x < y \<longleftrightarrow> value_less v w" "y < x \<longleftrightarrow> value_less w v" "x = y \<longleftrightarrow> value_same v w"
    using scalar.key_less [OF wf xy] scalar.key_less [OF wf(2,1) xy(2,1)] scalar.key_eq [OF wf xy] by blast+
  moreover have "frames (field # flds) (keys_of (z # zs)) = frame field (scalar_key (sem z)) @ frames flds (keys_of zs)"
    for z zs by (simp add: frames_def)
  ultimately show ?case
    using "1.IH" "1.prems" keys by (auto simp: frame_framed field_less_def)
qed (auto simp: frames_def)

interpretation compound: ordered_key "\<lambda>vs. \<forall>v \<in> set vs. node_wf v"
  "\<lambda>vs. encodeCompoundIndexKey vs flds" "tuple_less flds" "list_all2 value_same" for flds
proof
  fix vs ws x y s t
  assume a: "\<forall>v \<in> set vs. node_wf v" "\<forall>v \<in> set ws. node_wf v"
    "encodeCompoundIndexKey vs flds = Inr x" "encodeCompoundIndexKey ws flds = Inr y"
  note vs = encodeCompoundIndexKey_Inr [OF a(3)] and ws = encodeCompoundIndexKey_Inr [OF a(4)]
  show "x @ s < y @ t \<longleftrightarrow> tuple_less flds vs ws \<or> list_all2 value_same vs ws \<and> s < t"
    using frames_framed [of vs flds ws s t] a(1,2) vs ws by simp
  assume "list_all2 value_same vs ws"
  then have "map sem vs = map sem ws" by (simp add: value_same_def list_all2_conv_all_nth list_eq_iff_nth_eq)
  then have "keys_of vs = keys_of ws" by (metis (no_types, lifting) list.map_comp comp_def map_eq_conv)
  then show "x = y" using vs(1) ws(1) by simp
qed

section \<open>Prefixes and partial tuples\<close>

lemma frames_split:
  "n \<le> length flds \<Longrightarrow> length ks = length flds \<Longrightarrow>
     frames flds ks = frames (take n flds) (take n ks) @ frames (drop n flds) (drop n ks)"
  unfolding frames_def
  by (metis append_take_drop_id concat_append length_take map_append min.absorb2 zip_append)

lemma encode_leading:
  assumes "encodeCompoundIndexKey ws flds = Inr y" "n \<le> length flds" "0 < n"
  shows "\<exists>q. encodeCompoundIndexKey (take n ws) (take n flds) = Inr q \<and>
    y = q @ frames (drop n flds) (keys_of (drop n ws))"
proof -
  note w = encodeCompoundIndexKey_Inr [OF assms(1)]
  have split: "y = frames (take n flds) (keys_of (take n ws)) @ frames (drop n flds) (keys_of (drop n ws))"
    using frames_split [of n flds "keys_of ws"] assms(2) w by (simp add: take_map drop_map)
  have "length (frames (take n flds) (keys_of (take n ws))) \<le> length y" using split by simp
  then have "length (frames (take n flds) (keys_of (take n ws))) \<le> maxCanonicalSecondaryKeyLen"
    using w(4) by (rule le_trans)
  then have "\<exists>q. encodeCompoundIndexKey (take n ws) (take n flds) = Inr q"
    using encodeCompoundIndexKey_iff [of ws flds] encodeCompoundIndexKey_iff [of "take n ws" "take n flds"]
      assms w by (auto dest: in_set_takeD)
  then obtain q where q: "encodeCompoundIndexKey (take n ws) (take n flds) = Inr q" ..
  then show ?thesis using encodeCompoundIndexKey_Inr(1) [OF q] split by simp
qed

lemma encodeCompoundIndexPrefix_match:
  assumes "\<forall>v \<in> set vs. node_wf v" "\<forall>v \<in> set ws. node_wf v"
    and p: "encodeCompoundIndexPrefix vs flds = Inr p" and y: "encodeCompoundIndexKey ws flds = Inr y"
  shows "(\<exists>r. y = p @ r) \<longleftrightarrow> list_all2 value_same vs (take (length vs) ws)"
proof -
  let ?n = "length vs"
  have p': "encodeCompoundIndexKey vs (take ?n flds) = Inr p" and n: "?n \<le> length flds" "0 < ?n"
    using p by (auto simp: encodeCompoundIndexPrefix_def split: if_splits)
  obtain q where q: "encodeCompoundIndexKey (take ?n ws) (take ?n flds) = Inr q"
    and yq: "y = q @ frames (drop ?n flds) (keys_of (drop ?n ws))"
    using encode_leading [OF y n] by blast
  have wf: "\<forall>v \<in> set (take ?n ws). node_wf v" using assms(2) by (auto dest: in_set_takeD)
  have "(\<exists>r. y = p @ r) \<longleftrightarrow> p = q"
    using compound.key_prefix_free [OF assms(1) wf p' q] unfolding yq by metis
  also have "\<dots> \<longleftrightarrow> list_all2 value_same vs (take ?n ws)"
    by (rule compound.key_eq [OF assms(1) wf p' q])
  finally show ?thesis .
qed

lemma frame_head:
  assumes "encodeIndexKey v = Inr k"
  shows "\<exists>b r. frame field (scalar_key (sem v)) = b # r \<and> compoundComponentFloor < b"
  using assms encodeIndexKey_defined [of v]
  by (cases v) (auto simp: frame_def compoundComponentFloor_def number_key_def)

lemma encodeCompoundPartialIndexKey_Inr:
  assumes "encodeCompoundPartialIndexKey vs flds i = Inr x"
  obtains p where "encodeCompoundIndexKey vs flds = Inr p" "x = p @ compoundPartialMarker # i" "\<not> IsZero i"
  using assms by (auto simp: encodeCompoundPartialIndexKey_def split: if_splits)

lemma partial_before_complete:
  assumes "encodeCompoundIndexKey ws flds = Inr y" "0 < n" "n < length flds"
    and "encodeCompoundPartialIndexKey (take n ws) (take n flds) i = Inr x"
  shows "x < y"
proof -
  obtain p where p: "encodeCompoundIndexKey (take n ws) (take n flds) = Inr p"
    "x = p @ compoundPartialMarker # i"
    using encodeCompoundPartialIndexKey_Inr [OF assms(4)] by blast
  have y: "y = p @ frames (drop n flds) (keys_of (drop n ws))"
    using encode_leading [OF assms(1), of n] assms(2,3) p(1) by auto
  have n: "n < length ws" using encodeCompoundIndexKey_Inr(2) [OF assms(1)] assms(3) by simp
  obtain k where "encodeIndexKey (ws ! n) = Inr k"
    using encodeCompoundIndexKey_Inr(5) [OF assms(1)] nth_mem [OF n] by blast
  then obtain b r where br: "frame (flds ! n) (scalar_key (sem (ws ! n))) = b # r" "compoundComponentFloor < b"
    using frame_head [of "ws ! n" k "flds ! n"] by blast
  have "compoundPartialMarker < compoundComponentFloor"
    by (simp add: compoundPartialMarker_def compoundComponentFloor_def)
  then have "compoundPartialMarker < b" using br(2) by (rule less_trans)
  moreover have "frames (drop n flds) (keys_of (drop n ws)) =
      frame (flds ! n) (scalar_key (sem (ws ! n))) @ frames (drop (Suc n) flds) (keys_of (drop (Suc n) ws))"
    using assms(3) n by (simp add: frames_def flip: Cons_nth_drop_Suc)
  ultimately show ?thesis using p(2) y br(1) by simp
qed

section \<open>Properties\<close>

text \<open>
  C14 Keys of a compound index sort as the tuples do: the first differing field
  decides, by the order of its values if the field is ascending and by the reverse if it is
  descending; equal keys belong to equal tuples.
\<close>

theorem compound_key_order:
  assumes "\<forall>v \<in> set vs. value_wf v" "\<forall>w \<in> set ws. value_wf w"
    and "encodeCompoundIndexKey vs flds = Inr x" "encodeCompoundIndexKey ws flds = Inr y"
  shows "(x < y \<longleftrightarrow> tuple_less flds vs ws) \<and> (x = y \<longleftrightarrow> list_all2 value_same vs ws)"
proof -
  have wf: "\<forall>v \<in> set vs. node_wf v" "\<forall>w \<in> set ws. node_wf w"
    using assms(1,2) by (simp_all add: value_all.simps)
  show ?thesis
    using compound.key_less [OF wf assms(3,4)] compound.key_eq [OF wf assms(3,4)] by blast
qed

theorem compound_key_order_witness:
  "tuple_less [\<lparr>Field = [97], Order = 1\<rparr>, \<lparr>Field = [98], Order = -1\<rparr>]
     [VNull, VBool True] [VNull, VBool False]"
proof -
  let ?f = "[\<lparr>Field = [97], Order = 1\<rparr>, \<lparr>Field = [98], Order = -1\<rparr>]"
  have "encodeCompoundIndexKey [VNull, VBool True] ?f = Inr [0x10, 0, 0, 0xDE, 0xFF, 0xFF]"
    "encodeCompoundIndexKey [VNull, VBool False] ?f = Inr [0x10, 0, 0, 0xDF, 0xFF, 0xFF]"
    by (simp_all add: encodeCompoundIndexKey_def maxCompoundIndexFields_def maxCanonicalSecondaryKeyLen_def
        result_capacity_def scalar_at_def slice_def)
  from compound_key_order [OF _ _ this] show ?thesis by simp
qed

text \<open>
  C15 The encoded equality prefix selects the right keys: a complete key starts
  with the prefix exactly when its leading values equal the values of the prefix.
\<close>

theorem compound_prefix_scan:
  assumes "\<forall>v \<in> set vs. value_wf v" "\<forall>w \<in> set ws. value_wf w"
    and "encodeCompoundIndexPrefix vs flds = Inr p" "encodeCompoundIndexKey ws flds = Inr y"
  shows "(\<exists>r. y = p @ r) \<longleftrightarrow> list_all2 value_same vs (take (length vs) ws)"
  by (rule encodeCompoundIndexPrefix_match [OF _ _ assms(3,4)])
    (use assms(1,2) in \<open>simp_all add: value_all.simps\<close>)

theorem compound_prefix_scan_witness:
  "\<exists>r. [0x10, 0, 0, 0xDE, 0xFF, 0xFF] = [0x10, 0, 0] @ (r :: bytes)"
proof -
  let ?f = "[\<lparr>Field = [97], Order = 1\<rparr>, \<lparr>Field = [98], Order = -1\<rparr>]"
  have "encodeCompoundIndexPrefix [VNull] ?f = Inr [0x10, 0, 0]"
    "encodeCompoundIndexKey [VNull, VBool True] ?f = Inr [0x10, 0, 0, 0xDE, 0xFF, 0xFF]"
    by (simp_all add: encodeCompoundIndexPrefix_def encodeCompoundIndexKey_def maxCompoundIndexFields_def
        maxCanonicalSecondaryKeyLen_def result_capacity_def scalar_at_def slice_def)
  from compound_prefix_scan [OF _ _ this] show ?thesis by (simp add: value_same_def)
qed



end
