(* ===== verification/Document_Codec.thy ===== *)
theory Document_Codec
  imports Value_Model
begin

text \<open>
  The canonical binary form of documents, \<open>internal/database/document_codec.go\<close>, and its size,
  \<open>document_size.go\<close>. A writer appends to a \<open>bytes.Buffer\<close>: an encoder returns the bytes it appends.
  A decoder takes the unread bytes of a \<open>bytes.Reader\<close> and returns them after the value it read.
  \<open>sort.Strings(keys)\<close> is the order of the representation of a document.
\<close>

section \<open>Primitive writers and readers\<close>

definition MaxUint16 :: nat where "MaxUint16 = 2 ^ 16 - 1"
definition MaxUint32 :: nat where "MaxUint32 = 2 ^ 32 - 1"

definition writeString16 :: "bytes \<Rightarrow> db_error + bytes" where
  "writeString16 v =
     (if MaxUint16 < length v then Inl ErrCorrupt else Inr (put16 (of_nat (length v)) @ v))"

definition writeBytes32 :: "bytes \<Rightarrow> db_error + bytes" where
  "writeBytes32 v =
     (if MaxUint32 < length v then Inl ErrInvalidDocument else Inr (put32 (of_nat (length v)) @ v))"

definition readU16 :: "bytes \<Rightarrow> read_error + uint16 \<times> bytes" where
  "readU16 r = rbind (ReadFull 2 r) (\<lambda>(b, r). Inr (get16 b, r))"

definition readU32 :: "bytes \<Rightarrow> read_error + uint32 \<times> bytes" where
  "readU32 r = rbind (ReadFull 4 r) (\<lambda>(b, r). Inr (get32 b, r))"

definition readU64 :: "bytes \<Rightarrow> read_error + uint64 \<times> bytes" where
  "readU64 r = rbind (ReadFull 8 r) (\<lambda>(b, r). Inr (get64 b, r))"

definition readString16 :: "bytes \<Rightarrow> db_error + bytes \<times> bytes" where
  "readString16 r =
     rbind (with_error ErrCorrupt (readU16 r)) (\<lambda>(len, r).
       with_error ErrCorrupt (ReadFull (unat len) r))"

definition readBytes32 :: "uint32 \<Rightarrow> bytes \<Rightarrow> db_error + bytes \<times> bytes" where
  "readBytes32 max_len r =
     rbind (with_error ErrCorrupt (readU32 r)) (\<lambda>(len, r).
       if max_len < len \<or> length r < unat len then Inl ErrCorrupt
       else with_error ErrCorrupt (ReadFull (unat len) r))"

section \<open>Encoder\<close>

text \<open>
  \<open>encodeItems\<close> and \<open>encodeFields\<close> are the loops of \<open>encodeValueBinary\<close> and \<open>encodeObjectBinary\<close>;
  the object case contains the body of \<open>encodeObjectBinary\<close> at the next depth.
\<close>

fun encodeValueBinary :: "nat \<Rightarrow> Value \<Rightarrow> db_error + bytes"
  and encodeItems :: "nat \<Rightarrow> Value list \<Rightarrow> db_error + bytes"
  and encodeFields :: "nat \<Rightarrow> Document \<Rightarrow> db_error + bytes" where
  "encodeValueBinary depth v =
     (if 64 < depth then Inl ErrInvalidDocument
      else case v of
          VNull \<Rightarrow> Inr [0]
        | VBool b \<Rightarrow> Inr [1, if b then 1 else 0]
        | VInt i \<Rightarrow> Inr (2 # put64 i)
        | VFloat f \<Rightarrow> if math_IsNaN f \<or> math_IsInf f then Inl ErrInvalidDocument else Inr (3 # put64 f)
        | VString s \<Rightarrow> rbind (writeBytes32 s) (\<lambda>b. Inr (4 # b))
        | VBinary s \<Rightarrow> rbind (writeBytes32 s) (\<lambda>b. Inr (5 # b))
        | VTime t \<Rightarrow> Inr (6 # put64 t)
        | VArray arr \<Rightarrow>
            if MaxUint32 < length arr then Inl ErrInvalidDocument
            else rbind (encodeItems (depth + 1) arr) (\<lambda>b. Inr (7 # put32 (of_nat (length arr)) @ b))
        | VObject obj \<Rightarrow>
            if 64 < depth + 1 \<or> MaxUint32 < length obj then Inl ErrInvalidDocument
            else if \<not> list_all validField (map fst obj) then Inl ErrInvalidDocument
            else rbind (encodeFields (depth + 1) obj) (\<lambda>b. Inr (8 # put32 (of_nat (length obj)) @ b))
        | VID i \<Rightarrow> Inr (9 # i))"
| "encodeItems depth [] = Inr []"
| "encodeItems depth (v # vs) =
     rbind (encodeValueBinary depth v) (\<lambda>b. rbind (encodeItems depth vs) (\<lambda>c. Inr (b @ c)))"
| "encodeFields depth [] = Inr []"
| "encodeFields depth ((k, v) # d) =
     rbind (writeString16 k) (\<lambda>a. rbind (encodeValueBinary (depth + 1) v) (\<lambda>b.
       rbind (encodeFields depth d) (\<lambda>c. Inr (a @ b @ c))))"

definition encodeObjectBinary :: "nat \<Rightarrow> Document \<Rightarrow> db_error + bytes" where
  "encodeObjectBinary depth d =
     (if 64 < depth \<or> MaxUint32 < length d then Inl ErrInvalidDocument
      else if \<not> list_all validField (map fst d) then Inl ErrInvalidDocument
      else rbind (encodeFields depth d) (\<lambda>b. Inr (put32 (of_nat (length d)) @ b)))"

definition encodeDocumentBinary :: "Document \<Rightarrow> db_error + bytes" where
  "encodeDocumentBinary d = rbind (Validate d) (\<lambda>_. encodeObjectBinary 0 d)"

section \<open>Decoder\<close>

function (sequential) decodeValueBinary :: "nat \<Rightarrow> bytes \<Rightarrow> db_error + Value \<times> bytes"
  and decodeItems :: "nat \<Rightarrow> nat \<Rightarrow> bytes \<Rightarrow> db_error + Value list \<times> bytes"
  and decodeFields :: "nat \<Rightarrow> nat \<Rightarrow> bytes \<Rightarrow> Document \<Rightarrow> bytes \<Rightarrow> db_error + Document \<times> bytes" where
  "decodeValueBinary depth r =
     (if 64 < depth then Inl ErrCorrupt
      else case r of
          [] \<Rightarrow> Inl ErrCorrupt
        | tag # r \<Rightarrow>
            if 9 < tag then Inl ErrCorrupt
            else if tag = 0 then Inr (VNull, r)
            else if tag = 1 then
              (case r of
                 [] \<Rightarrow> Inl ErrCorrupt
               | b # r \<Rightarrow> if 1 < b then Inl ErrCorrupt else Inr (VBool (b = 1), r))
            else if tag = 2 then
              rbind (with_error ErrCorrupt (readU64 r)) (\<lambda>(w, r). Inr (VInt w, r))
            else if tag = 3 then
              rbind (with_error ErrCorrupt (readU64 r)) (\<lambda>(w, r).
                if math_IsNaN w \<or> math_IsInf w then Inl ErrCorrupt else Inr (VFloat w, r))
            else if tag = 4 then
              rbind (readBytes32 (push_bit 20 64) r) (\<lambda>(s, r).
                if \<not> utf8_Valid s then Inl ErrCorrupt else Inr (VString s, r))
            else if tag = 5 then
              rbind (readBytes32 (push_bit 20 64) r) (\<lambda>(s, r). Inr (VBinary s, r))
            else if tag = 6 then
              rbind (with_error ErrCorrupt (readU64 r)) (\<lambda>(w, r). Inr (VTime w, r))
            else if tag = 9 then
              rbind (with_error ErrCorrupt (ReadFull 16 r)) (\<lambda>(i, r).
                if IsZero i then Inl ErrCorrupt else Inr (VID i, r))
            else if tag = 7 then
              rbind (with_error ErrCorrupt (readU32 r)) (\<lambda>(count, r).
                if 10000000 < count \<or> length r < unat count then Inl ErrCorrupt
                else rbind (decodeItems (depth + 1) (unat count) r) (\<lambda>(vs, r). Inr (VArray vs, r)))
            else
              (if 64 < depth + 1 then Inl ErrCorrupt
               else rbind (with_error ErrCorrupt (readU32 r)) (\<lambda>(count, r).
                 if 1000000 < count \<or> length r div 4 < unat count then Inl ErrCorrupt
                 else rbind (decodeFields (depth + 1) (unat count) [] [] r) (\<lambda>(d, r). Inr (VObject d, r)))))"
| "decodeItems depth 0 r = Inr ([], r)"
| "decodeItems depth (Suc n) r =
     rbind (decodeValueBinary depth r) (\<lambda>(v, r).
       rbind (decodeItems depth n r) (\<lambda>(vs, r). Inr (v # vs, r)))"
| "decodeFields depth 0 previous d r = Inr (d, r)"
| "decodeFields depth (Suc n) previous d r =
     rbind (readString16 r) (\<lambda>(key, r).
       if \<not> validField key \<or> previous \<noteq> [] \<and> key \<le> previous then Inl ErrCorrupt
       else if map_of d key \<noteq> None then Inl ErrCorrupt
       else rbind (decodeValueBinary (depth + 1) r) (\<lambda>(v, r).
         decodeFields depth n key (map_put key v d) r))"
  by pat_completeness auto
termination
  by (relation "inv_image (less_than <*lex*> less_than)
      (\<lambda>x. case x of Inl (d, r) \<Rightarrow> (67 - d, 0)
        | Inr (Inl (d, n, r)) \<Rightarrow> (67 - d, n + 1)
        | Inr (Inr (d, n, p, m, r)) \<Rightarrow> (67 - d, n + 1))") auto

definition decodeObjectBinary :: "nat \<Rightarrow> bytes \<Rightarrow> db_error + Document \<times> bytes" where
  "decodeObjectBinary depth r =
     (if 64 < depth then Inl ErrCorrupt
      else rbind (with_error ErrCorrupt (readU32 r)) (\<lambda>(count, r).
        if 1000000 < count \<or> length r div 4 < unat count then Inl ErrCorrupt
        else decodeFields depth (unat count) [] [] r))"

definition decodeDocumentBinary :: "bytes \<Rightarrow> db_error + Document" where
  "decodeDocumentBinary data =
     (case decodeObjectBinary 0 data of
        Inl _ \<Rightarrow> Inl ErrCorrupt
      | Inr (d, r) \<Rightarrow> if r \<noteq> [] then Inl ErrCorrupt else Inr d)"

section \<open>Size\<close>

text \<open>
  The size is a \<open>uint64\<close> with the overflow tests of the source: \<open>- 1 - total\<close> is
  \<open>math.MaxUint64 - total\<close>. \<open>sizeItems\<close> and \<open>sizeFields\<close> are the loops.
\<close>

fun canonicalValueSize :: "nat \<Rightarrow> Value \<Rightarrow> db_error + uint64"
  and sizeItems :: "nat \<Rightarrow> uint64 \<Rightarrow> Value list \<Rightarrow> db_error + uint64"
  and sizeFields :: "nat \<Rightarrow> uint64 \<Rightarrow> Document \<Rightarrow> db_error + uint64" where
  "canonicalValueSize depth v =
     (if 64 < depth then Inl ErrInvalidDocument
      else case v of
          VNull \<Rightarrow> Inr 1
        | VBool _ \<Rightarrow> Inr 2
        | VInt _ \<Rightarrow> Inr 9
        | VTime _ \<Rightarrow> Inr 9
        | VFloat f \<Rightarrow> if math_IsNaN f \<or> math_IsInf f then Inl ErrInvalidDocument else Inr 9
        | VID _ \<Rightarrow> Inr 17
        | VString s \<Rightarrow>
            if \<not> utf8_Valid s \<or> MaxUint32 < length s then Inl ErrInvalidDocument
            else Inr (5 + of_nat (length s))
        | VBinary s \<Rightarrow>
            if MaxUint32 < length s then Inl ErrInvalidDocument else Inr (5 + of_nat (length s))
        | VObject obj \<Rightarrow>
            if 64 < depth + 1 \<or> MaxUint32 < length obj then Inl ErrInvalidDocument
            else rbind (sizeFields (depth + 1) 4 obj) (\<lambda>size. Inr (size + 1))
        | VArray arr \<Rightarrow>
            if MaxUint32 < length arr then Inl ErrInvalidDocument
            else sizeItems (depth + 1) 5 arr)"
| "sizeItems depth acc [] = Inr acc"
| "sizeItems depth acc (v # vs) =
     rbind (canonicalValueSize depth v) (\<lambda>size.
       if - 1 - acc < size then Inl ErrInvalidDocument else sizeItems depth (acc + size) vs)"
| "sizeFields depth acc [] = Inr acc"
| "sizeFields depth acc ((k, v) # d) =
     (if \<not> validField k then Inl ErrInvalidDocument
      else if MaxUint16 < length k then Inl ErrInvalidDocument
      else rbind (canonicalValueSize (depth + 1) v) (\<lambda>size.
        let add = of_nat (2 + length k)
        in if - 1 - acc < add \<or> - 1 - acc - add < size then Inl ErrInvalidDocument
           else sizeFields depth (acc + (add + size)) d))"

definition canonicalObjectSize :: "nat \<Rightarrow> Document \<Rightarrow> db_error + uint64" where
  "canonicalObjectSize depth d =
     (if 64 < depth \<or> MaxUint32 < length d then Inl ErrInvalidDocument else sizeFields depth 4 d)"

definition canonicalDocumentSize :: "Document \<Rightarrow> db_error + uint64" where
  "canonicalDocumentSize d = canonicalObjectSize 0 d"

declare encodeValueBinary.simps [simp del] decodeValueBinary.simps [simp del]
  canonicalValueSize.simps [simp del]

section \<open>The interface: self-delimiting codecs\<close>

text \<open>
  A codec whose decoder reads exactly what the encoder wrote and accepts nothing else. Both
  directions together make the encoding canonical: one byte string per value.
\<close>

locale prefix_codec =
  fixes valid :: "'a \<Rightarrow> bool"
    and enc :: "'a \<Rightarrow> 'e + bytes"
    and dec :: "bytes \<Rightarrow> 'f + 'a \<times> bytes"
  assumes dec_enc: "valid a \<Longrightarrow> enc a = Inr b \<Longrightarrow> dec (b @ r) = Inr (a, r)"
    and enc_dec: "dec bs = Inr (a, r) \<Longrightarrow> valid a \<and> (\<exists>b. enc a = Inr b \<and> bs = b @ r)"
begin

lemma enc_prefix_free:
  assumes "valid a" "valid c" "enc a = Inr x" "enc c = Inr y" "x @ s = y @ t"
  shows "a = c \<and> s = t"
  using dec_enc [OF assms(1,3), of s] dec_enc [OF assms(2,4), of t] assms(5) by simp

lemma dec_iff: "dec bs = Inr (a, r) \<longleftrightarrow> valid a \<and> (\<exists>b. enc a = Inr b \<and> bs = b @ r)"
  using dec_enc enc_dec by blast

end

lemma readU_append [simp, codec]:
  "readU16 (put16 a @ r) = Inr (a, r)"
  "readU32 (put32 b @ r) = Inr (b, r)"
  "readU64 (put64 c @ r) = Inr (c, r)"
  by (simp_all add: readU16_def readU32_def readU64_def)

lemma readU_Inr [simp]:
  "readU16 bs = Inr (a, r) \<longleftrightarrow> bs = put16 a @ r"
  "readU32 bs = Inr (b, r) \<longleftrightarrow> bs = put32 b @ r"
  "readU64 bs = Inr (c, r) \<longleftrightarrow> bs = put64 c @ r"
  by (auto simp: readU16_def readU32_def readU64_def put_get)

lemma length_u16: "n \<le> MaxUint16 \<Longrightarrow> unat (of_nat n :: uint16) = n"
  by (simp add: MaxUint16_def unat_of_nat)

lemma length_u32: "n \<le> MaxUint32 \<Longrightarrow> unat (of_nat n :: uint32) = n"
  by (simp add: MaxUint32_def unat_of_nat)

lemma unat_u16_bound: "unat (w :: uint16) \<le> MaxUint16"
  using unat_bound [of w] by (simp add: MaxUint16_def)

lemma unat_u32_bound: "unat (w :: uint32) \<le> MaxUint32"
  using unat_bound [of w] by (simp add: MaxUint32_def)

interpretation string16: prefix_codec "\<lambda>_. True" writeString16 readString16
proof
  fix a b r
  assume "writeString16 a = Inr b"
  then show "readString16 (b @ r) = Inr (a, r)"
    by (auto simp: writeString16_def readString16_def length_u16 not_less split: if_splits)
next
  fix bs a r
  assume "readString16 bs = Inr (a, r)"
  then obtain len where "bs = put16 len @ a @ r" "length a = unat len"
    by (auto simp: readString16_def)
  then show "True \<and> (\<exists>b. writeString16 a = Inr b \<and> bs = b @ r)"
    using unat_u16_bound [of len] by (simp add: writeString16_def not_less)
qed

interpretation bytes32: prefix_codec "\<lambda>s. length s \<le> unat m" writeBytes32 "readBytes32 m" for m
proof
  fix a b r
  assume m: "length a \<le> unat m" and "writeBytes32 a = Inr b"
  then have b: "b = put32 (of_nat (length a)) @ a" "length a \<le> MaxUint32"
    by (auto simp: writeBytes32_def split: if_splits)
  then have "unat (of_nat (length a) :: uint32) = length a" by (simp add: length_u32)
  then show "readBytes32 m (b @ r) = Inr (a, r)"
    unfolding b readBytes32_def append_assoc readU_append using m by (simp add: word_less_nat_alt)
next
  fix bs a r
  assume "readBytes32 m bs = Inr (a, r)"
  then obtain len where "bs = put32 len @ a @ r" "length a = unat len" "\<not> m < len"
    by (auto simp: readBytes32_def split: if_splits)
  then show "length a \<le> unat m \<and> (\<exists>b. writeBytes32 a = Inr b \<and> bs = b @ r)"
    using unat_u32_bound [of len] by (simp add: writeBytes32_def not_less word_le_nat_alt)
qed

section \<open>Decoding what was encoded\<close>

text \<open>Limits that the decoder enforces on top of what the encoder accepts.\<close>

fun node_decodable :: "Value \<Rightarrow> bool" where
  "node_decodable (VString s) = (length s \<le> 64 * 2 ^ 20)"
| "node_decodable (VBinary s) = (length s \<le> 64 * 2 ^ 20)"
| "node_decodable (VArray arr) = (length arr \<le> 10000000)"
| "node_decodable (VObject obj) = (length obj \<le> 1000000)"
| "node_decodable (VID i) = (\<not> IsZero i)"
| "node_decodable _ = True"

abbreviation decodable :: "Value \<Rightarrow> bool" where
  "decodable v \<equiv> value_all node_decodable v \<and> value_all node_valid v \<and> value_wf v"

lemma map_put_append: "\<forall>a \<in> fst ` set m. a < k \<Longrightarrow> map_put k v m = m @ [(k, v)]"
  by (induction m) auto

lemma length_encode:
  "encodeValueBinary depth v = Inr b \<Longrightarrow> 1 \<le> length b"
  "encodeItems depth vs = Inr b \<Longrightarrow> length vs \<le> length b"
  "list_all validField (map fst d) \<Longrightarrow> encodeFields depth d = Inr b \<Longrightarrow> 4 * length d \<le> length b"
proof (induction depth v and depth vs and depth d arbitrary: b and b and b
    rule: encodeValueBinary_encodeItems_encodeFields.induct)
  case (1 depth v)
  then show ?case by (auto simp: encodeValueBinary.simps split: Value.splits if_splits)
next
  case (3 depth v vs)
  then show ?case by fastforce
next
  case (5 depth k v d)
  then obtain a b' c where abc: "writeString16 k = Inr a" "encodeValueBinary (depth + 1) v = Inr b'"
    "encodeFields depth d = Inr c" "b = a @ b' @ c" by auto
  have "k \<noteq> []" using "5.prems"(1) by (auto simp: validField_def)
  then have "3 \<le> length a" using abc(1) by (cases k) (auto simp: writeString16_def split: if_splits)
  with 5 abc show ?case by fastforce
qed auto

lemma decode_array:
  assumes "depth \<le> 64" "length arr \<le> 10000000" "length arr \<le> length b"
    and "decodeItems (depth + 1) (length arr) (b @ r) = Inr (arr, r)"
  shows "decodeValueBinary depth (7 # put32 (of_nat (length arr)) @ b @ r) = Inr (VArray arr, r)"
proof -
  have "unat (of_nat (length arr) :: uint32) = length arr"
    using assms(2) by (intro length_u32) (simp add: MaxUint32_def)
  then show ?thesis
    using assms
    by (subst decodeValueBinary.simps) (simp add: word_less_nat_alt readU_append(2) del: readU_Inr)
qed

lemma decode_object:
  assumes "depth < 64" "length obj \<le> 1000000" "4 * length obj \<le> length b"
    and "decodeFields (depth + 1) (length obj) [] [] (b @ r) = Inr (obj, r)"
  shows "decodeValueBinary depth (8 # put32 (of_nat (length obj)) @ b @ r) = Inr (VObject obj, r)"
proof -
  have "unat (of_nat (length obj) :: uint32) = length obj"
    using assms(2) by (intro length_u32) (simp add: MaxUint32_def)
  moreover have "\<not> length (b @ r) div 4 < length obj" using assms(3) by simp
  ultimately show ?thesis
    using assms
    by (subst decodeValueBinary.simps) (simp add: word_less_nat_alt readU_append(2) del: readU_Inr length_append)
qed

lemma last_key_less:
  "sorted_map (e @ (k, v) # d) \<Longrightarrow> e \<noteq> [] \<Longrightarrow> fst (last e) < k"
  by (auto simp: sorted_map_append)

lemma sorted_append_absent: "sorted_map (e @ (k, v) # d) \<Longrightarrow> map_of e k = None"
  by (force simp: sorted_map_append map_of_eq_None_iff)

lemma decode_encode:
  "encodeValueBinary depth v = Inr b \<Longrightarrow> decodable v \<Longrightarrow> decodeValueBinary depth (b @ r) = Inr (v, r)"
  "encodeItems depth vs = Inr b \<Longrightarrow> \<forall>v \<in> set vs. decodable v \<Longrightarrow>
     decodeItems depth (length vs) (b @ r) = Inr (vs, r)"
  "encodeFields depth d = Inr b \<Longrightarrow> list_all validField (map fst d) \<Longrightarrow>
     \<forall>v \<in> snd ` set d. decodable v \<Longrightarrow> sorted_map (e @ d) \<Longrightarrow>
     decodeFields depth (length d) (if e = [] then [] else fst (last e)) e (b @ r) = Inr (e @ d, r)"
proof (induction depth v and depth vs and depth d arbitrary: b r and b r and b r e
    rule: encodeValueBinary_encodeItems_encodeFields.induct)
  case (1 depth v)
  have depth: "depth \<le> 64" using "1.prems"(1) by (auto simp: encodeValueBinary.simps split: if_splits)
  show ?case
  proof (cases v)
    case (VString s)
    then obtain b' where b': "writeBytes32 s = Inr b'" "b = 4 # b'"
      using 1 depth by (auto simp: encodeValueBinary.simps)
    have "readBytes32 (push_bit 20 64) (b' @ r) = Inr (s, r)"
      by (rule bytes32.dec_enc [OF _ b'(1)]) (use VString 1 in simp)
    then show ?thesis using VString 1 b' depth by (simp add: decodeValueBinary.simps)
  next
    case (VBinary s)
    then obtain b' where b': "writeBytes32 s = Inr b'" "b = 5 # b'"
      using 1 depth by (auto simp: encodeValueBinary.simps)
    have "readBytes32 (push_bit 20 64) (b' @ r) = Inr (s, r)"
      by (rule bytes32.dec_enc [OF _ b'(1)]) (use VBinary 1 in simp)
    then show ?thesis using VBinary 1 b' depth by (simp add: decodeValueBinary.simps)
  next
    case (VArray arr)
    then obtain b' where b': "encodeItems (depth + 1) arr = Inr b'" "b = 7 # put32 (of_nat (length arr)) @ b'"
      and len: "\<not> MaxUint32 < length arr"
      using "1.prems"(1) depth by (auto simp: encodeValueBinary.simps split: if_splits)
    have "decodeItems (depth + 1) (length arr) (b' @ r) = Inr (arr, r)"
      using "1.IH"(1) [OF _ VArray len b'(1)] depth "1.prems"(2) VArray by simp
    then show ?thesis
      using decode_array [OF depth, of arr b' r] length_encode(2) [OF b'(1)] "1.prems"(2) VArray b'(2) by simp
  next
    case (VObject obj)
    then obtain b' where b': "encodeFields (depth + 1) obj = Inr b'" "b = 8 # put32 (of_nat (length obj)) @ b'"
      and len: "\<not> (64 < depth + 1 \<or> MaxUint32 < length obj)" and names: "list_all validField (map fst obj)"
      using "1.prems"(1) depth by (auto simp: encodeValueBinary.simps split: if_splits)
    have "decodeFields (depth + 1) (length obj) [] [] (b' @ r) = Inr (obj, r)"
      using "1.IH"(2) [OF _ VObject len _ b'(1), of "[]" r] depth names "1.prems"(2) VObject by simp
    then show ?thesis
      using decode_object [of depth obj b' r] length_encode(3) [OF names b'(1)] "1.prems"(2) VObject b'(2) len
      by simp
  qed (use 1 depth in \<open>auto simp: encodeValueBinary.simps decodeValueBinary.simps split: if_splits\<close>)
next
  case (3 depth v vs)
  then show ?case by auto
next
  case (5 depth k v d)
  then obtain a b' c where abc: "writeString16 k = Inr a" "encodeValueBinary (depth + 1) v = Inr b'"
    "encodeFields depth d = Inr c" "b = a @ b' @ c" by auto
  have "readString16 (a @ b' @ c @ r) = Inr (k, b' @ c @ r)"
    by (rule string16.dec_enc [OF TrueI abc(1)])
  moreover have "decodeValueBinary (depth + 1) (b' @ c @ r) = Inr (v, c @ r)"
    using "5.IH"(1) [OF abc(1) abc(2)] "5.prems" by simp
  moreover have "map_put k v e = e @ [(k, v)]"
    using "5.prems"(4) by (intro map_put_append) (auto simp: sorted_map_append)
  moreover have "decodeFields depth (length d) k (e @ [(k, v)]) (c @ r) = Inr (e @ (k, v) # d, r)"
    using "5.IH"(2) [OF abc(1,2,3), of "e @ [(k, v)]" r] "5.prems" by simp
  ultimately show ?case
    using abc(4) "5.prems" last_key_less [OF "5.prems"(4)] sorted_append_absent [OF "5.prems"(4)]
    by auto
qed auto

section \<open>Encoding what was decoded\<close>

lemma sorted_map_snoc:
  assumes "sorted_map e" "e \<noteq> [] \<Longrightarrow> fst (last e) < k"
  shows "\<forall>a \<in> fst ` set e. a < k"
proof (cases e rule: rev_cases)
  case (snoc e' p)
  then have "\<forall>a \<in> fst ` set e'. a < fst p"
    using assms(1) by (cases p) (auto simp: sorted_map_append)
  then show ?thesis using snoc assms(2) by (auto intro: less_trans)
qed simp

lemma length_push: "unat (push_bit 20 64 :: uint32) = 64 * 2 ^ 20"
  by simp

lemma byte_le_1: "\<not> 1 < (b :: byte) \<Longrightarrow> b \<noteq> 1 \<Longrightarrow> b = 0"
proof -
  assume "\<not> 1 < b" "b \<noteq> 1"
  then have "unat b \<le> 1" "unat b \<noteq> 1" by (auto simp: word_less_nat_alt word_unat_eq_iff)
  then show "b = 0" by (simp add: word_unat_eq_iff)
qed

lemma tag_cases: "\<not> 9 < (tag :: byte) \<Longrightarrow> tag \<in> {0, 1, 2, 3, 4, 5, 6, 7, 8, 9}"
proof -
  assume "\<not> 9 < tag"
  then have "unat tag \<le> 9" by (simp add: word_less_nat_alt)
  then have "unat tag \<in> {0, 1, 2, 3, 4, 5, 6, 7, 8, 9}" by auto
  then show ?thesis by (simp add: word_unat_eq_iff)
qed

lemma encode_decode:
  "decodeValueBinary depth r = Inr (v, r') \<Longrightarrow>
     decodable v \<and> (\<exists>b. encodeValueBinary depth v = Inr b \<and> r = b @ r')"
  "decodeItems depth n r = Inr (vs, r') \<Longrightarrow>
     length vs = n \<and> (\<forall>v \<in> set vs. decodable v) \<and> (\<exists>b. encodeItems depth vs = Inr b \<and> r = b @ r')"
  "decodeFields depth n previous e r = Inr (e', r') \<Longrightarrow> sorted_map e \<Longrightarrow>
     previous = (if e = [] then [] else fst (last e)) \<Longrightarrow> (e \<noteq> [] \<longrightarrow> previous \<noteq> []) \<Longrightarrow>
     \<exists>d b. e' = e @ d \<and> sorted_map (e @ d) \<and> length d = n \<and> list_all validField (map fst d) \<and>
       (\<forall>v \<in> snd ` set d. decodable v) \<and> encodeFields depth d = Inr b \<and> r = b @ r'"
proof (induction depth r and depth n r and depth n previous e r arbitrary: v r' and vs r' and e' r'
    rule: decodeValueBinary_decodeItems_decodeFields.induct)
  case (1 depth r)
  have depth: "\<not> 64 < depth" using "1.prems" by (auto simp: decodeValueBinary.simps split: if_splits)
  obtain tag q where r: "r = tag # q" using "1.prems" depth by (cases r) (auto simp: decodeValueBinary.simps)
  have tag: "\<not> 9 < tag" using "1.prems" depth r by (auto simp: decodeValueBinary.simps split: if_splits)
  consider "tag = 4" | "tag = 5" | "tag = 7" | "tag = 8" | "tag \<notin> {4, 5, 7, 8}" by blast
  then show ?case
  proof cases
    case 1
    then obtain s where s: "readBytes32 (push_bit 20 64) q = Inr (s, r')" "utf8_Valid s" "v = VString s"
      using "1.prems" depth r by (auto simp: decodeValueBinary.simps split: if_splits)
    with bytes32.enc_dec [OF s(1)] depth r 1 show ?thesis
      by (auto simp: encodeValueBinary.simps)
  next
    case 2
    then obtain s where s: "readBytes32 (push_bit 20 64) q = Inr (s, r')" "v = VBinary s"
      using "1.prems" depth r by (auto simp: decodeValueBinary.simps split: if_splits)
    with bytes32.enc_dec [OF s(1)] depth r 2 show ?thesis
      by (auto simp: encodeValueBinary.simps)
  next
    case 3
    then obtain c p vs where c: "q = put32 c @ p" "\<not> (10000000 < c \<or> length p < unat c)"
      "decodeItems (depth + 1) (unat c) p = Inr (vs, r')" "v = VArray vs"
      using "1.prems" depth r by (auto simp: decodeValueBinary.simps split: if_splits)
    have "length vs = unat c \<and> (\<forall>v \<in> set vs. decodable v) \<and>
        (\<exists>b. encodeItems (depth + 1) vs = Inr b \<and> p = b @ r')"
      by (rule "1.IH"(1) [OF depth r tag _ _ _ _ _ _ _ _ _ _ refl c(2,3)]) (use 3 c(1) in simp_all)
    then show ?thesis
      using c depth r 3 unat_u32_bound [of c]
      by (auto simp: encodeValueBinary.simps word_less_nat_alt)
  next
    case 4
    then obtain c p d where c: "q = put32 c @ p" "\<not> (1000000 < c \<or> length p div 4 < unat c)"
      "decodeFields (depth + 1) (unat c) [] [] p = Inr (d, r')" "v = VObject d" "\<not> 64 < depth + 1"
      using "1.prems" depth r by (auto simp: decodeValueBinary.simps split: if_splits)
    have "\<exists>d' b. d = [] @ d' \<and> sorted_map ([] @ d') \<and> length d' = unat c \<and>
        list_all validField (map fst d') \<and> (\<forall>v \<in> snd ` set d'. decodable v) \<and>
        encodeFields (depth + 1) d' = Inr b \<and> p = b @ r'"
      by (rule "1.IH"(2) [OF depth r tag _ _ _ _ _ _ _ _ _ c(5) _ refl c(2,3)]) (use 4 c(1) in simp_all)
    then show ?thesis
      using c depth r 4 unat_u32_bound [of c]
      by (auto simp: encodeValueBinary.simps word_less_nat_alt list_all_iff)
  next
    case 5
    then have "tag = 0 \<or> tag = 1 \<or> tag = 2 \<or> tag = 3 \<or> tag = 6 \<or> tag = 9"
      using tag_cases [OF tag] by auto
    then show ?thesis
      using "1.prems" depth r
      by (elim disjE) (auto simp: decodeValueBinary.simps encodeValueBinary.simps dest: byte_le_1
          split: if_splits list.splits)
  qed
next
  case (3 depth n r)
  then show ?case by fastforce
next
  case (5 depth n previous e r)
  obtain key p v q where p: "readString16 r = Inr (key, p)" "validField key"
    "previous = [] \<or> previous < key" "map_of e key = None"
    "decodeValueBinary (depth + 1) p = Inr (v, q)"
    "decodeFields depth n key (map_put key v e) q = Inr (e', r')"
    using "5.prems"(1) by (auto simp: not_le split: if_splits)
  have "fst (last e) < key" if "e \<noteq> []" using that "5.prems"(3,4) p(3) by auto
  then have keys: "\<forall>a \<in> fst ` set e. a < key"
    using sorted_map_snoc "5.prems"(2) by blast
  then have put: "map_put key v e = e @ [(key, v)]" "sorted_map (e @ [(key, v)])"
    using map_put_append "5.prems"(2) by (auto simp: sorted_map_append)
  have guard: "\<not> (\<not> validField key \<or> previous \<noteq> [] \<and> key \<le> previous)" "\<not> map_of e key \<noteq> None"
    using p(2-4) by auto
  have v: "decodable v" "\<exists>b. encodeValueBinary (depth + 1) v = Inr b \<and> p = b @ q"
    using "5.IH"(1) [OF p(1) refl guard p(5)] by auto
  have "\<exists>d b. e' = map_put key v e @ d \<and> sorted_map (map_put key v e @ d) \<and> length d = n \<and>
      list_all validField (map fst d) \<and> (\<forall>v \<in> snd ` set d. decodable v) \<and>
      encodeFields depth d = Inr b \<and> q = b @ r'"
    by (rule "5.IH"(2) [OF p(1) refl guard p(5) refl p(6)])
      (use p put in \<open>auto simp: validField_def\<close>)
  then obtain d b where d: "e' = e @ (key, v) # d" "sorted_map (e @ (key, v) # d)" "length d = n"
    "list_all validField (map fst d)" "\<forall>v \<in> snd ` set d. decodable v"
    "encodeFields depth d = Inr b" "q = b @ r'"
    using put by auto
  moreover obtain a where "writeString16 key = Inr a" "r = a @ p"
    using string16.enc_dec [OF p(1)] by blast
  moreover obtain c where "encodeValueBinary (depth + 1) v = Inr c" "p = c @ q" using v(2) by blast
  ultimately have "encodeFields depth ((key, v) # d) = Inr (a @ c @ b)" "r = (a @ c @ b) @ r'" by simp_all
  with d v(1) p(2) show ?case
    by (intro exI [of _ "(key, v) # d"] exI [of _ "a @ c @ b"]) auto
qed auto

section \<open>Sizes\<close>

lemma writeString16_iff: "writeString16 k = Inr a \<longleftrightarrow> length k \<le> MaxUint16 \<and> a = put16 (of_nat (length k)) @ k"
  by (auto simp: writeString16_def)

lemma writeBytes32_iff: "writeBytes32 k = Inr a \<longleftrightarrow> length k \<le> MaxUint32 \<and> a = put32 (of_nat (length k)) @ k"
  by (auto simp: writeBytes32_def)

lemma size_encode:
  "canonicalValueSize depth v = Inr n \<Longrightarrow> value_wf v \<Longrightarrow>
     value_all node_valid v \<and> (\<exists>b. encodeValueBinary depth v = Inr b \<and> n = of_nat (length b))"
  "sizeItems depth acc vs = Inr n \<Longrightarrow> \<forall>v \<in> set vs. value_wf v \<Longrightarrow>
     (\<forall>v \<in> set vs. value_all node_valid v) \<and>
     (\<exists>b. encodeItems depth vs = Inr b \<and> n = acc + of_nat (length b))"
  "sizeFields depth acc d = Inr n \<Longrightarrow> \<forall>v \<in> snd ` set d. value_wf v \<Longrightarrow>
     (\<forall>v \<in> snd ` set d. value_all node_valid v) \<and> list_all validField (map fst d) \<and>
     (\<exists>b. encodeFields depth d = Inr b \<and> n = acc + of_nat (length b))"
proof (induction depth v and depth acc vs and depth acc d arbitrary: n and n and n
    rule: canonicalValueSize_sizeItems_sizeFields.induct)
  case (1 depth v)
  have depth: "\<not> 64 < depth" using "1.prems" by (auto simp: canonicalValueSize.simps split: if_splits)
  show ?case
  proof (cases v)
    case (VArray arr)
    then have n: "sizeItems (depth + 1) 5 arr = Inr n" and len: "\<not> MaxUint32 < length arr"
      using "1.prems" depth by (auto simp: canonicalValueSize.simps split: if_splits)
    obtain b where "encodeItems (depth + 1) arr = Inr b" "n = 5 + of_nat (length b)"
      "\<forall>v \<in> set arr. value_all node_valid v"
      using "1.IH"(1) [OF depth VArray len n] "1.prems"(2) VArray by auto
    moreover from this(1) have "encodeValueBinary depth v = Inr (7 # put32 (of_nat (length arr)) @ b)"
      using VArray depth len by (simp add: encodeValueBinary.simps)
    ultimately show ?thesis using VArray by simp
  next
    case (VObject obj)
    then obtain m where m: "sizeFields (depth + 1) 4 obj = Inr m" "n = m + 1"
      and len: "\<not> (64 < depth + 1 \<or> MaxUint32 < length obj)"
      using "1.prems" depth by (auto simp: canonicalValueSize.simps split: if_splits)
    obtain b where "encodeFields (depth + 1) obj = Inr b" "m = 4 + of_nat (length b)"
      "\<forall>v \<in> snd ` set obj. value_all node_valid v" "list_all validField (map fst obj)"
      using "1.IH"(2) [OF depth VObject len m(1)] "1.prems"(2) VObject by auto
    moreover from this(1,4) have "encodeValueBinary depth v = Inr (8 # put32 (of_nat (length obj)) @ b)"
      using VObject depth len by (simp add: encodeValueBinary.simps)
    ultimately show ?thesis using VObject m(2) by (simp add: list_all_iff)
  next
    case (VString s)
    then have "utf8_Valid s" "length s \<le> MaxUint32" "n = 5 + of_nat (length s)"
      using "1.prems" depth by (auto simp: canonicalValueSize.simps split: if_splits)
    then show ?thesis using VString depth by (simp add: encodeValueBinary.simps writeBytes32_def)
  next
    case (VBinary s)
    then have "length s \<le> MaxUint32" "n = 5 + of_nat (length s)"
      using "1.prems" depth by (auto simp: canonicalValueSize.simps split: if_splits)
    then show ?thesis using VBinary depth by (simp add: encodeValueBinary.simps writeBytes32_def)
  next
    case (VFloat f)
    then have "float_finite f" "n = 9"
      using "1.prems" depth by (auto simp: canonicalValueSize.simps split: if_splits)
    then show ?thesis using VFloat depth by (simp add: encodeValueBinary.simps)
  qed (use "1.prems" depth in \<open>simp_all add: canonicalValueSize.simps encodeValueBinary.simps\<close>)
next
  case (3 depth acc v vs)
  then obtain size where size: "canonicalValueSize depth v = Inr size" "\<not> - 1 - acc < size"
    "sizeItems depth (acc + size) vs = Inr n"
    by (auto split: if_splits)
  obtain b where "encodeValueBinary depth v = Inr b" "size = of_nat (length b)" "value_all node_valid v"
    using "3.IH"(1) [OF size(1)] "3.prems"(2) by auto
  moreover obtain c where "encodeItems depth vs = Inr c" "n = acc + size + of_nat (length c)"
    "\<forall>v \<in> set vs. value_all node_valid v"
    using "3.IH"(2) [OF size] "3.prems"(2) by auto
  ultimately show ?case by simp
next
  case (5 depth acc k v d)
  define add where "add = (of_nat (2 + length k) :: uint64)"
  obtain size where k: "validField k" "length k \<le> MaxUint16"
    and size: "canonicalValueSize (depth + 1) v = Inr size"
      "\<not> (- 1 - acc < add \<or> - 1 - acc - add < size)" "sizeFields depth (acc + (add + size)) d = Inr n"
    using "5.prems"(1) by (auto simp: Let_def add_def split: if_splits)
  obtain b where "encodeValueBinary (depth + 1) v = Inr b" "size = of_nat (length b)" "value_all node_valid v"
    using "5.IH"(1) [OF _ _ size(1)] k "5.prems"(2) by auto
  moreover obtain c where "encodeFields depth d = Inr c" "n = acc + (add + size) + of_nat (length c)"
    "\<forall>v \<in> snd ` set d. value_all node_valid v" "list_all validField (map fst d)"
    using "5.IH"(2) [OF _ _ size(1) add_def size(2,3)] k "5.prems"(2) by auto
  moreover have "writeString16 k = Inr (put16 (of_nat (length k)) @ k)"
    using k(2) by (simp add: writeString16_iff)
  ultimately show ?case using k(1) by (simp add: add_def)
qed auto

lemma no_overflow:
  fixes acc :: uint64
  assumes "unat acc + m < 2 ^ 64"
  shows "\<not> - 1 - acc < of_nat m" "unat (acc + of_nat m) = unat acc + m"
proof -
  have m: "unat (of_nat m :: uint64) = m" using assms by (simp add: unat_of_nat)
  have max: "unat (- 1 :: uint64) = 2 ^ 64 - 1"
    by (simp add: unsigned_minus_1_eq_mask mask_eq_exp_minus_1)
  then have "acc \<le> - 1" using unat_bound [of acc] by (simp add: word_le_nat_alt)
  then have "unat (- 1 - acc) = 2 ^ 64 - 1 - unat acc" using max by (simp add: unat_sub)
  then show "\<not> - 1 - acc < of_nat m" using assms m by (simp add: word_less_nat_alt)
  show "unat (acc + of_nat m) = unat acc + m" using assms m by (simp add: unat_word_ariths)
qed

lemma encode_size:
  "encodeValueBinary depth v = Inr b \<Longrightarrow> value_all node_valid v \<Longrightarrow> value_wf v \<Longrightarrow> length b < 2 ^ 64 \<Longrightarrow>
     canonicalValueSize depth v = Inr (of_nat (length b))"
  "encodeItems depth vs = Inr b \<Longrightarrow> \<forall>v \<in> set vs. value_all node_valid v \<and> value_wf v \<Longrightarrow>
     unat acc + length b < 2 ^ 64 \<Longrightarrow> sizeItems depth acc vs = Inr (acc + of_nat (length b))"
  "encodeFields depth d = Inr b \<Longrightarrow> list_all validField (map fst d) \<Longrightarrow>
     \<forall>v \<in> snd ` set d. value_all node_valid v \<and> value_wf v \<Longrightarrow>
     unat acc + length b < 2 ^ 64 \<Longrightarrow> sizeFields depth acc d = Inr (acc + of_nat (length b))"
proof (induction depth v and depth vs and depth d arbitrary: b and b acc and b acc
    rule: encodeValueBinary_encodeItems_encodeFields.induct)
  case (1 depth v)
  have depth: "\<not> 64 < depth" using "1.prems"(1) by (auto simp: encodeValueBinary.simps split: if_splits)
  show ?case
  proof (cases v)
    case (VArray arr)
    then obtain b' where b': "encodeItems (depth + 1) arr = Inr b'" "b = 7 # put32 (of_nat (length arr)) @ b'"
      and len: "\<not> MaxUint32 < length arr"
      using "1.prems"(1) depth by (auto simp: encodeValueBinary.simps split: if_splits)
    have "sizeItems (depth + 1) 5 arr = Inr (5 + of_nat (length b'))"
      using "1.IH"(1) [OF depth VArray len b'(1), of 5] "1.prems" VArray b'(2) by simp
    then show ?thesis using VArray depth len b'(2) by (simp add: canonicalValueSize.simps)
  next
    case (VObject obj)
    then obtain b' where b': "encodeFields (depth + 1) obj = Inr b'" "b = 8 # put32 (of_nat (length obj)) @ b'"
      and len: "\<not> (64 < depth + 1 \<or> MaxUint32 < length obj)" and names: "list_all validField (map fst obj)"
      using "1.prems"(1) depth by (auto simp: encodeValueBinary.simps split: if_splits)
    have "sizeFields (depth + 1) 4 obj = Inr (4 + of_nat (length b'))"
      using "1.IH"(2) [OF depth VObject len _ b'(1), of 4] names "1.prems" VObject b'(2) by simp
    then show ?thesis using VObject depth len b'(2) by (simp add: canonicalValueSize.simps)
  next
    case (VString s)
    then show ?thesis
      using "1.prems" depth by (auto simp: canonicalValueSize.simps encodeValueBinary.simps writeBytes32_iff)
  next
    case (VBinary s)
    then show ?thesis
      using "1.prems" depth by (auto simp: canonicalValueSize.simps encodeValueBinary.simps writeBytes32_iff)
  next
    case (VID x)
    then show ?thesis
      using "1.prems" depth by (auto simp: canonicalValueSize.simps encodeValueBinary.simps)
  qed (use "1.prems" depth in
      \<open>auto simp: canonicalValueSize.simps encodeValueBinary.simps split: if_splits\<close>)
next
  case (3 depth v vs)
  then obtain b' c where bc: "encodeValueBinary depth v = Inr b'" "encodeItems depth vs = Inr c" "b = b' @ c"
    by auto
  have "canonicalValueSize depth v = Inr (of_nat (length b'))"
    using "3.IH"(1) [OF bc(1)] "3.prems" bc(3) by simp
  moreover have "\<not> - 1 - acc < of_nat (length b')" "unat (acc + of_nat (length b')) = unat acc + length b'"
    using no_overflow [of acc "length b'"] "3.prems"(3) bc(3) by simp_all
  moreover from this(2) have "sizeItems depth (acc + of_nat (length b')) vs =
      Inr (acc + of_nat (length b') + of_nat (length c))"
    using "3.prems" bc by (intro "3.IH"(2) [OF bc(1,2)]) simp_all
  ultimately show ?case using bc(3) by simp
next
  case (5 depth k v d)
  then obtain a b' c where bc: "writeString16 k = Inr a" "encodeValueBinary (depth + 1) v = Inr b'"
    "encodeFields depth d = Inr c" "b = a @ b' @ c"
    by auto
  define m where "m = 2 + length k"
  have a: "length a = m" "length k \<le> MaxUint16" using bc(1) by (auto simp: writeString16_iff m_def)
  have s1: "canonicalValueSize (depth + 1) v = Inr (of_nat (length b'))"
    using "5.IH"(1) [OF bc(1,2)] "5.prems" bc(4) by simp
  have lim: "unat acc + m + length b' + length c < 2 ^ 64" using "5.prems"(4) bc(4) a(1) by simp
  have o1: "\<not> - 1 - acc < of_nat m" "unat (acc + of_nat m) = unat acc + m"
    using no_overflow [of acc m] lim by simp_all
  have o2: "\<not> - 1 - (acc + of_nat m) < of_nat (length b')"
    "unat (acc + of_nat m + of_nat (length b')) = unat acc + m + length b'"
    using no_overflow [of "acc + of_nat m" "length b'"] lim o1(2) by simp_all
  have "sizeFields depth (acc + of_nat m + of_nat (length b')) d =
      Inr (acc + of_nat m + of_nat (length b') + of_nat (length c))"
    using "5.prems" lim o2(2) by (intro "5.IH"(2) [OF bc(1,2,3)]) simp_all
  moreover have "sizeFields depth acc ((k, v) # d) =
      (if - 1 - acc < of_nat m \<or> - 1 - acc - of_nat m < of_nat (length b') then Inl ErrInvalidDocument
       else sizeFields depth (acc + (of_nat m + of_nat (length b'))) d)"
    unfolding m_def using s1 a(2) "5.prems"(2) by (simp add: Let_def)
  moreover have "- 1 - acc - of_nat m = - 1 - (acc + of_nat m :: uint64)" by simp
  moreover have "length b = m + length b' + length c" using bc(4) a(1) by simp
  ultimately show ?case using o1(1) o2(1) by (simp add: add.assoc)
qed auto

section \<open>Whole documents\<close>

lemma encode_height:
  "encodeValueBinary depth v = Inr b \<Longrightarrow> depth + height v \<le> 65"
  "encodeItems depth vs = Inr b \<Longrightarrow> \<forall>v \<in> set vs. depth + height v \<le> 65"
  "encodeFields depth d = Inr b \<Longrightarrow> \<forall>v \<in> snd ` set d. depth + 1 + height v \<le> 65"
proof (induction depth v and depth vs and depth d arbitrary: b and b and b
    rule: encodeValueBinary_encodeItems_encodeFields.induct)
  case (1 depth v)
  have depth: "\<not> 64 < depth" using "1.prems"(1) by (auto simp: encodeValueBinary.simps split: if_splits)
  show ?case
  proof (cases v)
    case (VArray arr)
    then obtain b' where "encodeItems (depth + 1) arr = Inr b'" "\<not> MaxUint32 < length arr"
      using "1.prems"(1) depth by (auto simp: encodeValueBinary.simps split: if_splits)
    then have "\<forall>v \<in> set arr. depth + 1 + height v \<le> 65" using "1.IH"(1) [OF depth VArray] by simp
    then have "foldr max (map height arr) 0 \<le> 64 - depth" by (auto simp: foldr_max_le)
    then show ?thesis using VArray depth by simp
  next
    case (VObject obj)
    then obtain b' where b': "encodeFields (depth + 1) obj = Inr b'"
      and len: "\<not> (64 < depth + 1 \<or> MaxUint32 < length obj)" and names: "list_all validField (map fst obj)"
      using "1.prems"(1) depth by (auto simp: encodeValueBinary.simps split: if_splits)
    then have "\<forall>v \<in> snd ` set obj. depth + 1 + 1 + height v \<le> 65"
      using "1.IH"(2) [OF depth VObject len _ b'] by simp
    then have "foldr max (map (\<lambda>(k, v). height v) obj) 0 \<le> 64 - depth"
      by (fastforce simp: foldr_max_le)
    then show ?thesis using VObject depth by simp
  qed (use depth in simp_all)
next
  case (5 depth k v d)
  then show ?case by fastforce
qed auto

lemma encodeObject_value:
  "encodeObjectBinary 0 d = Inr bs \<longleftrightarrow>
     length d \<le> MaxUint32 \<and> list_all validField (map fst d) \<and>
     (\<exists>b. encodeFields 0 d = Inr b \<and> bs = put32 (of_nat (length d)) @ b)"
  by (auto simp: encodeObjectBinary_def)

lemma put32_eq [simp]: "put32 a = put32 b \<longleftrightarrow> a = b"
  by (metis get_put(2))

lemma decodeObject_fields:
  "decodeObjectBinary 0 bs = Inr (d, r) \<longleftrightarrow>
     (\<exists>c p. bs = put32 c @ p \<and> \<not> (1000000 < c \<or> length p div 4 < unat c) \<and>
       decodeFields 0 (unat c) [] [] p = Inr (d, r))"
  by (auto simp: decodeObjectBinary_def)

abbreviation storable :: "Document \<Rightarrow> bool" where
  "storable d \<equiv> Validate d = Inr () \<and> value_wf (VObject d) \<and> value_all node_decodable (VObject d)"

interpretation object_codec: prefix_codec storable "encodeObjectBinary 0" "decodeObjectBinary 0"
proof
  fix d bs r
  assume d: "storable d" and "encodeObjectBinary 0 d = Inr bs"
  then obtain b where b: "encodeFields 0 d = Inr b"
    "list_all validField (map fst d)" "bs = put32 (of_nat (length d)) @ b"
    by (auto simp: encodeObject_value)
  have "decodeFields 0 (length d) [] [] (b @ r) = Inr ([] @ d, r)"
    using decode_encode(3) [OF b(1,2), of "[]" r] d by (simp add: Validate_iff)
  moreover have len: "length d \<le> 1000000" using d by simp
  moreover have "unat (of_nat (length d) :: uint32) = length d"
    using len by (intro length_u32) (simp add: MaxUint32_def)
  moreover have "\<not> length (b @ r) div 4 < length d" using length_encode(3) [OF b(2,1)] by simp
  ultimately show "decodeObjectBinary 0 (bs @ r) = Inr (d, r)"
    unfolding decodeObject_fields using b(3)
    by (intro exI [of _ "of_nat (length d)"] exI [of _ "b @ r"])
      (simp add: word_less_nat_alt del: length_append)
next
  fix bs d r
  assume "decodeObjectBinary 0 bs = Inr (d, r)"
  then obtain c p where c: "bs = put32 c @ p" "\<not> 1000000 < c" "decodeFields 0 (unat c) [] [] p = Inr (d, r)"
    by (auto simp: decodeObject_fields)
  obtain b where b: "sorted_map d" "length d = unat c" "list_all validField (map fst d)"
    "\<forall>v \<in> snd ` set d. decodable v" "encodeFields 0 d = Inr b" "p = b @ r"
    using encode_decode(3) [OF c(3)] by auto
  have "unat c \<le> 1000000" using c(2) by (simp add: word_less_nat_alt)
  then have "value_wf (VObject d)" "value_all node_decodable (VObject d)" using b by auto
  moreover have "height (VObject d) \<le> 65"
    using encode_height(3) [OF b(5)] by (fastforce simp: foldr_max_le)
  then have "Validate d = Inr ()" using b(3,4) by (auto simp: Validate_iff list_all_iff)
  moreover have "encodeObjectBinary 0 d = Inr (put32 c @ b)"
    using b unat_u32_bound [of c] by (simp add: encodeObject_value)
  ultimately show "storable d \<and> (\<exists>b. encodeObjectBinary 0 d = Inr b \<and> bs = b @ r)"
    using c(1) b(6) by simp
qed

lemma decodeDocument_iff: "decodeDocumentBinary bs = Inr d \<longleftrightarrow> decodeObjectBinary 0 bs = Inr (d, [])"
  by (auto simp: decodeDocumentBinary_def split: sum.splits if_splits)

lemma encodeDocument_iff:
  "encodeDocumentBinary d = Inr bs \<longleftrightarrow> Validate d = Inr () \<and> encodeObjectBinary 0 d = Inr bs"
  by (auto simp: encodeDocumentBinary_def)

lemma decodeDocument_encode:
  "decodeDocumentBinary bs = Inr d \<longleftrightarrow>
     encodeDocumentBinary d = Inr bs \<and> value_wf (VObject d) \<and> value_all node_decodable (VObject d)"
  using object_codec.dec_iff [of bs d "[]"] by (auto simp: decodeDocument_iff encodeDocument_iff)

lemma document_size_encode:
  assumes "canonicalDocumentSize d = Inr n" "value_wf (VObject d)"
  shows "\<exists>bs. encodeDocumentBinary d = Inr bs \<and> n = of_nat (length bs)"
proof -
  have len: "length d \<le> MaxUint32" and n: "sizeFields 0 4 d = Inr n"
    using assms(1) by (auto simp: canonicalDocumentSize_def canonicalObjectSize_def split: if_splits)
  obtain b where b: "encodeFields 0 d = Inr b" "n = 4 + of_nat (length b)"
    "\<forall>v \<in> snd ` set d. value_all node_valid v" "list_all validField (map fst d)"
    using size_encode(3) [OF n] assms(2) by auto
  have "height (VObject d) \<le> 65"
    using encode_height(3) [OF b(1)] by (fastforce simp: foldr_max_le)
  then have "Validate d = Inr ()" using b(3,4) by (auto simp: Validate_iff list_all_iff)
  then show ?thesis using b len by (simp add: encodeDocumentBinary_def encodeObject_value)
qed

lemma document_encode_size:
  assumes "encodeDocumentBinary d = Inr bs" "value_wf (VObject d)" "length bs < 2 ^ 64"
  shows "canonicalDocumentSize d = Inr (of_nat (length bs))"
proof -
  obtain b where val: "Validate d = Inr ()" and b: "encodeFields 0 d = Inr b"
    "list_all validField (map fst d)" "bs = put32 (of_nat (length d)) @ b" "length d \<le> MaxUint32"
    using assms(1) by (auto simp: encodeDocumentBinary_def encodeObject_value)
  have "sizeFields 0 4 d = Inr (4 + of_nat (length b))"
    using assms(2,3) val b(3) by (intro encode_size(3) [OF b(1,2)]) (simp_all add: Validate_iff)
  then show ?thesis using b by (simp add: canonicalDocumentSize_def canonicalObjectSize_def)
qed

section \<open>Properties\<close>

text \<open>
  C2 The codec is canonical: decoding accepts a byte string as the document
  \<open>d\<close> exactly when encoding \<open>d\<close> gives these very bytes and \<open>d\<close> is a well-formed document within the
  limits of the decoder. So every document has one encoding, every accepted input re-encodes to
  itself, and no other bytes are accepted.
\<close>

theorem document_codec_canonical:
  "decodeDocumentBinary bs = Inr d \<longleftrightarrow>
     encodeDocumentBinary d = Inr bs \<and> value_wf (VObject d) \<and> value_all node_decodable (VObject d)"
  by (rule decodeDocument_encode)





end
