(* ===== verification/Query_Delta.thy ===== *)
theory Query_Delta
  imports Value_Model
begin

text \<open>
  Deltas of ordered query results, \<open>internal/database/query_delta.go\<close>: the doubly linked result list with
  lookup by document ID, the construction of a delta from two results and its application by a client.

  A node of the linked list is addressed by its document ID: \<open>byID\<close> holds exactly the linked nodes, at most
  one per ID, so \<open>previous\<close> and \<open>next\<close> are IDs. A loop that follows \<open>next\<close> is a partial function, with
  \<open>None\<close> for not returning; the theorems show that it returns. The linked list refines the plain list of
  its documents (\<open>repr\<close>): every operation on \<open>repr xs\<close> gives \<open>repr\<close> of the edited list.
\<close>

section \<open>Linked result list\<close>

record queryDeltaNode =
  node_doc :: Document
  prev_id :: "DocumentID option"
  next_id :: "DocumentID option"

record queryDeltaList =
  head_id :: "DocumentID option"
  tail_id :: "DocumentID option"
  byID :: "DocumentID \<rightharpoonup> queryDeltaNode"

record QueryDeltaOperation =
  opKind :: string
  opDocumentID :: DocumentID
  opBeforeID :: DocumentID
  opDocument :: "Document option"

record QueryDelta =
  FromToken :: uint64
  Token :: uint64
  Operations :: "QueryDeltaOperation list"

record sharedQueryDelta =
  sh_token :: uint64
  sh_operations :: "QueryDeltaOperation list"

record QuerySnapshot =
  snapToken :: uint64
  Documents :: "Document list"

definition set_next :: "DocumentID \<Rightarrow> DocumentID option \<Rightarrow> (DocumentID \<rightharpoonup> queryDeltaNode) \<Rightarrow> (DocumentID \<rightharpoonup> queryDeltaNode)" where
  "set_next i p m = (case m i of None \<Rightarrow> m | Some n \<Rightarrow> m(i \<mapsto> n\<lparr>next_id := p\<rparr>))"

definition set_previous :: "DocumentID \<Rightarrow> DocumentID option \<Rightarrow> (DocumentID \<rightharpoonup> queryDeltaNode) \<Rightarrow> (DocumentID \<rightharpoonup> queryDeltaNode)" where
  "set_previous i p m = (case m i of None \<Rightarrow> m | Some n \<Rightarrow> m(i \<mapsto> n\<lparr>prev_id := p\<rparr>))"

definition list_remove :: "DocumentID \<Rightarrow> queryDeltaNode \<Rightarrow> queryDeltaList \<Rightarrow> queryDeltaList" where
  "list_remove i n l =
     (let l = (case prev_id n of
                 None \<Rightarrow> l\<lparr>head_id := next_id n\<rparr>
               | Some p \<Rightarrow> l\<lparr>byID := set_next p (next_id n) (byID l)\<rparr>);
          l = (case next_id n of
                 None \<Rightarrow> l\<lparr>tail_id := prev_id n\<rparr>
               | Some q \<Rightarrow> l\<lparr>byID := set_previous q (prev_id n) (byID l)\<rparr>)
      in l\<lparr>byID := (byID l)(i := None)\<rparr>)"

definition insertBefore :: "DocumentID \<Rightarrow> Document \<Rightarrow> DocumentID option \<Rightarrow> queryDeltaList \<Rightarrow> queryDeltaList" where
  "insertBefore i d anchor l =
     (case anchor of
        None \<Rightarrow>
          let n = \<lparr>node_doc = d, prev_id = tail_id l, next_id = None\<rparr>;
              l = (case tail_id l of
                     None \<Rightarrow> l\<lparr>head_id := Some i\<rparr>
                   | Some t \<Rightarrow> l\<lparr>byID := set_next t (Some i) (byID l)\<rparr>);
              l = l\<lparr>tail_id := Some i\<rparr>
          in l\<lparr>byID := (byID l)(i \<mapsto> n)\<rparr>
      | Some a \<Rightarrow>
          let before = (case byID l a of None \<Rightarrow> None | Some an \<Rightarrow> prev_id an);
              n = \<lparr>node_doc = d, prev_id = before, next_id = Some a\<rparr>;
              l = (case before of
                     None \<Rightarrow> l\<lparr>head_id := Some i\<rparr>
                   | Some p \<Rightarrow> l\<lparr>byID := set_next p (Some i) (byID l)\<rparr>);
              l = l\<lparr>byID := set_previous a (Some i) (byID l)\<rparr>
          in l\<lparr>byID := (byID l)(i \<mapsto> n)\<rparr>)"

definition empty_list :: queryDeltaList where
  "empty_list = \<lparr>head_id = None, tail_id = None, byID = Map.empty\<rparr>"

fun add_documents ::
  "queryDeltaList \<Rightarrow> (DocumentID \<rightharpoonup> Document) \<Rightarrow> Document list \<Rightarrow> db_error + queryDeltaList \<times> (DocumentID \<rightharpoonup> Document)" where
  "add_documents l docs [] = Inr (l, docs)"
| "add_documents l docs (d # ds) =
     (case Document_ID d of
        None \<Rightarrow> Inl ErrInvalidDelta
      | Some i \<Rightarrow>
          if IsZero i then Inl ErrInvalidDelta
          else if byID l i \<noteq> None then Inl ErrInvalidDelta
          else add_documents (insertBefore i d None l) (docs(i \<mapsto> d)) ds)"

definition newQueryDeltaList :: "Document list \<Rightarrow> db_error + queryDeltaList \<times> (DocumentID \<rightharpoonup> Document)" where
  "newQueryDeltaList ds = add_documents empty_list Map.empty ds"

section \<open>Construction of a delta\<close>

definition op_remove :: "DocumentID \<Rightarrow> QueryDeltaOperation" where
  "op_remove i = \<lparr>opKind = ''remove'', opDocumentID = i, opBeforeID = zeroID, opDocument = None\<rparr>"

definition op_add :: "DocumentID \<Rightarrow> DocumentID \<Rightarrow> Document \<Rightarrow> QueryDeltaOperation" where
  "op_add i b d = \<lparr>opKind = ''add_before'', opDocumentID = i, opBeforeID = b, opDocument = Some d\<rparr>"

definition op_move :: "DocumentID \<Rightarrow> DocumentID \<Rightarrow> QueryDeltaOperation" where
  "op_move i b = \<lparr>opKind = ''move_before'', opDocumentID = i, opBeforeID = b, opDocument = None\<rparr>"

definition op_change :: "DocumentID \<Rightarrow> Document \<Rightarrow> QueryDeltaOperation" where
  "op_change i d = \<lparr>opKind = ''change'', opDocumentID = i, opBeforeID = zeroID, opDocument = Some d\<rparr>"

fun same_order :: "Document list \<Rightarrow> Document list \<Rightarrow> QueryDeltaOperation list \<Rightarrow> db_error + QueryDeltaOperation list option" where
  "same_order (p # ps) (n # ns) ops =
     (case (Document_ID p, Document_ID n) of
        (Some pi, Some ni) \<Rightarrow>
          if IsZero pi \<or> IsZero ni then Inl ErrInvalidDelta
          else if pi \<noteq> ni then Inr None
          else same_order ps ns (if Document_Equal p n then ops else ops @ [op_change ni n])
      | _ \<Rightarrow> Inl ErrInvalidDelta)"
| "same_order _ _ ops = Inr (Some ops)"

partial_function (option) remove_missing ::
  "(DocumentID \<rightharpoonup> Document) \<Rightarrow> DocumentID option \<Rightarrow> queryDeltaList \<Rightarrow> QueryDeltaOperation list \<Rightarrow>
    (queryDeltaList \<times> QueryDeltaOperation list) option" where
  "remove_missing docs p l ops =
     (case p of
        None \<Rightarrow> Some (l, ops)
      | Some i \<Rightarrow>
          (case byID l i of
             None \<Rightarrow> None
           | Some n \<Rightarrow>
               let following = next_id n
               in if docs i = None then remove_missing docs following (list_remove i n l) (ops @ [op_remove i])
                  else remove_missing docs following l ops))"

definition anchor_id :: "DocumentID option \<Rightarrow> DocumentID" where
  "anchor_id a = (case a of None \<Rightarrow> zeroID | Some i \<Rightarrow> i)"

definition doc_id :: "Document \<Rightarrow> DocumentID" where
  "doc_id d = (case Document_ID d of None \<Rightarrow> zeroID | Some i \<Rightarrow> i)"

fun place_documents ::
  "(DocumentID \<rightharpoonup> Document) \<Rightarrow> Document list \<Rightarrow> queryDeltaList \<Rightarrow> DocumentID option \<Rightarrow> QueryDeltaOperation list \<Rightarrow>
    QueryDeltaOperation list" where
  "place_documents old [] l anchor ops = ops"
| "place_documents old (d # ds) l anchor ops =
     (let i = doc_id d;
          before = anchor_id anchor
      in case byID l i of
           None \<Rightarrow> place_documents old ds (insertBefore i d anchor l) (Some i) (ops @ [op_add i before d])
         | Some n \<Rightarrow>
             let (l, ops) = (if next_id n \<noteq> anchor
                             then (insertBefore i (node_doc n) anchor (list_remove i n l), ops @ [op_move i before])
                             else (l, ops));
                 unchanged = (case old i of None \<Rightarrow> False | Some o1 \<Rightarrow> Document_Equal o1 d)
             in place_documents old ds l (Some i) (if unchanged then ops else ops @ [op_change i d]))"

definition rebuild_delta :: "Document list \<Rightarrow> Document list \<Rightarrow> uint64 \<Rightarrow> (db_error + sharedQueryDelta) option" where
  "rebuild_delta previous following token =
     (case newQueryDeltaList previous of
        Inl e \<Rightarrow> Some (Inl e)
      | Inr (oldList, oldDocuments) \<Rightarrow>
          (case newQueryDeltaList following of
             Inl e \<Rightarrow> Some (Inl e)
           | Inr (_, nextDocuments) \<Rightarrow>
               (case remove_missing nextDocuments (head_id oldList) oldList [] of
                  None \<Rightarrow> None
                | Some (l, ops) \<Rightarrow>
                    Some (Inr \<lparr>sh_token = token,
                      sh_operations = place_documents oldDocuments (rev following) l None ops\<rparr>))))"

definition buildSharedQueryDelta :: "Document list \<Rightarrow> Document list \<Rightarrow> uint64 \<Rightarrow> (db_error + sharedQueryDelta) option" where
  "buildSharedQueryDelta previous following token =
     (if length previous = length following then
        case same_order previous following [] of
          Inl e \<Rightarrow> Some (Inl e)
        | Inr (Some ops) \<Rightarrow> Some (Inr \<lparr>sh_token = token, sh_operations = ops\<rparr>)
        | Inr None \<Rightarrow> rebuild_delta previous following token
      else rebuild_delta previous following token)"

definition cloneSharedQueryDelta :: "sharedQueryDelta \<Rightarrow> uint64 \<Rightarrow> QueryDelta" where
  "cloneSharedQueryDelta delta from =
     \<lparr>FromToken = from, Token = sh_token delta, Operations = sh_operations delta\<rparr>"

section \<open>Application of a delta\<close>

definition documentHasID :: "Document option \<Rightarrow> DocumentID \<Rightarrow> bool" where
  "documentHasID d expected \<longleftrightarrow>
     (case d of
        None \<Rightarrow> False
      | Some d1 \<Rightarrow>
          (case Document_ID d1 of
             None \<Rightarrow> False
           | Some i \<Rightarrow> \<not> IsZero i \<and> i = expected \<and> Validate d1 = Inr ()))"

definition find_anchor :: "QueryDeltaOperation \<Rightarrow> queryDeltaList \<Rightarrow> db_error + DocumentID option" where
  "find_anchor operation l =
     (if IsZero (opBeforeID operation) then Inr None
      else if byID l (opBeforeID operation) = None \<or> opBeforeID operation = opDocumentID operation
      then Inl ErrInvalidDelta
      else Inr (Some (opBeforeID operation)))"

definition apply_operation :: "QueryDeltaOperation \<Rightarrow> queryDeltaList \<Rightarrow> db_error + queryDeltaList" where
  "apply_operation operation l =
     (let i = opDocumentID operation
      in if IsZero i then Inl ErrInvalidDelta
         else rbind (find_anchor operation l)
           (\<lambda>anchor.
              if opKind operation = ''remove'' then
                (case byID l i of
                   None \<Rightarrow> Inl ErrInvalidDelta
                 | Some n \<Rightarrow>
                     if \<not> IsZero (opBeforeID operation) \<or> opDocument operation \<noteq> None then Inl ErrInvalidDelta
                     else Inr (list_remove i n l))
              else if opKind operation = ''add_before'' then
                (case opDocument operation of
                   Some d \<Rightarrow>
                     if byID l i \<noteq> None \<or> \<not> documentHasID (opDocument operation) i then Inl ErrInvalidDelta
                     else Inr (insertBefore i d anchor l)
                 | None \<Rightarrow> Inl ErrInvalidDelta)
              else if opKind operation = ''move_before'' then
                (case byID l i of
                   None \<Rightarrow> Inl ErrInvalidDelta
                 | Some n \<Rightarrow>
                     if opDocument operation \<noteq> None \<or> next_id n = anchor then Inl ErrInvalidDelta
                     else Inr (insertBefore i (node_doc n) anchor (list_remove i n l)))
              else if opKind operation = ''change'' then
                (case (byID l i, opDocument operation) of
                   (Some n, Some d) \<Rightarrow>
                     if \<not> IsZero (opBeforeID operation) \<or> \<not> documentHasID (opDocument operation) i
                     then Inl ErrInvalidDelta
                     else Inr (l\<lparr>byID := (byID l)(i \<mapsto> n\<lparr>node_doc := d\<rparr>)\<rparr>)
                 | _ \<Rightarrow> Inl ErrInvalidDelta)
              else Inl ErrInvalidDelta))"

fun apply_operations :: "QueryDeltaOperation list \<Rightarrow> queryDeltaList \<Rightarrow> db_error + queryDeltaList" where
  "apply_operations [] l = Inr l"
| "apply_operations (operation # ops) l = rbind (apply_operation operation l) (apply_operations ops)"

partial_function (option) list_documents :: "(DocumentID \<rightharpoonup> queryDeltaNode) \<Rightarrow> DocumentID option \<Rightarrow> Document list option" where
  "list_documents m p =
     (case p of
        None \<Rightarrow> Some []
      | Some i \<Rightarrow>
          (case m i of
             None \<Rightarrow> None
           | Some n \<Rightarrow> Option.bind (list_documents m (next_id n)) (\<lambda>ds. Some (node_doc n # ds))))"

definition ApplyQueryDelta :: "QuerySnapshot \<Rightarrow> QueryDelta \<Rightarrow> (db_error + QuerySnapshot) option" where
  "ApplyQueryDelta snapshot delta =
     (if FromToken delta \<noteq> snapToken snapshot \<or> Token delta \<le> FromToken delta \<or> Operations delta = []
      then Some (Inl ErrInvalidDelta)
      else case newQueryDeltaList (Documents snapshot) of
             Inl e \<Rightarrow> Some (Inl e)
           | Inr (l, _) \<Rightarrow>
               (case apply_operations (Operations delta) l of
                  Inl e \<Rightarrow> Some (Inl e)
                | Inr l \<Rightarrow>
                    Option.bind (list_documents (byID l) (head_id l))
                      (\<lambda>ds. Some (Inr \<lparr>snapToken = Token delta, Documents = ds\<rparr>))))"

section \<open>The linked list as a list\<close>

fun first_or :: "DocumentID option \<Rightarrow> (DocumentID \<times> Document) list \<Rightarrow> DocumentID option" where
  "first_or q [] = q"
| "first_or q ((i, d) # xs) = Some i"

fun last_or :: "DocumentID option \<Rightarrow> (DocumentID \<times> Document) list \<Rightarrow> DocumentID option" where
  "last_or p [] = p"
| "last_or p ((i, d) # xs) = last_or (Some i) xs"

fun links :: "DocumentID option \<Rightarrow> DocumentID option \<Rightarrow> (DocumentID \<times> Document) list \<Rightarrow> (DocumentID \<rightharpoonup> queryDeltaNode)" where
  "links p q [] = Map.empty"
| "links p q ((i, d) # xs) =
     (links (Some i) q xs)(i \<mapsto> \<lparr>node_doc = d, prev_id = p, next_id = first_or q xs\<rparr>)"

definition repr :: "(DocumentID \<times> Document) list \<Rightarrow> queryDeltaList" where
  "repr xs = \<lparr>head_id = first_or None xs, tail_id = last_or None xs, byID = links None None xs\<rparr>"

lemma dom_links [simp]: "dom (links p q xs) = fst ` set xs"
  by (induction p q xs rule: links.induct) (simp_all del: fun_upd_apply)

lemma links_None_iff:
  "links p q xs i = None \<longleftrightarrow> i \<notin> fst ` set xs"
  "None = links p q xs i \<longleftrightarrow> i \<notin> fst ` set xs"
  by (metis dom_links domIff)+

lemma links_SomeD: "links p q xs i = Some n \<Longrightarrow> i \<in> fst ` set xs"
  using dom_links [of p q xs] by blast

lemma first_or_append: "first_or q (xs @ ys) = first_or (first_or q ys) xs"
  by (cases xs) auto

lemma last_or_append: "last_or p (xs @ ys) = last_or (last_or p xs) ys"
  by (induction p xs rule: last_or.induct) auto

lemma links_append: "links p q (xs @ ys) = links (last_or p xs) q ys ++ links p (first_or q ys) xs"
  by (induction p q xs rule: links.induct) (simp_all add: first_or_append del: fun_upd_apply)

lemma last_or_snoc [simp]: "last_or p (xs @ [(i, d)]) = Some i"
  by (simp add: last_or_append)

lemma links_next:
  assumes "j \<notin> fst ` set xs"
  shows "set_next j q' (m ++ links p q (xs @ [(j, e)])) = m ++ links p q' (xs @ [(j, e)])"
  using assms
  by (auto simp: set_next_def links_append map_add_def links_None_iff fun_eq_iff dest: links_SomeD split: option.splits)

lemma links_previous:
  assumes "k \<notin> dom m"
  shows "set_previous k p' (links p q ((k, f) # ys) ++ m) = links p' q ((k, f) # ys) ++ m"
  using assms by (auto simp: set_previous_def map_add_def fun_eq_iff domIff split: option.splits)

lemma map_add_delete:
  "i \<notin> dom a \<Longrightarrow> i \<notin> dom b \<Longrightarrow> (a(i \<mapsto> n) ++ b)(i := None) = a ++ b"
  by (auto simp: map_add_def fun_eq_iff domIff split: option.splits)

lemma repr_lookup:
  assumes "i \<notin> fst ` set as"
  shows "byID (repr (as @ (i, d) # bs)) i =
    Some \<lparr>node_doc = d, prev_id = last_or None as, next_id = first_or None bs\<rparr>"
  using assms by (auto simp: repr_def links_append map_add_def links_None_iff dest: links_SomeD split: option.split)

lemma repr_absent: "byID (repr xs) i = None \<longleftrightarrow> i \<notin> fst ` set xs"
  by (simp add: repr_def links_None_iff)

lemma snoc_pair_cases [case_names Nil snoc]:
  "(xs = [] \<Longrightarrow> P) \<Longrightarrow> (\<And>ys i d. xs = ys @ [(i, d)] \<Longrightarrow> P) \<Longrightarrow> P"
  by (metis rev_exhaust surj_pair)

lemma repr_remove:
  assumes "distinct (map fst (as @ (i, d) # bs))"
  shows "list_remove i \<lparr>node_doc = d', prev_id = last_or None as, next_id = first_or None bs\<rparr>
    (repr (as @ (i, d) # bs)) = repr (as @ bs)"
proof -
  let ?n = "\<lparr>node_doc = d', prev_id = last_or None as, next_id = first_or None bs\<rparr>"
  let ?l = "repr (as @ (i, d) # bs)"
  let ?m1 = "(links (Some i) None bs)(i \<mapsto> \<lparr>node_doc = d, prev_id = last_or None as, next_id = first_or None bs\<rparr>)"
  have m: "byID ?l = ?m1 ++ links None (Some i) as"
    by (simp add: repr_def links_append)
  have one: "(case last_or None as of None \<Rightarrow> ?l\<lparr>head_id := first_or None bs\<rparr>
      | Some p \<Rightarrow> ?l\<lparr>byID := set_next p (first_or None bs) (byID ?l)\<rparr>) =
    \<lparr>head_id = first_or None (as @ bs), tail_id = tail_id ?l, byID = ?m1 ++ links None (first_or None bs) as\<rparr>"
  proof (cases as rule: snoc_pair_cases)
    case Nil
    then show ?thesis using m by (simp add: repr_def)
  next
    case (snoc ys j e)
    then have "j \<notin> fst ` set ys" using assms by auto
    then show ?thesis
      unfolding m using snoc by (simp add: links_next repr_def first_or_append)
  qed
  have two: "(case first_or None bs of None \<Rightarrow> l\<lparr>tail_id := last_or None as\<rparr>
      | Some q \<Rightarrow> l\<lparr>byID := set_previous q (last_or None as) (byID l)\<rparr>)\<lparr>byID := (byID
      (case first_or None bs of None \<Rightarrow> l\<lparr>tail_id := last_or None as\<rparr>
      | Some q \<Rightarrow> l\<lparr>byID := set_previous q (last_or None as) (byID l)\<rparr>))(i := None)\<rparr> = repr (as @ bs)"
    if l: "l = \<lparr>head_id = first_or None (as @ bs), tail_id = tail_id ?l, byID = ?m1 ++ links None (first_or None bs) as\<rparr>" for l
  proof (cases bs)
    case Nil
    then have "(?m1 ++ links None (first_or None bs) as)(i := None) = links None None as"
      using assms by (subst map_add_delete) auto
    then show ?thesis using Nil l by (simp add: repr_def)
  next
    case (Cons b cs)
    obtain k f where b: "b = (k, f)" by (cases b)
    have "?m1 ++ links None (Some k) as = links (Some i) None ((k, f) # cs) ++ (
        [i \<mapsto> \<lparr>node_doc = d, prev_id = last_or None as, next_id = Some k\<rparr>] ++ links None (Some k) as)"
      using Cons b assms by (auto simp: map_add_def fun_eq_iff dest: links_SomeD split: option.splits)
    then have "set_previous k (last_or None as) (?m1 ++ links None (Some k) as) =
        links (last_or None as) None ((k, f) # cs) ++ (
        [i \<mapsto> \<lparr>node_doc = d, prev_id = last_or None as, next_id = Some k\<rparr>] ++ links None (Some k) as)"
      using Cons b assms by (simp only:) (rule links_previous, auto simp: links_None_iff)
    moreover have "(links (last_or None as) None ((k, f) # cs) ++ (
        [i \<mapsto> \<lparr>node_doc = d, prev_id = last_or None as, next_id = Some k\<rparr>] ++ links None (Some k) as))(i := None) =
        links (last_or None as) None ((k, f) # cs) ++ links None (Some k) as"
      using Cons b assms
      by (auto simp: map_add_def fun_eq_iff links_None_iff dest: links_SomeD split: option.splits)
    ultimately show ?thesis
      using Cons b l by (simp add: repr_def links_append last_or_append first_or_append del: links.simps(2))
  qed
  show ?thesis
    unfolding list_remove_def Let_def queryDeltaNode.select_convs one by (rule two [OF refl])
qed

lemma repr_insert:
  assumes "distinct (map fst (as @ bs))" "i \<notin> fst ` set (as @ bs)"
  shows "insertBefore i d (first_or None bs) (repr (as @ bs)) = repr (as @ (i, d) # bs)"
proof (cases bs)
  case Nil
  show ?thesis
  proof (cases as rule: snoc_pair_cases)
    case Nil
    then show ?thesis using \<open>bs = []\<close> by (simp add: insertBefore_def repr_def)
  next
    case (snoc ys j e)
    then have "set_next j (Some i) (Map.empty ++ links None None as) = Map.empty ++ links None (Some i) as"
      using assms by (simp only:) (rule links_next, auto)
    moreover have "(links None (Some i) as)(i \<mapsto> n) = [i \<mapsto> n] ++ links None (Some i) as" for n
      using assms by (auto simp: map_add_def fun_eq_iff dest: links_SomeD split: option.splits)
    ultimately show ?thesis
      using \<open>bs = []\<close> snoc links_append [of None None as "[(i, d)]"]
      by (simp add: insertBefore_def repr_def first_or_append last_or_append del: links.simps(2)) simp
  qed
next
  case (Cons b cs)
  obtain k f where b: "b = (k, f)" by (cases b)
  have k: "byID (repr (as @ bs)) k = Some \<lparr>node_doc = f, prev_id = last_or None as, next_id = first_or None cs\<rparr>"
    using assms Cons b repr_lookup [of k as f cs] by auto
  let ?n = "\<lparr>node_doc = d, prev_id = last_or None as, next_id = Some k\<rparr>"
  let ?r = "repr (as @ bs)"
  have one: "(case last_or None as of None \<Rightarrow> ?r\<lparr>head_id := Some i\<rparr>
      | Some p \<Rightarrow> ?r\<lparr>byID := set_next p (Some i) (byID ?r)\<rparr>) =
    ?r\<lparr>head_id := first_or (Some i) as, byID := links (last_or None as) None bs ++ links None (Some i) as\<rparr>"
  proof (cases as rule: snoc_pair_cases)
    case Nil
    then show ?thesis by (simp add: repr_def)
  next
    case (snoc ys j e)
    then have "j \<notin> fst ` set ys" using assms by auto
    then show ?thesis
      using snoc Cons b links_append [of None None as bs]
      by (simp add: repr_def links_next first_or_append del: links.simps(2))
  qed
  have "set_previous k (Some i) (links (last_or None as) None bs ++ links None (Some i) as) =
      links (Some i) None bs ++ links None (Some i) as"
    using assms Cons b by (simp only:) (rule links_previous, auto)
  moreover have "(links (Some i) None bs ++ links None (Some i) as)(i \<mapsto> ?n) =
      links None None (as @ (i, d) # bs)"
    using assms Cons b by (auto simp: links_append map_add_def fun_eq_iff dest: links_SomeD split: option.splits)
  moreover have "first_or (Some i) as = first_or None (as @ (i, d) # bs)"
    by (simp add: first_or_append)
  moreover have "last_or None (as @ (i, d) # bs) = last_or None (as @ bs)"
    using Cons b by (simp add: last_or_append)
  moreover have f: "first_or None bs = Some k" using Cons b by simp
  ultimately show ?thesis
    unfolding insertBefore_def f option.case k queryDeltaNode.select_convs Let_def one
    by (simp add: repr_def del: links.simps(2))
qed

lemma repr_documents:
  "distinct (map fst (as @ bs)) \<Longrightarrow>
    list_documents (byID (repr (as @ bs))) (first_or None bs) = Some (map snd bs)"
proof (induction bs arbitrary: as)
  case Nil
  then show ?case by (simp add: list_documents.simps)
next
  case (Cons b bs)
  obtain i d where b: "b = (i, d)" by (cases b)
  have "list_documents (byID (repr ((as @ [b]) @ bs))) (first_or None bs) = Some (map snd bs)"
    by (rule Cons.IH) (use Cons.prems in simp)
  then show ?case
    using b Cons.prems repr_lookup [of i as d bs] by (subst list_documents.simps) simp
qed

lemma repr_change:
  assumes "i \<notin> fst ` set as"
  shows "(repr (as @ (i, e) # bs))\<lparr>byID := (byID (repr (as @ (i, e) # bs)))
      (i \<mapsto> \<lparr>node_doc = d, prev_id = last_or None as, next_id = first_or None bs\<rparr>)\<rparr> =
    repr (as @ (i, d) # bs)"
proof -
  have "first_or None (as @ (i, e) # bs) = first_or None (as @ (i, d) # bs)"
    "last_or None (as @ (i, e) # bs) = last_or None (as @ (i, d) # bs)"
    by (simp_all add: first_or_append last_or_append)
  then show ?thesis
    using assms by (auto simp: repr_def links_append map_add_def fun_eq_iff dest: links_SomeD split: option.splits)
qed

section \<open>Construction and application agree\<close>

definition tagged :: "Document list \<Rightarrow> (DocumentID \<times> Document) list" where
  "tagged ds = map (\<lambda>d. (doc_id d, d)) ds"

definition ids_ok :: "Document list \<Rightarrow> bool" where
  "ids_ok ds \<longleftrightarrow> (\<forall>d \<in> set ds. Document_ID d \<noteq> None \<and> \<not> IsZero (doc_id d)) \<and> distinct (map doc_id ds)"

lemma tagged_simps [simp]:
  "tagged [] = []" "tagged (d # ds) = (doc_id d, d) # tagged ds"
  "tagged (as @ bs) = tagged as @ tagged bs"
  "map fst (tagged ds) = map doc_id ds" "map snd (tagged ds) = ds" "fst ` set (tagged ds) = doc_id ` set ds"
  by (simp_all add: tagged_def image_image comp_def)

lemma Document_ID_doc_id: "Document_ID d \<noteq> None \<Longrightarrow> Document_ID d = Some (doc_id d)"
  by (auto simp: doc_id_def)

lemma map_of_snoc: "k \<notin> fst ` set xs \<Longrightarrow> map_of (xs @ [(k, v)]) = (map_of xs)(k \<mapsto> v)"
  by (induction xs) (auto simp: fun_eq_iff)

lemma add_documents_repr:
  assumes "ids_ok (ds @ es)"
  shows "add_documents (repr (tagged ds)) (map_of (tagged ds)) es =
    Inr (repr (tagged (ds @ es)), map_of (tagged (ds @ es)))"
  using assms
proof (induction es arbitrary: ds)
  case (Cons e es)
  then have e: "Document_ID e = Some (doc_id e)" "\<not> IsZero (doc_id e)" "doc_id e \<notin> doc_id ` set ds"
    "distinct (map doc_id ds)"
    by (auto simp: ids_ok_def doc_id_def)
  then have "insertBefore (doc_id e) e None (repr (tagged ds)) = repr (tagged (ds @ [e]))"
    using repr_insert [of "tagged ds" "[]" "doc_id e" e] by simp
  moreover have "(map_of (tagged ds))(doc_id e \<mapsto> e) = map_of (tagged (ds @ [e]))"
    using e map_of_snoc [of "doc_id e" "tagged ds" e] by simp
  moreover have "add_documents (repr (tagged (ds @ [e]))) (map_of (tagged (ds @ [e]))) es =
      Inr (repr (tagged (ds @ e # es)), map_of (tagged (ds @ e # es)))"
    using Cons.IH [of "ds @ [e]"] Cons.prems by simp
  ultimately show ?case
    using e repr_absent [of "tagged ds" "doc_id e"] by (simp del: tagged_simps(3) map_of_append)
qed simp

lemma newQueryDeltaList_repr:
  "ids_ok ds \<Longrightarrow> newQueryDeltaList ds = Inr (repr (tagged ds), map_of (tagged ds))"
  using add_documents_repr [of "[]" ds] by (simp add: newQueryDeltaList_def empty_list_def repr_def)

lemma remove_missing_repr:
  "distinct (map fst (as @ bs)) \<Longrightarrow>
    remove_missing docs (first_or None bs) (repr (as @ bs)) ops =
      Some (repr (as @ filter (\<lambda>p. docs (fst p) \<noteq> None) bs),
            ops @ map (op_remove \<circ> fst) (filter (\<lambda>p. docs (fst p) = None) bs))"
proof (induction bs arbitrary: as ops)
  case Nil
  then show ?case by (simp add: remove_missing.simps)
next
  case (Cons b bs)
  obtain i d where b: "b = (i, d)" by (cases b)
  have l: "byID (repr (as @ (i, d) # bs)) i =
      Some \<lparr>node_doc = d, prev_id = last_or None as, next_id = first_or None bs\<rparr>"
    using Cons.prems b by (intro repr_lookup) auto
  show ?case
  proof (cases "docs i = None")
    case True
    then show ?thesis
      using l b Cons.prems Cons.IH [of as "ops @ [op_remove i]"] repr_remove [of as i d bs d]
      by (subst remove_missing.simps) simp
  next
    case False
    then show ?thesis
      using l b Cons.prems Cons.IH [of "as @ [b]" ops] by (subst remove_missing.simps) (auto simp: Let_def comp_def)
  qed
qed

lemma apply_operations_append:
  "apply_operations (xs @ ys) l = rbind (apply_operations xs l) (apply_operations ys)"
  by (induction xs arbitrary: l) (auto simp: rbind_def split: sum.splits)

lemma IsZero_zeroID [simp]: "IsZero zeroID"
  by (simp add: IsZero_def)

lemma apply_remove:
  assumes "distinct (map fst (as @ (i, d) # bs))" "\<not> IsZero i"
  shows "apply_operation (op_remove i) (repr (as @ (i, d) # bs)) = Inr (repr (as @ bs))"
  using assms repr_lookup [of i as d bs] repr_remove [OF assms(1)]
  by (simp add: apply_operation_def op_remove_def find_anchor_def)

lemma apply_change:
  assumes "distinct (map fst (as @ (i, e) # bs))" "documentHasID (Some d) i" "\<not> IsZero i"
  shows "apply_operation (op_change i d) (repr (as @ (i, e) # bs)) = Inr (repr (as @ (i, d) # bs))"
  using assms repr_lookup [of i as e bs] repr_change [of i as e bs d]
  by (simp add: apply_operation_def op_change_def find_anchor_def)

lemma find_anchor_repr:
  assumes "\<forall>p \<in> set bs. \<not> IsZero (fst p)" "opBeforeID o1 = anchor_id (first_or None bs)"
    "opDocumentID o1 \<notin> fst ` set bs"
  shows "find_anchor o1 (repr (as @ bs)) = Inr (first_or None bs)"
proof (cases bs)
  case Nil
  then show ?thesis using assms by (simp add: find_anchor_def anchor_id_def)
next
  case (Cons b cs)
  obtain k f where "b = (k, f)" by (cases b)
  then show ?thesis
    using assms Cons repr_absent [of "as @ bs" k] by (auto simp: find_anchor_def anchor_id_def)
qed

lemma apply_add:
  assumes "distinct (map fst (as @ bs))" "i \<notin> fst ` set (as @ bs)" "documentHasID (Some d) i" "\<not> IsZero i"
    "\<forall>p \<in> set bs. \<not> IsZero (fst p)"
  shows "apply_operation (op_add i (anchor_id (first_or None bs)) d) (repr (as @ bs)) = Inr (repr (as @ (i, d) # bs))"
proof -
  have "find_anchor (op_add i (anchor_id (first_or None bs)) d) (repr (as @ bs)) = Inr (first_or None bs)"
    by (rule find_anchor_repr) (use assms in \<open>auto simp: op_add_def\<close>)
  moreover have "byID (repr (as @ bs)) i = None" using assms(2) by (simp add: repr_absent)
  ultimately show ?thesis
    using assms(3,4) repr_insert [OF assms(1,2), of d] by (simp add: apply_operation_def op_add_def)
qed

lemma first_or_inside: "xs \<noteq> [] \<Longrightarrow> \<exists>i \<in> fst ` set xs. first_or q xs = Some i"
  by (cases xs) auto

lemma moved_next:
  assumes "distinct (map fst (as @ (i, e) # cs @ bs))"
  shows "first_or None (cs @ bs) = first_or None bs \<longleftrightarrow> cs = []"
proof (cases "cs = []")
  case False
  then obtain j where "j \<in> fst ` set cs" "first_or None (cs @ bs) = Some j"
    using first_or_inside [of cs "first_or None bs"] by (auto simp: first_or_append)
  moreover have "first_or None bs = Some k \<Longrightarrow> k \<in> fst ` set bs" for k
    using first_or_inside [of bs None] by (cases "bs = []") auto
  ultimately show ?thesis using assms False by auto
qed simp

lemma repr_move:
  assumes "distinct (map fst (as @ (i, e) # cs @ bs))"
  shows "insertBefore i e (first_or None bs)
      (list_remove i \<lparr>node_doc = e, prev_id = last_or None as, next_id = first_or None (cs @ bs)\<rparr>
        (repr (as @ (i, e) # cs @ bs))) = repr ((as @ cs) @ (i, e) # bs)"
proof -
  have "list_remove i \<lparr>node_doc = e, prev_id = last_or None as, next_id = first_or None (cs @ bs)\<rparr>
      (repr (as @ (i, e) # cs @ bs)) = repr ((as @ cs) @ bs)"
    using repr_remove [OF assms] by simp
  moreover have "insertBefore i e (first_or None bs) (repr ((as @ cs) @ bs)) = repr ((as @ cs) @ (i, e) # bs)"
    by (rule repr_insert) (use assms in auto)
  ultimately show ?thesis by simp
qed

lemma apply_move:
  assumes "distinct (map fst (as @ (i, e) # cs @ bs))" "cs \<noteq> []" "\<not> IsZero i" "\<forall>p \<in> set bs. \<not> IsZero (fst p)"
  shows "apply_operation (op_move i (anchor_id (first_or None bs))) (repr (as @ (i, e) # cs @ bs)) =
    Inr (repr ((as @ cs) @ (i, e) # bs))"
proof -
  have "find_anchor (op_move i (anchor_id (first_or None bs))) (repr ((as @ (i, e) # cs) @ bs)) = Inr (first_or None bs)"
    by (rule find_anchor_repr) (use assms in \<open>auto simp: op_move_def\<close>)
  then show ?thesis
    using assms repr_lookup [of i as e "cs @ bs"] moved_next [OF assms(1)] repr_move [OF assms(1)]
    by (simp add: apply_operation_def op_move_def)
qed

lemma apply_removals:
  "distinct (map fst (as @ bs)) \<Longrightarrow> \<forall>p \<in> set bs. \<not> IsZero (fst p) \<Longrightarrow>
    apply_operations (map (op_remove \<circ> fst) (filter (\<lambda>p. docs (fst p) = None) bs)) (repr (as @ bs)) =
      Inr (repr (as @ filter (\<lambda>p. docs (fst p) \<noteq> None) bs))"
proof (induction bs arbitrary: as)
  case (Cons b bs)
  obtain i d where b: "b = (i, d)" by (cases b)
  show ?case
  proof (cases "docs i = None")
    case True
    then show ?thesis
      using b Cons.prems Cons.IH [of as] apply_remove [of as i d bs] by simp
  next
    case False
    then show ?thesis using b Cons.prems Cons.IH [of "as @ [b]"] by auto
  qed
qed simp

text \<open>A document of the client is the new one, or an old one that is \<open>Equal\<close> to it.\<close>

definition current :: "Document \<Rightarrow> Document \<Rightarrow> bool" where
  "current d e \<longleftrightarrow> d = e \<or> Document_Equal d e"

definition placed :: "DocumentID \<times> Document \<Rightarrow> Document \<Rightarrow> bool" where
  "placed p d \<longleftrightarrow> fst p = doc_id d \<and> current (snd p) d"

definition deliverable :: "Document \<Rightarrow> bool" where
  "deliverable d \<longleftrightarrow> documentHasID (Some d) (doc_id d)"

lemma deliverable_nonzero: "deliverable d \<Longrightarrow> \<not> IsZero (doc_id d)" "deliverable d \<Longrightarrow> Document_ID d \<noteq> None"
  by (auto simp: deliverable_def documentHasID_def split: option.splits)

lemma current_refl [simp]: "current d d"
  by (simp add: current_def)

lemma apply_if_changed:
  assumes "distinct (map fst (as @ (i, e) # bs))" "deliverable d" "i = doc_id d"
  shows "\<exists>f. apply_operations (if Document_Equal e d then [] else [op_change i d]) (repr (as @ (i, e) # bs)) =
    Inr (repr (as @ (i, f) # bs)) \<and> current f d"
proof (cases "Document_Equal e d")
  case True
  then show ?thesis by (auto simp: current_def)
next
  case False
  then show ?thesis
    using apply_change [OF assms(1), of d] deliverable_nonzero [OF assms(2)] assms
    by (intro exI [of _ d]) (simp add: deliverable_def)
qed

lemma split_at_key:
  assumes "i \<in> fst ` set xs" "map fst ys = map fst xs"
  obtains as e bs as' e' bs' where "xs = as @ (i, e) # bs" "ys = as' @ (i, e') # bs'"
    "map fst as' = map fst as" "map fst bs' = map fst bs"
proof -
  obtain e where "(i, e) \<in> set xs" using assms(1) by force
  then obtain as bs where xs: "xs = as @ (i, e) # bs" by (meson split_list)
  then obtain as' b bs' where "ys = as' @ b # bs'" "map fst as' = map fst as" "fst b = i" "map fst bs' = map fst bs"
    using assms(2) by (auto simp: map_eq_append_conv map_eq_Cons_conv)
  then show ?thesis using that [of as e bs as' "snd b" bs'] xs by (cases b) simp
qed

lemma map_fst_eq_set: "map fst ys = map fst xs \<Longrightarrow> fst ` set ys = fst ` set xs"
  by (metis list.set_map)

lemma first_or_fst: "map fst ys = map fst xs \<Longrightarrow> first_or q ys = first_or q xs"
  by (cases xs; cases ys; auto)

lemma place_apply:
  assumes "\<forall>d \<in> set ds. deliverable d" "distinct (map doc_id ds)"
    and "distinct (map fst (rest @ marks))" "\<forall>p \<in> set marks. \<not> IsZero (fst p)"
    and "doc_id ` set ds \<inter> fst ` set marks = {}" "fst ` set rest \<subseteq> doc_id ` set ds"
    and "map fst rest' = map fst rest" "map fst marks' = map fst marks"
    and "\<forall>(i, e) \<in> set rest'. old i = Some e"
  shows "\<exists>ops' zs. place_documents old ds (repr (rest @ marks)) (first_or None marks) ops = ops @ ops' \<and>
    apply_operations ops' (repr (rest' @ marks')) = Inr (repr (zs @ marks')) \<and> list_all2 placed zs (rev ds)"
  using assms
proof (induction ds arbitrary: rest marks rest' marks' ops)
  case Nil
  then show ?case by auto
next
  case (Cons d ds)
  let ?i = "doc_id d"
  have i: "?i \<notin> fst ` set marks" "\<not> IsZero ?i" "deliverable d" "?i \<notin> doc_id ` set ds"
    using Cons.prems deliverable_nonzero by auto
  have marks': "fst ` set marks' = fst ` set marks" "first_or None marks' = first_or None marks"
    using map_fst_eq_set [OF Cons.prems(8)] first_or_fst [OF Cons.prems(8)] by blast+
  have rest': "fst ` set rest' = fst ` set rest" using Cons.prems(7) by (rule map_fst_eq_set)
  have dist': "distinct (map fst (rest' @ marks'))" using Cons.prems(3,7,8) by simp
  have "\<forall>j \<in> fst ` set marks'. \<not> IsZero j" unfolding marks'(1) using Cons.prems(4) by simp
  then have nz': "\<forall>p \<in> set marks'. \<not> IsZero (fst p)" by simp
  show ?case
  proof (cases "?i \<in> fst ` set rest")
    case False
    then have sub: "fst ` set rest \<subseteq> doc_id ` set ds"
      using Cons.prems(6) by (simp add: subset_insert)
    have absent: "?i \<notin> fst ` set (rest @ marks)" using i False by auto
    have l: "insertBefore ?i d (first_or None marks) (repr (rest @ marks)) = repr (rest @ (?i, d) # marks)"
      using Cons.prems(3) absent by (rule repr_insert)
    have "\<exists>ops' zs. place_documents old ds (repr (rest @ (?i, d) # marks)) (first_or None ((?i, d) # marks))
        (ops @ [op_add ?i (anchor_id (first_or None marks)) d]) =
        (ops @ [op_add ?i (anchor_id (first_or None marks)) d]) @ ops' \<and>
      apply_operations ops' (repr (rest' @ (?i, d) # marks')) = Inr (repr (zs @ (?i, d) # marks')) \<and>
      list_all2 placed zs (rev ds)"
      by (rule Cons.IH) (use Cons.prems i absent sub in auto)
    then obtain ops' zs where r: "place_documents old ds (repr (rest @ (?i, d) # marks)) (Some ?i)
        (ops @ [op_add ?i (anchor_id (first_or None marks)) d]) =
        ops @ op_add ?i (anchor_id (first_or None marks)) d # ops'"
      "apply_operations ops' (repr (rest' @ (?i, d) # marks')) = Inr (repr (zs @ (?i, d) # marks'))"
      "list_all2 placed zs (rev ds)"
      by auto
    have "apply_operation (op_add ?i (anchor_id (first_or None marks)) d) (repr (rest' @ marks')) =
        Inr (repr (rest' @ (?i, d) # marks'))"
      using apply_add [OF dist', of ?i d] i nz' absent marks' rest' by (simp add: deliverable_def image_Un)
    moreover have "list_all2 placed (zs @ [(?i, d)]) (rev ds @ [d])"
      using r(3) by (rule list_all2_appendI) (simp add: placed_def)
    ultimately show ?thesis
      using r l absent
      by (intro exI [of _ "op_add ?i (anchor_id (first_or None marks)) d # ops'"] exI [of _ "zs @ [(?i, d)]"])
        (simp add: Let_def repr_absent [THEN iffD2])
  next
    case True
    from this Cons.prems(7) obtain as e cs as' e' cs' where
      sp: "rest = as @ (?i, e) # cs" "rest' = as' @ (?i, e') # cs'" "map fst as' = map fst as" "map fst cs' = map fst cs"
      by (rule split_at_key)
    have n: "byID (repr (rest @ marks)) ?i =
        Some \<lparr>node_doc = e, prev_id = last_or None as, next_id = first_or None (cs @ marks)\<rparr>"
      using sp Cons.prems(3) repr_lookup [of ?i as e "cs @ marks"] by simp
    have nx: "first_or None (cs @ marks) = first_or None marks \<longleftrightarrow> cs = []"
      using moved_next [of as ?i e cs marks] Cons.prems(3) sp by simp
    have sub: "fst ` set (as @ cs) \<subseteq> doc_id ` set ds"
      using Cons.prems(3,6) sp(1) by (simp add: subset_insert image_Un)
    define mv where "mv = (if cs = [] then [] else [op_move ?i (anchor_id (first_or None marks))])"
    define ch where "ch = (if Document_Equal e' d then [] else [op_change ?i d])"
    have o1: "old ?i = Some e'" using Cons.prems(9) sp by auto
    have step: "place_documents old (d # ds) (repr (rest @ marks)) (first_or None marks) ops =
        place_documents old ds (repr ((as @ cs) @ (?i, e) # marks)) (Some ?i) (ops @ mv @ ch)"
      using n nx o1 sp repr_move [of as ?i e cs marks] Cons.prems(3)
      by (simp add: Let_def mv_def ch_def)
    have "cs' = [] \<longleftrightarrow> cs = []" using arg_cong [OF sp(4), of length] by auto
    then have "apply_operations mv (repr (rest' @ marks')) = Inr (repr ((as' @ cs') @ (?i, e') # marks'))"
      using apply_move [of as' ?i e' cs' marks'] dist' sp i nz' marks'(2) by (auto simp: mv_def)
    moreover have "\<exists>f. apply_operations ch (repr ((as' @ cs') @ (?i, e') # marks')) =
        Inr (repr ((as' @ cs') @ (?i, f) # marks')) \<and> current f d"
      unfolding ch_def by (rule apply_if_changed) (use dist' sp i in auto)
    ultimately obtain f where ap: "apply_operations (mv @ ch) (repr (rest' @ marks')) =
        Inr (repr ((as' @ cs') @ (?i, f) # marks'))" "current f d"
      by (auto simp: apply_operations_append)
    have "\<exists>ops' zs. place_documents old ds (repr ((as @ cs) @ (?i, e) # marks)) (first_or None ((?i, e) # marks))
        (ops @ mv @ ch) = (ops @ mv @ ch) @ ops' \<and>
      apply_operations ops' (repr ((as' @ cs') @ (?i, f) # marks')) = Inr (repr (zs @ (?i, f) # marks')) \<and>
      list_all2 placed zs (rev ds)"
      by (rule Cons.IH) (use Cons.prems sp i sub in auto)
    then obtain ops' zs where r: "place_documents old ds (repr ((as @ cs) @ (?i, e) # marks)) (Some ?i)
        (ops @ mv @ ch) = ops @ mv @ ch @ ops'"
      "apply_operations ops' (repr ((as' @ cs') @ (?i, f) # marks')) = Inr (repr (zs @ (?i, f) # marks'))"
      "list_all2 placed zs (rev ds)"
      by auto
    have "apply_operations ((mv @ ch) @ ops') (repr (rest' @ marks')) = Inr (repr (zs @ (?i, f) # marks'))"
      using ap(1) r(2) by (simp only: apply_operations_append [of "mv @ ch"]) simp
    moreover have "list_all2 placed (zs @ [(?i, f)]) (rev ds @ [d])"
      using r(3) by (rule list_all2_appendI) (simp add: placed_def ap(2))
    ultimately show ?thesis
      using step r
      by (intro exI [of _ "mv @ ch @ ops'"] exI [of _ "zs @ [(?i, f)]"])
        simp
  qed
qed

lemma same_order_apply:
  assumes "same_order ps ns ops = Inr (Some ops1)" "length ps = length ns"
    and "\<forall>d \<in> set ns. deliverable d" "distinct (map fst (as @ tagged ps))"
  shows "\<exists>ops' zs. ops1 = ops @ ops' \<and> apply_operations ops' (repr (as @ tagged ps)) = Inr (repr (as @ zs)) \<and>
    list_all2 placed zs ns"
  using assms
proof (induction ps ns ops arbitrary: as rule: same_order.induct)
  case (1 p ps n ns ops)
  let ?ch = "if Document_Equal p n then [] else [op_change (doc_id n) n]"
  have ids: "doc_id p = doc_id n" and
    r: "same_order ps ns (ops @ ?ch) = Inr (Some ops1)"
    and some: "Document_ID p = Some (doc_id n)" "Document_ID n = Some (doc_id n)" "\<not> IsZero (doc_id n)"
    using "1.prems"(1) by (auto simp: doc_id_def split: option.splits if_splits)
  obtain f where f: "apply_operations ?ch (repr (as @ (doc_id n, p) # tagged ps)) =
      Inr (repr (as @ (doc_id n, f) # tagged ps))" "current f n"
    using apply_if_changed [of as "doc_id n" p "tagged ps" n] "1.prems" ids by auto
  have eq: "(if Document_Equal p n then ops else ops @ [op_change (doc_id n) n]) = ops @ ?ch" by simp
  have "\<exists>ops' zs. ops1 = (ops @ ?ch) @ ops' \<and>
      apply_operations ops' (repr ((as @ [(doc_id n, f)]) @ tagged ps)) = Inr (repr ((as @ [(doc_id n, f)]) @ zs)) \<and>
      list_all2 placed zs ns"
    using "1.IH" [OF refl some(1,2), unfolded eq, OF _ _ r, of "as @ [(doc_id n, f)]"] "1.prems" ids some
    by simp
  then obtain ops' zs where "ops1 = ops @ ?ch @ ops'" "list_all2 placed zs ns"
    "apply_operations ops' (repr (as @ (doc_id n, f) # tagged ps)) = Inr (repr (as @ (doc_id n, f) # zs))"
    by auto
  then show ?case
    using f ids
    by (intro exI [of _ "?ch @ ops'"] exI [of _ "(doc_id n, f) # zs"])
      (simp add: apply_operations_append placed_def [of "(doc_id n, f)"])
qed (auto intro!: exI [of _ "[]"])

lemma placed_documents:
  "list_all2 placed zs ds \<Longrightarrow> list_all2 current (map snd zs) ds \<and> map fst zs = map doc_id ds"
  by (induction rule: list_all2_induct) (auto simp: placed_def)

lemma deliverable_ids_ok: "\<forall>d \<in> set ds. deliverable d \<Longrightarrow> distinct (map doc_id ds) \<Longrightarrow> ids_ok ds"
  using deliverable_nonzero by (auto simp: ids_ok_def)

lemma same_order_total:
  assumes "\<forall>d \<in> set ps. Document_ID d \<noteq> None \<and> \<not> IsZero (doc_id d)"
    "\<forall>d \<in> set ns. Document_ID d \<noteq> None \<and> \<not> IsZero (doc_id d)"
  shows "\<exists>r. same_order ps ns ops = Inr r"
  using assms by (induction ps ns ops rule: same_order.induct) (auto simp: doc_id_def)

lemma rebuild_apply:
  assumes "ids_ok previous" "\<forall>d \<in> set following. deliverable d" "distinct (map doc_id following)"
  shows "\<exists>ops zs. rebuild_delta previous following token = Some (Inr \<lparr>sh_token = token, sh_operations = ops\<rparr>) \<and>
    apply_operations ops (repr (tagged previous)) = Inr (repr zs) \<and> list_all2 placed zs following"
proof -
  let ?docs = "map_of (tagged following)"
  let ?kept = "filter (\<lambda>p. ?docs (fst p) \<noteq> None) (tagged previous)"
  let ?gone = "map (op_remove \<circ> fst) (filter (\<lambda>p. ?docs (fst p) = None) (tagged previous))"
  have dist: "distinct (map fst (tagged previous))" and nz: "\<forall>p \<in> set (tagged previous). \<not> IsZero (fst p)"
    using assms(1) by (auto simp: ids_ok_def tagged_def comp_def)
  have rm: "remove_missing ?docs (first_or None (tagged previous)) (repr (tagged previous)) [] =
      Some (repr ?kept, ?gone)"
    using remove_missing_repr [of "[]" "tagged previous" ?docs "[]"] dist by simp
  have ap: "apply_operations ?gone (repr (tagged previous)) = Inr (repr ?kept)"
    using apply_removals [of "[]" "tagged previous" ?docs] dist nz by simp
  have kept: "fst ` set ?kept \<subseteq> doc_id ` set (rev following)"
    by (auto simp: map_of_eq_None_iff dest: map_of_SomeD)
  have "\<forall>(i, e) \<in> set ?kept. map_of (tagged previous) i = Some e"
    using dist by auto
  then have "\<exists>ops' zs. place_documents (map_of (tagged previous)) (rev following) (repr (?kept @ [])) (first_or None []) ?gone =
      ?gone @ ops' \<and> apply_operations ops' (repr (?kept @ [])) = Inr (repr (zs @ [])) \<and>
      list_all2 placed zs (rev (rev following))"
    using assms(2,3) kept dist
    by (intro place_apply) (auto simp: distinct_map_filter rev_map [symmetric])
  then obtain ops' zs where "place_documents (map_of (tagged previous)) (rev following) (repr ?kept) None ?gone = ?gone @ ops'"
    "apply_operations ops' (repr ?kept) = Inr (repr zs)" "list_all2 placed zs following"
    by auto
  then show ?thesis
    using rm ap newQueryDeltaList_repr [OF assms(1)] newQueryDeltaList_repr [OF deliverable_ids_ok [OF assms(2,3)]]
    by (intro exI [of _ "?gone @ ops'"] exI [of _ zs])
      (simp add: rebuild_delta_def apply_operations_append, simp add: repr_def)
qed

section \<open>Properties\<close>

text \<open>
  C6 A delta built from two results brings a client from the first to the second.
  For a previous result with distinct nonzero IDs and a next result of valid documents with distinct
  nonzero IDs, the construction returns (its pointer loops end) and never fails. If it has no operations,
  the documents are pairwise \<open>Equal\<close>, in the same order. Otherwise the client that applies it to the
  previous snapshot returns, accepts every operation and holds the next result: the same documents in the
  same order, where a document that did not change may be the client's own \<open>Equal\<close> copy.
\<close>

theorem query_delta_roundtrip:
  assumes "ids_ok previous" "\<forall>d \<in> set following. deliverable d" "distinct (map doc_id following)"
    and "from < token"
  shows "\<exists>delta. buildSharedQueryDelta previous following token = Some (Inr delta) \<and> sh_token delta = token \<and>
    (if sh_operations delta = [] then list_all2 current previous following
     else \<exists>ds. ApplyQueryDelta \<lparr>snapToken = from, Documents = previous\<rparr> (cloneSharedQueryDelta delta from) =
         Some (Inr \<lparr>snapToken = token, Documents = ds\<rparr>) \<and> list_all2 current ds following)"
proof -
  have "\<exists>ops zs. buildSharedQueryDelta previous following token = Some (Inr \<lparr>sh_token = token, sh_operations = ops\<rparr>) \<and>
      apply_operations ops (repr (tagged previous)) = Inr (repr zs) \<and> list_all2 placed zs following"
  proof (cases "length previous = length following")
    case True
    obtain r where r: "same_order previous following [] = Inr r"
      using same_order_total [of previous following "[]"] assms deliverable_nonzero by (auto simp: ids_ok_def)
    show ?thesis
    proof (cases r)
      case None
      then show ?thesis
        using rebuild_apply [OF assms(1-3)] r True by (simp add: buildSharedQueryDelta_def)
    next
      case (Some ops)
      then show ?thesis
        using same_order_apply [of previous following "[]" ops "[]"] r True assms
        by (simp add: buildSharedQueryDelta_def ids_ok_def)
    qed
  next
    case False
    then show ?thesis
      using rebuild_apply [OF assms(1-3)] by (simp add: buildSharedQueryDelta_def)
  qed
  then obtain ops zs where b: "buildSharedQueryDelta previous following token = Some (Inr \<lparr>sh_token = token, sh_operations = ops\<rparr>)"
    and a: "apply_operations ops (repr (tagged previous)) = Inr (repr zs)" and z: "list_all2 placed zs following"
    by blast
  have zs: "list_all2 current (map snd zs) following" "distinct (map fst zs)"
    using placed_documents [OF z] assms(3) by auto
  have doc: "list_documents (byID (repr xs)) (head_id (repr xs)) = Some (map snd xs)"
    if "distinct (map fst xs)" for xs
    using repr_documents [of "[]" xs] that by (simp add: repr_def)
  have "list_all2 current previous following" if "ops = []"
  proof -
    have "repr zs = repr (tagged previous)" using a that by simp
    then have "map snd zs = previous"
      using doc [OF zs(2)] doc [of "tagged previous"] assms(1) by (simp add: ids_ok_def)
    then show ?thesis using zs by simp
  qed
  then show ?thesis
    using b a zs doc [OF zs(2)] newQueryDeltaList_repr [OF assms(1)] assms(4)
    by (auto simp: ApplyQueryDelta_def cloneSharedQueryDelta_def)
qed

definition sample_doc :: "byte \<Rightarrow> Value \<Rightarrow> Document" where
  "sample_doc i v = [([95, 105, 100], VID (replicate 15 0 @ [i])), ([97], v)]"

theorem query_delta_roundtrip_witness:
  "\<exists>delta. buildSharedQueryDelta [sample_doc 1 VNull, sample_doc 2 VNull] [sample_doc 3 VNull, sample_doc 1 (VInt 4)] 7 =
     Some (Inr delta) \<and> sh_token delta = 7"
proof -
  have f: "field_id = [95, 105, 100]" by (simp add: field_id_def str_def)
  have i: "Document_ID (sample_doc i v) = Some (replicate 15 0 @ [i])"
    "doc_id (sample_doc i v) = replicate 15 0 @ [i]" for i v
    by (simp_all add: doc_id_def Document_ID_def sample_doc_def f)
  have z: "IsZero (replicate 15 0 @ [i]) \<longleftrightarrow> i = 0" for i :: byte
    by (simp add: IsZero_def zeroID_def numeral_eq_Suc)
  have "deliverable (sample_doc 3 VNull)" "deliverable (sample_doc 1 (VInt 4))"
    unfolding deliverable_def documentHasID_def i
    by (simp_all add: z i) (simp_all add: sample_doc_def Validate_def validateDocument_def validField_def str_def validateNested.simps)
  then show ?thesis
    using query_delta_roundtrip [of "[sample_doc 1 VNull, sample_doc 2 VNull]"
        "[sample_doc 3 VNull, sample_doc 1 (VInt 4)]" 6 7]
    by (auto simp: ids_ok_def i z)
qed

text \<open>
  C26 The linked list implements the list of its documents. On the linked form of a
  list with distinct IDs, removal of a node gives the linked form of the list without it, insertion before
  an anchor or at the end gives the linked form with the document at that place, and following \<open>next\<close>
  from the head returns the documents in order.
\<close>

theorem query_delta_list_refines:
  assumes "distinct (map fst (as @ (i, d) # bs))"
  shows "(\<exists>n. byID (repr (as @ (i, d) # bs)) i = Some n \<and> node_doc n = d \<and>
      list_remove i n (repr (as @ (i, d) # bs)) = repr (as @ bs)) \<and>
    insertBefore i d (first_or None bs) (repr (as @ bs)) = repr (as @ (i, d) # bs) \<and>
    list_documents (byID (repr (as @ bs))) (head_id (repr (as @ bs))) = Some (map snd (as @ bs))"
proof -
  have "distinct (map fst (as @ bs))" "i \<notin> fst ` set (as @ bs)" "i \<notin> fst ` set as" using assms by auto
  moreover have "head_id (repr (as @ bs)) = first_or None (as @ bs)" by (simp add: repr_def)
  ultimately show ?thesis
    using repr_lookup [of i as d bs] repr_remove [OF assms, of d] repr_insert [of as bs i d]
      repr_documents [of "[]" "as @ bs"] by auto
qed

theorem query_delta_list_refines_witness:
  "insertBefore [2] [] (Some [3]) (repr [([1], []), ([3], [])]) = repr [([1], []), ([2], []), ([3], [])]"
  using query_delta_list_refines [of "[([1], [])]" "[2]" "[]" "[([3], [])]"] by simp

end
