(* ===== verification/Query_Match.thy ===== *)
theory Query_Match
  imports Index_Key
begin

text \<open>
  Query expressions and their evaluation, \<open>internal/database/query.go\<close>, with the work budget of
  \<open>query_budget.go\<close>.

  Evaluation threads an optional budget: a computation of type \<open>'a budgeted\<close> takes the budget, \<open>None\<close>
  where the Go code passes \<open>nil\<close>, and returns its result or error with the budget after the call.
  Operators keep the strings of the source; \<open>NilExpr\<close> is a \<open>nil\<close> expression. The reference semantics \<open>matches\<close> is a plain predicate,
  and the theorems say that a budget can stop the evaluation but never change its answer.
\<close>

section \<open>Expressions\<close>

datatype elementExpr =
    ElementLogical string "elementExpr list"
  | ElementNot elementExpr
  | ElementCompare string Value
  | ElementMembership string "Value list"

datatype expr =
    NilExpr
  | TrueExpr
  | LogicalExpr string "expr list"
  | NotExpr expr
  | CompareExpr string bytes Value
  | MembershipExpr string bytes "Value list"
  | ExistsExpr bytes bool
  | SizeExpr bytes int64
  | TypeExpr bytes "nat list"
  | AllExpr bytes "Value list"
  | ElemMatchExpr bytes string "elementExpr option" "expr option"

record SortField =
  Path :: bytes
  Direction :: int

record QuerySpec =
  qwhere :: "expr option"
  qsort :: "SortField list"
  qskip :: int
  qlimit :: "int option"
  qseek :: bool

section \<open>Comparison of values\<close>

definition scalarKind :: "nat \<Rightarrow> bool" where
  "scalarKind k \<longleftrightarrow> k \<in> {0, 1, 2, 3, 4, 6, 9, 5}"

definition valueKindRank :: "nat \<Rightarrow> int" where
  "valueKindRank k =
     (if k = 0 then 0
      else if k = 1 then 1
      else if k = 2 \<or> k = 3 then 2
      else if k = 4 then 3
      else if k = 6 then 4
      else if k = 9 then 5
      else if k = 5 then 6
      else if k = 7 then 7
      else if k = 8 then 8
      else 9)"

definition compareValueKinds :: "nat \<Rightarrow> nat \<Rightarrow> int" where
  "compareValueKinds a b =
     (let left = valueKindRank a; right = valueKindRank b
      in if left < right then -1 else if right < left then 1 else 0)"

fun compare_same_kind :: "Value \<Rightarrow> Value \<Rightarrow> int option" where
  "compare_same_kind VNull VNull = Some 0"
| "compare_same_kind (VInt a) (VInt b) = Some (if a <s b then -1 else if b <s a then 1 else 0)"
| "compare_same_kind (VFloat a) (VFloat b) =
     Some (if float_less a b then -1 else if float_less b a then 1 else 0)"
| "compare_same_kind (VString a) (VString b) = Some (bytes_Compare a b)"
| "compare_same_kind (VBool a) (VBool b) = Some (if a = b then 0 else if \<not> a then -1 else 1)"
| "compare_same_kind (VTime a) (VTime b) = Some (if a <s b then -1 else if b <s a then 1 else 0)"
| "compare_same_kind (VID a) (VID b) = Some (bytes_Compare a b)"
| "compare_same_kind (VBinary a) (VBinary b) = Some (bytes_Compare a b)"
| "compare_same_kind _ _ = None"

definition compareValues :: "Value \<Rightarrow> Value \<Rightarrow> int option" where
  "compareValues a b =
     (case compareNumeric a b of
        Some comparison \<Rightarrow> Some comparison
      | None \<Rightarrow>
          if \<not> scalarKind (kind a) \<or> \<not> scalarKind (kind b) then None
          else if kind a \<noteq> kind b then Some (compareValueKinds (kind a) (kind b))
          else compare_same_kind a b)"

definition compareSortValues :: "Value \<Rightarrow> Value \<Rightarrow> int" where
  "compareSortValues a b =
     (if kind a \<noteq> kind b then
        case compareNumeric a b of
          Some comparison \<Rightarrow> comparison
        | None \<Rightarrow> compareValueKinds (kind a) (kind b)
      else case compareValues a b of Some comparison \<Rightarrow> comparison | None \<Rightarrow> 0)"

definition lookupInternal :: "Document \<Rightarrow> bytes \<Rightarrow> Value option" where
  "lookupInternal d path = lookup_parts d (split_dot path)"

section \<open>Budget\<close>

record ResourceLimits =
  MaxQuerySkip :: uint64
  MaxQueryDocumentsExamined :: uint64
  MaxQueryKeysExamined :: uint64
  MaxQueryPredicateSteps :: uint64
  MaxQueryCandidates :: uint64
  MaxQuerySortBytes :: uint64

record queryBudget =
  bquery :: QuerySpec
  blimits :: ResourceLimits
  documents :: uint64
  keys :: uint64
  candidates :: uint64
  sortBytes :: uint64
  predicateSteps :: uint64
  exceeded :: string

definition reject :: "string \<Rightarrow> queryBudget \<Rightarrow> (db_error + 'a) \<times> queryBudget" where
  "reject what b =
     (Inl ErrQueryBudget, if exceeded b = '''' then b\<lparr>exceeded := what\<rparr> else b)"

definition newPredicateBudget :: "QuerySpec \<Rightarrow> ResourceLimits \<Rightarrow> queryBudget" where
  "newPredicateBudget query limits =
     \<lparr>bquery = query, blimits = limits, documents = 0, keys = 0, candidates = 0, sortBytes = 0,
      predicateSteps = 0, exceeded = ''''\<rparr>"

definition newQueryBudget :: "ResourceLimits \<Rightarrow> QuerySpec \<Rightarrow> (db_error + unit) \<times> queryBudget" where
  "newQueryBudget limits query =
     (let b = newPredicateBudget query limits
      in if MaxQuerySkip limits < of_int (qskip query) then reject ''skip'' b else (Inr (), b))"

definition budget_document :: "queryBudget \<Rightarrow> (db_error + unit) \<times> queryBudget" where
  "budget_document b =
     (if MaxQueryDocumentsExamined (blimits b) \<le> documents b then reject ''documents'' b
      else (Inr (), b\<lparr>documents := documents b + 1\<rparr>))"

definition budget_key :: "queryBudget \<Rightarrow> (db_error + unit) \<times> queryBudget" where
  "budget_key b =
     (if MaxQueryKeysExamined (blimits b) \<le> keys b then reject ''keys'' b
      else (Inr (), b\<lparr>keys := keys b + 1\<rparr>))"

definition budget_predicate :: "queryBudget \<Rightarrow> (db_error + unit) \<times> queryBudget" where
  "budget_predicate b =
     (if MaxQueryPredicateSteps (blimits b) \<le> predicateSteps b then reject ''predicate_steps'' b
      else (Inr (), b\<lparr>predicateSteps := predicateSteps b + 1\<rparr>))"

type_synonym 'a budgeted = "queryBudget option \<Rightarrow> (db_error + 'a) \<times> queryBudget option"

definition qret :: "'a \<Rightarrow> 'a budgeted" where
  "qret a = (\<lambda>b. (Inr a, b))"

definition qfail :: "db_error \<Rightarrow> 'a budgeted" where
  "qfail e = (\<lambda>b. (Inl e, b))"

definition qbind :: "'a budgeted \<Rightarrow> ('a \<Rightarrow> 'b budgeted) \<Rightarrow> 'b budgeted" where
  "qbind m f = (\<lambda>b. case m b of (Inl e, b') \<Rightarrow> (Inl e, b') | (Inr a, b') \<Rightarrow> f a b')"

definition charge :: "unit budgeted" where
  "charge = (\<lambda>b. case b of None \<Rightarrow> (Inr (), None) | Some x \<Rightarrow> map_prod id Some (budget_predicate x))"

lemma qbind_qret [simp]: "qbind (qret a) f = f a"
  by (simp add: qbind_def qret_def)

section \<open>Evaluation\<close>

fun equal_any :: "Value list \<Rightarrow> Value \<Rightarrow> bool budgeted" where
  "equal_any [] candidate = qret False"
| "equal_any (item # items) candidate =
     qbind charge (\<lambda>_. if value_Equal item candidate then qret True else equal_any items candidate)"

definition fieldEqualsWithBudget :: "Value \<Rightarrow> Value \<Rightarrow> bool budgeted" where
  "fieldEqualsWithBudget field candidate =
     (if kind field = 7 \<and> kind candidate \<noteq> 7 then equal_any (val_arr field) candidate
      else qret (value_Equal field candidate))"

definition fieldEquals :: "Value \<Rightarrow> Value \<Rightarrow> bool" where
  "fieldEquals field candidate =
     (case fieldEqualsWithBudget field candidate None of (Inr m, _) \<Rightarrow> m | (Inl _, _) \<Rightarrow> False)"

definition ordered_by :: "string \<Rightarrow> int \<Rightarrow> bool" where
  "ordered_by cmp comparison =
     (if cmp = ''gt'' then 0 < comparison
      else if cmp = ''gte'' then 0 \<le> comparison
      else if cmp = ''lt'' then comparison < 0
      else comparison \<le> 0)"

definition compare_value :: "string \<Rightarrow> Value \<Rightarrow> Value \<Rightarrow> bool budgeted" where
  "compare_value cmp v w =
     (if cmp = ''eq'' then fieldEqualsWithBudget v w
      else if cmp = ''ne'' then qbind (fieldEqualsWithBudget v w) (\<lambda>m. qret (\<not> m))
      else case compareValues v w of
          None \<Rightarrow> qret False
        | Some comparison \<Rightarrow> qret (ordered_by cmp comparison))"

fun member_any :: "Value \<Rightarrow> Value list \<Rightarrow> bool budgeted" where
  "member_any v [] = qret False"
| "member_any v (candidate # cs) =
     qbind charge (\<lambda>_. qbind (fieldEqualsWithBudget v candidate) (\<lambda>m.
       if m then qret True else member_any v cs))"

fun matchElementExpression :: "elementExpr \<Rightarrow> Value \<Rightarrow> bool budgeted"
  and matchElementAnd :: "elementExpr list \<Rightarrow> Value \<Rightarrow> bool budgeted"
  and matchElementOr :: "elementExpr list \<Rightarrow> Value \<Rightarrow> bool budgeted" where
  "matchElementExpression e v =
     qbind charge (\<lambda>_.
       case e of
         ElementLogical op args \<Rightarrow> if op = ''and'' then matchElementAnd args v else matchElementOr args v
       | ElementNot arg \<Rightarrow> qbind (matchElementExpression arg v) (\<lambda>m. qret (\<not> m))
       | ElementCompare cmp w \<Rightarrow> compare_value cmp v w
       | ElementMembership op ws \<Rightarrow> qbind (member_any v ws) (\<lambda>hit. qret (if op = ''in'' then hit else \<not> hit)))"
| "matchElementAnd [] v = qret True"
| "matchElementAnd (e # es) v =
     qbind (matchElementExpression e v) (\<lambda>m. if \<not> m then qret False else matchElementAnd es v)"
| "matchElementOr [] v = qret False"
| "matchElementOr (e # es) v =
     qbind (matchElementExpression e v) (\<lambda>m. if m then qret True else matchElementOr es v)"

fun element_any :: "elementExpr option \<Rightarrow> Value list \<Rightarrow> bool budgeted" where
  "element_any e [] = qret False"
| "element_any e (item # items) =
     qbind charge (\<lambda>_.
       qbind (case e of Some c \<Rightarrow> matchElementExpression c item | None \<Rightarrow> qbind charge (\<lambda>_. qfail ErrCorrupt))
         (\<lambda>m. if m then qret True else element_any e items))"

fun type_any :: "nat \<Rightarrow> nat list \<Rightarrow> bool budgeted" where
  "type_any k [] = qret False"
| "type_any k (t # ts) = qbind charge (\<lambda>_. if k = t then qret True else type_any k ts)"

fun all_required :: "Value list \<Rightarrow> Value list \<Rightarrow> bool budgeted" where
  "all_required arr [] = qret True"
| "all_required arr (required # rs) =
     qbind charge (\<lambda>_. qbind (equal_any arr required) (\<lambda>m.
       if \<not> m then qret False else all_required arr rs))"

text \<open>
  \<open>matchAnd\<close> and \<open>matchOr\<close> are the loops of \<open>logicalExpr.match\<close>, \<open>object_any\<close> is the loop of
  \<open>elemMatchExpr.match\<close> over objects.
\<close>

function (sequential) matchExpression :: "expr \<Rightarrow> Document \<Rightarrow> bool budgeted"
  and matchAnd :: "expr list \<Rightarrow> Document \<Rightarrow> bool budgeted"
  and matchOr :: "expr list \<Rightarrow> Document \<Rightarrow> bool budgeted"
  and object_any :: "expr option \<Rightarrow> Value list \<Rightarrow> bool budgeted" where
  "matchExpression e d =
     qbind charge (\<lambda>_.
       case e of
         NilExpr \<Rightarrow> qfail ErrCorrupt
       | TrueExpr \<Rightarrow> qret True
       | LogicalExpr op args \<Rightarrow> if op = ''and'' then matchAnd args d else matchOr args d
       | NotExpr arg \<Rightarrow> qbind (matchExpression arg d) (\<lambda>m. qret (\<not> m))
       | CompareExpr cmp path w \<Rightarrow>
           (case lookupInternal d path of
              None \<Rightarrow> qret (cmp = ''ne'')
            | Some v \<Rightarrow> compare_value cmp v w)
       | MembershipExpr op path ws \<Rightarrow>
           qbind (case lookupInternal d path of None \<Rightarrow> qret False | Some v \<Rightarrow> member_any v ws)
             (\<lambda>hit. qret (if op = ''in'' then hit else \<not> hit))
       | ExistsExpr path x \<Rightarrow> qret ((lookupInternal d path \<noteq> None) = x)
       | SizeExpr path n \<Rightarrow>
           qret (case lookupInternal d path of
                   Some (VArray arr) \<Rightarrow> of_nat (length arr) = n
                 | _ \<Rightarrow> False)
       | TypeExpr path types \<Rightarrow>
           (case lookupInternal d path of None \<Rightarrow> qret False | Some v \<Rightarrow> type_any (kind v) types)
       | AllExpr path ws \<Rightarrow>
           (case lookupInternal d path of
              Some (VArray arr) \<Rightarrow> all_required arr ws
            | _ \<Rightarrow> qret False)
       | ElemMatchExpr path mode scalar obj \<Rightarrow>
           (case lookupInternal d path of
              Some (VArray arr) \<Rightarrow>
                if mode = ''scalar'' then element_any scalar arr
                else if mode = ''object'' then object_any obj arr
                else if arr = [] then qret False
                else qbind charge (\<lambda>_. qfail ErrCorrupt)
            | _ \<Rightarrow> qret False))"
| "matchAnd [] d = qret True"
| "matchAnd (e # es) d = qbind (matchExpression e d) (\<lambda>m. if \<not> m then qret False else matchAnd es d)"
| "matchOr [] d = qret False"
| "matchOr (e # es) d = qbind (matchExpression e d) (\<lambda>m. if m then qret True else matchOr es d)"
| "object_any e [] = qret False"
| "object_any e (item # items) =
     qbind charge (\<lambda>_.
       qbind (case item of
                VObject obj \<Rightarrow> (case e of Some c \<Rightarrow> matchExpression c obj | None \<Rightarrow> qbind charge (\<lambda>_. qfail ErrCorrupt))
              | _ \<Rightarrow> qret False)
         (\<lambda>m. if m then qret True else object_any e items))"
  by pat_completeness auto
termination
  by (relation "inv_image (less_than <*lex*> less_than)
      (\<lambda>x. case x of
         Inl (Inl (e, d)) \<Rightarrow> (size e, 0)
       | Inl (Inr (es, d)) \<Rightarrow> (size_list size es, 0)
       | Inr (Inl (es, d)) \<Rightarrow> (size_list size es, 0)
       | Inr (Inr (e, items)) \<Rightarrow> (case e of None \<Rightarrow> 0 | Some c \<Rightarrow> size c, length items + 1))")
    (auto split: option.splits)

declare matchExpression.simps [simp del] matchElementExpression.simps [simp del]

definition matchWithBudget :: "QuerySpec \<Rightarrow> Document \<Rightarrow> bool budgeted" where
  "matchWithBudget q d = (case qwhere q of None \<Rightarrow> qret False | Some e \<Rightarrow> matchExpression e d)"

definition Match :: "QuerySpec \<Rightarrow> Document \<Rightarrow> bool" where
  "Match q d = (case matchWithBudget q d None of (Inr m, _) \<Rightarrow> m | (Inl _, _) \<Rightarrow> False)"

section \<open>Reference semantics\<close>

definition field_equal :: "Value \<Rightarrow> Value \<Rightarrow> bool" where
  "field_equal v w \<longleftrightarrow>
     (if kind v = 7 \<and> kind w \<noteq> 7 then \<exists>item \<in> set (val_arr v). value_Equal item w else value_Equal v w)"

definition compares :: "string \<Rightarrow> Value \<Rightarrow> Value \<Rightarrow> bool" where
  "compares cmp v w \<longleftrightarrow>
     (if cmp = ''eq'' then field_equal v w
      else if cmp = ''ne'' then \<not> field_equal v w
      else case compareValues v w of None \<Rightarrow> False | Some c \<Rightarrow> ordered_by cmp c)"

fun element_matches :: "elementExpr \<Rightarrow> Value \<Rightarrow> bool" where
  "element_matches (ElementLogical op args) v \<longleftrightarrow>
     (if op = ''and'' then \<forall>e \<in> set args. element_matches e v else \<exists>e \<in> set args. element_matches e v)"
| "element_matches (ElementNot arg) v \<longleftrightarrow> \<not> element_matches arg v"
| "element_matches (ElementCompare cmp w) v \<longleftrightarrow> compares cmp v w"
| "element_matches (ElementMembership op ws) v \<longleftrightarrow> ((\<exists>w \<in> set ws. field_equal v w) = (op = ''in''))"

fun matches :: "expr \<Rightarrow> Document \<Rightarrow> bool" where
  "matches NilExpr d \<longleftrightarrow> False"
| "matches TrueExpr d \<longleftrightarrow> True"
| "matches (LogicalExpr op args) d \<longleftrightarrow>
     (if op = ''and'' then \<forall>e \<in> set args. matches e d else \<exists>e \<in> set args. matches e d)"
| "matches (NotExpr arg) d \<longleftrightarrow> \<not> matches arg d"
| "matches (CompareExpr cmp path w) d \<longleftrightarrow>
     (case lookupInternal d path of None \<Rightarrow> cmp = ''ne'' | Some v \<Rightarrow> compares cmp v w)"
| "matches (MembershipExpr op path ws) d \<longleftrightarrow>
     (case lookupInternal d path of
        None \<Rightarrow> op \<noteq> ''in''
      | Some v \<Rightarrow> (\<exists>w \<in> set ws. field_equal v w) = (op = ''in''))"
| "matches (ExistsExpr path x) d \<longleftrightarrow> (lookupInternal d path \<noteq> None) = x"
| "matches (SizeExpr path n) d \<longleftrightarrow>
     (case lookupInternal d path of Some (VArray arr) \<Rightarrow> of_nat (length arr) = n | _ \<Rightarrow> False)"
| "matches (TypeExpr path types) d \<longleftrightarrow>
     (case lookupInternal d path of None \<Rightarrow> False | Some v \<Rightarrow> kind v \<in> set types)"
| "matches (AllExpr path ws) d \<longleftrightarrow>
     (case lookupInternal d path of
        Some (VArray arr) \<Rightarrow> \<forall>w \<in> set ws. \<exists>item \<in> set arr. value_Equal item w
      | _ \<Rightarrow> False)"
| "matches (ElemMatchExpr path mode scalar obj) d \<longleftrightarrow>
     (case lookupInternal d path of
        Some (VArray arr) \<Rightarrow>
          (\<exists>item \<in> set arr.
             if mode = ''scalar'' then (case scalar of Some c \<Rightarrow> element_matches c item | None \<Rightarrow> False)
             else case item of
                 VObject o1 \<Rightarrow> (case obj of Some c \<Rightarrow> matches c o1 | None \<Rightarrow> False)
               | _ \<Rightarrow> False)
      | _ \<Rightarrow> False)"

text \<open>Expressions as the compiler builds them: an element condition is present in its mode.\<close>

fun expr_ok :: "expr \<Rightarrow> bool" where
  "expr_ok NilExpr \<longleftrightarrow> False"
| "expr_ok (LogicalExpr op args) \<longleftrightarrow> (\<forall>e \<in> set args. expr_ok e)"
| "expr_ok (NotExpr arg) \<longleftrightarrow> expr_ok arg"
| "expr_ok (ElemMatchExpr path mode scalar obj) \<longleftrightarrow>
     mode = ''scalar'' \<and> scalar \<noteq> None \<or>
     mode = ''object'' \<and> (case obj of Some c \<Rightarrow> expr_ok c | None \<Rightarrow> False)"
| "expr_ok _ \<longleftrightarrow> True"

section \<open>What a budgeted computation does\<close>

text \<open>
  \<open>computes m v n\<close>: without a budget \<open>m\<close> returns \<open>v\<close>; with a budget it returns \<open>v\<close> after charging
  \<open>n\<close> steps if they fit, and otherwise uses up the budget and fails.
\<close>

definition within :: "queryBudget \<Rightarrow> bool" where
  "within b \<longleftrightarrow> predicateSteps b \<le> MaxQueryPredicateSteps (blimits b)"

definition spent :: "queryBudget \<Rightarrow> queryBudget" where
  "spent b = snd (reject ''predicate_steps'' (b\<lparr>predicateSteps := MaxQueryPredicateSteps (blimits b)\<rparr>) ::
     (db_error + unit) \<times> queryBudget)"

abbreviation room :: "queryBudget \<Rightarrow> nat" where
  "room b \<equiv> unat (MaxQueryPredicateSteps (blimits b)) - unat (predicateSteps b)"

definition computes :: "'a budgeted \<Rightarrow> 'a \<Rightarrow> nat \<Rightarrow> bool" where
  "computes m v n \<longleftrightarrow>
     m None = (Inr v, None) \<and>
     (\<forall>b. within b \<longrightarrow>
        m (Some b) =
          (if n \<le> room b then (Inr v, Some (b\<lparr>predicateSteps := predicateSteps b + of_nat n\<rparr>))
           else (Inl ErrQueryBudget, Some (spent b))))"

lemma computes_qret: "computes (qret v) v 0"
  by (simp add: computes_def qret_def)

lemma computes_charge: "computes charge () 1"
proof -
  have "predicateSteps b = MaxQueryPredicateSteps (blimits b)"
    if "within b" "MaxQueryPredicateSteps (blimits b) \<le> predicateSteps b" for b
    using that by (simp add: within_def)
  then show ?thesis
    by (auto simp: computes_def charge_def budget_predicate_def spent_def reject_def within_def
        word_le_nat_alt not_le split: option.splits)
qed

lemma within_add:
  assumes "within b" "n \<le> room b"
  shows "unat (predicateSteps b + of_nat n) = unat (predicateSteps b) + n"
    "within (b\<lparr>predicateSteps := predicateSteps b + of_nat n\<rparr>)"
proof -
  have le: "unat (predicateSteps b) + n \<le> unat (MaxQueryPredicateSteps (blimits b))"
    using assms by (simp add: within_def word_le_nat_alt)
  then have n: "unat (predicateSteps b) + n < 2 ^ 64"
    using unat_bound [of "MaxQueryPredicateSteps (blimits b)"] by simp
  then have "unat (of_nat n :: uint64) = n" by (simp add: unat_of_nat)
  then show eq: "unat (predicateSteps b + of_nat n) = unat (predicateSteps b) + n"
    using n by (simp add: unat_word_ariths)
  show "within (b\<lparr>predicateSteps := predicateSteps b + of_nat n\<rparr>)"
    using le by (simp add: within_def word_le_nat_alt eq)
qed

lemma computes_qbind:
  assumes "computes m v n" "computes (f v) w k"
  shows "computes (qbind m f) w (n + k)"
proof -
  have "qbind m f (Some b) =
      (if n + k \<le> room b then (Inr w, Some (b\<lparr>predicateSteps := predicateSteps b + of_nat (n + k)\<rparr>))
       else (Inl ErrQueryBudget, Some (spent b)))" if b: "within b" for b
  proof (cases "n \<le> room b")
    case True
    let ?b = "b\<lparr>predicateSteps := predicateSteps b + of_nat n\<rparr>"
    have "m (Some b) = (Inr v, Some ?b)" using assms(1) b True by (simp add: computes_def)
    moreover have "f v (Some ?b) =
        (if k \<le> room ?b then (Inr w, Some (?b\<lparr>predicateSteps := predicateSteps ?b + of_nat k\<rparr>))
         else (Inl ErrQueryBudget, Some (spent ?b)))"
      using assms(2) within_add(2) [OF b True] by (simp add: computes_def)
    moreover have "room ?b = room b - n" using within_add(1) [OF b True] by simp
    ultimately show ?thesis using True by (auto simp: qbind_def add.assoc spent_def)
  next
    case False
    then have "m (Some b) = (Inl ErrQueryBudget, Some (spent b))" using assms(1) b by (simp add: computes_def)
    then show ?thesis using False by (auto simp: qbind_def)
  qed
  then show ?thesis using assms by (simp add: computes_def qbind_def)
qed

definition computes_some :: "'a budgeted \<Rightarrow> 'a \<Rightarrow> bool" where
  "computes_some m v \<longleftrightarrow> (\<exists>n. computes m v n)"

named_theorems runs \<open>values of budgeted computations\<close>

lemma runs_qret [runs, intro]: "v = w \<Longrightarrow> computes_some (qret v) w"
  by (auto simp: computes_some_def intro: computes_qret)

lemma runs_charge [runs]: "computes_some (qbind charge f) v" if "computes_some (f ()) v"
  using that by (auto simp: computes_some_def intro: computes_qbind [OF computes_charge])

lemma runs_charge_only [runs, intro]: "computes_some charge ()"
  using computes_charge by (auto simp: computes_some_def)

lemma runs_qbind: "computes_some m v \<Longrightarrow> computes_some (f v) w \<Longrightarrow> computes_some (qbind m f) w"
  by (auto simp: computes_some_def intro: computes_qbind)

lemma runs_map: "computes_some m v \<Longrightarrow> computes_some (qbind m (\<lambda>a. qret (g a))) (g v)"
  by (rule runs_qbind) auto

lemma runs_and:
  "computes_some m v \<Longrightarrow> (v \<Longrightarrow> computes_some k w) \<Longrightarrow>
    computes_some (qbind m (\<lambda>m. if \<not> m then qret False else k)) (v \<and> w)"
  by (rule runs_qbind [where v = v]) auto

lemma runs_or:
  "computes_some m v \<Longrightarrow> (\<not> v \<Longrightarrow> computes_some k w) \<Longrightarrow>
    computes_some (qbind m (\<lambda>m. if m then qret True else k)) (v \<or> w)"
  by (rule runs_qbind [where v = v]) auto

lemma runs_if: "(c \<Longrightarrow> computes_some m v) \<Longrightarrow> (\<not> c \<Longrightarrow> computes_some k w) \<Longrightarrow>
    computes_some (if c then m else k) (if c then v else w)"
  by simp

lemma runs_equal_any: "computes_some (equal_any items c) (\<exists>item \<in> set items. value_Equal item c)"
  by (induction items c rule: equal_any.induct) (auto intro!: runs_qret runs_charge)

lemma runs_fieldEquals: "computes_some (fieldEqualsWithBudget v w) (field_equal v w)"
  unfolding fieldEqualsWithBudget_def field_equal_def
  by (intro runs_if runs_equal_any runs_qret refl)

lemma runs_compare: "computes_some (compare_value cmp v w) (compares cmp v w)"
  unfolding compare_value_def compares_def
  by (intro runs_if runs_fieldEquals runs_map) (auto split: option.splits)

lemma runs_member_any: "computes_some (member_any v ws) (\<exists>w \<in> set ws. field_equal v w)"
proof (induction v ws rule: member_any.induct)
  case (2 v c cs)
  then show ?case
    unfolding member_any.simps list.set Set.bex_simps
    by (intro runs_charge runs_or runs_fieldEquals)
qed auto

lemma runs_type_any: "computes_some (type_any k ts) (k \<in> set ts)"
  by (induction k ts rule: type_any.induct) (auto intro!: runs_charge)

lemma runs_all_required:
  "computes_some (all_required arr ws) (\<forall>w \<in> set ws. \<exists>item \<in> set arr. value_Equal item w)"
proof (induction arr ws rule: all_required.induct)
  case (2 arr w ws)
  then have "computes_some (all_required arr ws) (\<forall>w \<in> set ws. \<exists>item \<in> set arr. value_Equal item w)"
    by simp
  then show ?case
    unfolding all_required.simps list.set Set.ball_simps
    by (intro runs_charge runs_and runs_equal_any)
qed auto

lemma runs_element:
  "computes_some (matchElementExpression e v) (element_matches e v)"
  "computes_some (matchElementAnd es v) (\<forall>e \<in> set es. element_matches e v)"
  "computes_some (matchElementOr es v) (\<exists>e \<in> set es. element_matches e v)"
proof (induction e v and es v and es v
    rule: matchElementExpression_matchElementAnd_matchElementOr.induct)
  case (1 e v)
  have "computes_some (qbind (member_any v ws) (\<lambda>hit. qret (if op = ''in'' then hit else \<not> hit)))
      (element_matches (ElementMembership op ws) v)" for op ws
    using runs_map [OF runs_member_any [of v ws], of "\<lambda>hit. if op = ''in'' then hit else \<not> hit"]
    by (cases "op = ''in''") simp_all
  with 1 show ?case
    by (cases e) (auto simp: matchElementExpression.simps intro!: runs_charge runs_compare runs_map)
next
  case (3 e es v)
  show ?case
    unfolding matchElementAnd.simps list.set Set.ball_simps by (intro runs_and) (use 3 in simp_all)
next
  case (5 e es v)
  show ?case
    unfolding matchElementOr.simps list.set Set.bex_simps by (intro runs_or) (use 5 in simp_all)
qed auto

lemma runs_element_any:
  "computes_some (element_any (Some c) items) (\<exists>item \<in> set items. element_matches c item)"
proof (induction items)
  case (Cons item items)
  then show ?case
    unfolding element_any.simps list.set Set.bex_simps option.case
    by (intro runs_charge runs_or runs_element)
qed auto

fun object_matches :: "expr \<Rightarrow> Value \<Rightarrow> bool" where
  "object_matches c (VObject o1) \<longleftrightarrow> matches c o1"
| "object_matches c _ \<longleftrightarrow> False"

lemma matches_elem_object:
  "matches (ElemMatchExpr path ''object'' scalar (Some c)) d \<longleftrightarrow>
     (case lookupInternal d path of
        Some (VArray arr) \<Rightarrow> \<exists>item \<in> set arr. object_matches c item
      | _ \<Rightarrow> False)"
proof -
  have item: "(case item of
        VObject o1 \<Rightarrow> (case Some c of Some c \<Rightarrow> matches c o1 | None \<Rightarrow> False)
      | _ \<Rightarrow> False) = object_matches c item" for item
    by (cases item) simp_all
  show ?thesis
    unfolding matches.simps(11) item by (cases scalar) (simp_all split: option.splits Value.splits)
qed

lemma runs_match:
  "expr_ok e \<Longrightarrow> computes_some (matchExpression e d) (matches e d)"
  "\<forall>e \<in> set es. expr_ok e \<Longrightarrow> computes_some (matchAnd es d) (\<forall>e \<in> set es. matches e d)"
  "\<forall>e \<in> set es. expr_ok e \<Longrightarrow> computes_some (matchOr es d) (\<exists>e \<in> set es. matches e d)"
  "oe = Some c \<Longrightarrow> expr_ok c \<Longrightarrow> computes_some (object_any oe items) (\<exists>item \<in> set items. object_matches c item)"
proof (induction e d and es d and es d and oe items arbitrary: and and and c
    rule: matchExpression_matchAnd_matchOr_object_any.induct)
  case (1 e d)
  show ?case
  proof (cases e)
    case (ElemMatchExpr path mode scalar obj)
    show ?thesis
    proof (cases "mode = ''scalar''")
      case True
      then obtain c where "scalar = Some c" using "1.prems" ElemMatchExpr by auto
      then show ?thesis
        using ElemMatchExpr True
        by (auto simp: matchExpression.simps intro!: runs_charge runs_element_any split: option.splits Value.splits)
    next
      case False
      then obtain c where c: "mode = ''object''" "obj = Some c" "expr_ok c"
        using "1.prems" ElemMatchExpr by (auto split: option.splits)
      then have "computes_some (object_any obj arr) (\<exists>item \<in> set arr. object_matches c item)"
        if "lookupInternal d path = Some (VArray arr)" for arr
        using "1.IH" ElemMatchExpr that by auto
      then show ?thesis
        using ElemMatchExpr c
        by (auto simp: matchExpression.simps matches_elem_object simp del: matches.simps(11)
            intro!: runs_charge split: option.splits Value.splits)
    qed
  next
    case (MembershipExpr op path ws)
    have "computes_some (qbind (member_any v ws) (\<lambda>hit. qret (if op = ''in'' then hit else \<not> hit)))
        ((\<exists>w \<in> set ws. field_equal v w) = (op = ''in''))" for v
      using runs_map [OF runs_member_any [of v ws], of "\<lambda>hit. if op = ''in'' then hit else \<not> hit"]
      by (cases "op = ''in''") simp_all
    then show ?thesis
      using MembershipExpr by (auto simp: matchExpression.simps intro!: runs_charge split: option.splits)
  qed (use 1 in \<open>auto simp: matchExpression.simps
      intro!: runs_charge runs_compare runs_map runs_type_any runs_all_required
      split: option.splits Value.splits\<close>)
next
  case (3 e es d)
  then show ?case
    unfolding matchAnd.simps list.set Set.ball_simps by (intro runs_and) simp_all
next
  case (5 e es d)
  then show ?case
    unfolding matchOr.simps list.set Set.bex_simps by (intro runs_or) simp_all
next
  case (7 e item items)
  have "computes_some (case item of
      VObject obj \<Rightarrow> (case e of Some c \<Rightarrow> matchExpression c obj | None \<Rightarrow> qbind charge (\<lambda>_. qfail ErrCorrupt))
    | _ \<Rightarrow> qret False) (object_matches c item)"
    using 7 by (cases item) auto
  with 7 show ?case
    unfolding object_any.simps list.set Set.bex_simps by (intro runs_charge runs_or) simp_all
qed auto

section \<open>Query specifications\<close>

definition policy_expr :: "expr option \<Rightarrow> expr" where
  "policy_expr w = (case w of None \<Rightarrow> NilExpr | Some e \<Rightarrow> e)"

definition Constrain :: "QuerySpec \<Rightarrow> QuerySpec \<Rightarrow> QuerySpec" where
  "Constrain q policy =
     \<lparr>qwhere = Some (LogicalExpr ''and'' [policy_expr (qwhere policy), policy_expr (qwhere q)]),
      qsort = qsort q, qskip = qskip q, qlimit = qlimit q, qseek = qseek q\<rparr>"

definition Capped :: "QuerySpec \<Rightarrow> int \<Rightarrow> QuerySpec" where
  "Capped q m =
     (if 0 \<le> m \<and> (case qlimit q of None \<Rightarrow> True | Some l \<Rightarrow> m < l) then q\<lparr>qlimit := Some m\<rparr> else q)"

definition HasModifiers :: "QuerySpec \<Rightarrow> bool" where
  "HasModifiers q \<longleftrightarrow> qsort q \<noteq> [] \<or> qskip q \<noteq> 0 \<or> qlimit q \<noteq> None"

fun collectExprPaths :: "expr \<Rightarrow> bytes set" where
  "collectExprPaths (LogicalExpr op args) = (\<Union>e \<in> set args. collectExprPaths e)"
| "collectExprPaths (NotExpr arg) = collectExprPaths arg"
| "collectExprPaths (CompareExpr cmp path w) = {path}"
| "collectExprPaths (MembershipExpr op path ws) = {path}"
| "collectExprPaths (ExistsExpr path x) = {path}"
| "collectExprPaths (SizeExpr path n) = {path}"
| "collectExprPaths (TypeExpr path types) = {path}"
| "collectExprPaths (AllExpr path ws) = {path}"
| "collectExprPaths (ElemMatchExpr path mode scalar obj) = {path}"
| "collectExprPaths _ = {}"

definition Paths :: "QuerySpec \<Rightarrow> bytes list" where
  "Paths q =
     sorted_list_of_set
       ((case qwhere q of None \<Rightarrow> {} | Some e \<Rightarrow> collectExprPaths e) \<union> Path ` set (qsort q))"

definition SortPaths :: "QuerySpec \<Rightarrow> bytes list" where
  "SortPaths q = map Path (qsort q)"

fun collectFilterCapabilities :: "expr \<Rightarrow> (bytes \<times> string) set" where
  "collectFilterCapabilities (LogicalExpr op args) = (\<Union>e \<in> set args. collectFilterCapabilities e)"
| "collectFilterCapabilities (NotExpr arg) = collectFilterCapabilities arg"
| "collectFilterCapabilities (CompareExpr cmp path w) = {(path, cmp)}"
| "collectFilterCapabilities (MembershipExpr op path ws) = {(path, op)}"
| "collectFilterCapabilities (ExistsExpr path x) = {(path, ''exists'')}"
| "collectFilterCapabilities (SizeExpr path n) = {(path, ''size'')}"
| "collectFilterCapabilities (TypeExpr path types) = {(path, ''type'')}"
| "collectFilterCapabilities (AllExpr path ws) = {(path, ''all'')}"
| "collectFilterCapabilities (ElemMatchExpr path mode scalar obj) = {(path, ''elem_match'')}"
| "collectFilterCapabilities _ = {}"

lemma finite_collectExprPaths [simp]: "finite (collectExprPaths e)"
  by (induction e rule: collectExprPaths.induct) simp_all

lemma matches_paths:
  "\<forall>p \<in> collectExprPaths e. lookupInternal d p = lookupInternal d' p \<Longrightarrow> matches e d = matches e d'"
proof (induction e d rule: matches.induct)
  case (3 op args d)
  then have "matches e d = matches e d'" if "e \<in> set args" for e
    using that by (cases "op = ''and''") auto
  then show ?case by simp
qed simp_all

lemma match_value:
  assumes "expr_ok e"
  shows "matchExpression e d None = (Inr (matches e d), None)"
  using runs_match(1) [OF assms, of d] by (auto simp: computes_some_def computes_def)

section \<open>Range comparison and index order\<close>

text \<open>The integer rounds up onto the float when it is converted.\<close>

fun rounds_onto :: "Value \<Rightarrow> Value \<Rightarrow> bool" where
  "rounds_onto (VInt i) (VFloat f) \<longleftrightarrow>
     int_val i < fval f \<and> fval (float64_of_int64 i) = fval f \<and> fval f < 2 ^ 63 * int funit"
| "rounds_onto _ _ \<longleftrightarrow> False"

definition sem_compare :: "Value \<Rightarrow> Value \<Rightarrow> int" where
  "sem_compare v w = (if value_less v w then -1 else if value_same v w then 0 else 1)"

lemma compareIntFloat_rounds:
  assumes "\<not> math_IsNaN f"
  shows "compareIntFloat i f =
    Some (if rounds_onto (VInt i) (VFloat f) then 1 else sgn (int_val i - fval f))"
  using compareIntFloat_exact [OF assms, of i] by (simp add: float64_of_int64_facts)

lemma sint_eq_iff: "sint a = sint b \<longleftrightarrow> a = (b :: int64)"
  by (auto dest: signed_word_eqI)

lemma int_val_less: "int_val a < int_val b \<longleftrightarrow> a <s b" "int_val a = int_val b \<longleftrightarrow> a = b"
  using funit_pos by (simp_all add: word_sless_alt sint_eq_iff)

lemma compareValues_sem:
  assumes "nan_free v" "nan_free w" "scalarKind (kind v)" "scalarKind (kind w)"
  shows "compareValues v w =
    Some (if rounds_onto v w then 1 else if rounds_onto w v then -1 else sem_compare v w)"
proof (cases "compareNumeric v w")
  case (Some c)
  then consider i f where "v = VInt i" "w = VFloat f" | f i where "v = VFloat f" "w = VInt i"
    by (cases v; cases w) auto
  then show ?thesis
  proof cases
    case 1
    then show ?thesis
      using assms compareIntFloat_rounds [of f i]
      by (auto simp: compareValues_def sem_compare_def value_less_def value_same_def sgn_if)
  next
    case 2
    then show ?thesis
      using assms compareIntFloat_rounds [of f i]
      by (auto simp: compareValues_def sem_compare_def value_less_def value_same_def sgn_if)
  qed
next
  case None
  then have c: "compareValues v w =
      (if kind v \<noteq> kind w then Some (compareValueKinds (kind v) (kind w)) else compare_same_kind v w)"
    using assms by (simp add: compareValues_def)
  have r: "\<not> rounds_onto v w" "\<not> rounds_onto w v"
    using None assms by (cases v; cases w; simp add: compareIntFloat_def split: if_splits)+
  show ?thesis
  proof (cases "kind v = kind w")
    case True
    then show ?thesis
      using c r assms int_val_less
      by (cases v; cases w) (auto simp: sem_compare_def value_less_def value_same_def scalarKind_def
          bytes_Compare_def float_less_def)
  next
    case False
    then show ?thesis
      using c r assms None
      by (cases v; cases w) (auto simp: sem_compare_def value_less_def value_same_def scalarKind_def
          compareValueKinds_def valueKindRank_def compareIntFloat_def split: if_splits)
  qed
qed

section \<open>Properties\<close>

text \<open>
  C13 Evaluating a filter answers exactly the reference predicate when there is no
  budget. Under a budget the evaluation takes a number of predicate steps that depends only on the filter
  and the document: when they fit in what is left, the answer is the same and exactly those steps are
  charged; otherwise the evaluation stops with \<open>ErrQueryBudget\<close>, the counter stands at the limit
  and the dimension is recorded. The step counter never passes its limit.
\<close>

theorem match_within_budget:
  assumes "expr_ok e"
  shows "matchExpression e d None = (Inr (matches e d), None) \<and>
    (\<exists>n. \<forall>b. predicateSteps b \<le> MaxQueryPredicateSteps (blimits b) \<longrightarrow>
       matchExpression e d (Some b) =
         (if n \<le> unat (MaxQueryPredicateSteps (blimits b)) - unat (predicateSteps b)
          then (Inr (matches e d), Some (b\<lparr>predicateSteps := predicateSteps b + of_nat n\<rparr>))
          else (Inl ErrQueryBudget, Some (spent b))) \<and>
       predicateSteps (the (snd (matchExpression e d (Some b)))) \<le> MaxQueryPredicateSteps (blimits b))"
proof -
  obtain n where n: "computes (matchExpression e d) (matches e d) n"
    using runs_match(1) [OF assms] by (auto simp: computes_some_def)
  have le: "predicateSteps b + of_nat n \<le> MaxQueryPredicateSteps (blimits b)"
    if "within b" "n \<le> room b" for b
    using that within_add(2) by (simp add: within_def)
  have sp: "predicateSteps (spent b) = MaxQueryPredicateSteps (blimits b)" for b
    by (simp add: spent_def reject_def)
  show ?thesis
    using n le sp unfolding computes_def within_def
    by (intro conjI exI [of _ n]) auto
qed

theorem match_within_budget_witness:
  "matchExpression (NotExpr (ExistsExpr [97] True)) [([97], VNull)] None = (Inr False, None)"
  using match_within_budget [of "NotExpr (ExistsExpr [97] True)" "[([97], VNull)]"]
  by (simp add: lookupInternal_def split_dot.simps lookup_parts.simps)

text \<open>
  C24 The paths a query reports are all it reads: two documents with the same values at
  \<open>Paths\<close> satisfy the filter alike, and a constrained query matches exactly the documents that both
  the query and the policy match.
\<close>

theorem match_reads_paths:
  assumes "expr_ok e" "expr_ok p"
    and "qwhere q = Some e" "qwhere policy = Some p"
    and "\<forall>x \<in> set (Paths q). lookupInternal d x = lookupInternal d' x"
  shows "Match q d = Match q d' \<and>
    Match (Constrain q policy) d = (Match q d \<and> Match policy d) \<and>
    set (Paths (Constrain q policy)) = set (Paths q) \<union> collectExprPaths p"
proof -
  have "matches e d = matches e d'"
    by (rule matches_paths) (use assms in \<open>simp add: Paths_def\<close>)
  moreover have "expr_ok (LogicalExpr ''and'' [p, e])" using assms by simp
  note match_value [OF this, of d]
  ultimately show ?thesis
    using match_value [OF assms(1), of d] match_value [OF assms(1), of d'] match_value [OF assms(2), of d] assms
    by (auto simp: Match_def matchWithBudget_def Constrain_def policy_expr_def Paths_def)
qed

theorem match_reads_paths_witness:
  "Match (Constrain \<lparr>qwhere = Some (ExistsExpr [97] True), qsort = [], qskip = 0, qlimit = None, qseek = False\<rparr>
      \<lparr>qwhere = Some (CompareExpr ''eq'' [98] (VInt 1)), qsort = [], qskip = 0, qlimit = None, qseek = False\<rparr>)
      [([97], VNull), ([98], VInt 1)]"
  using match_reads_paths [of "ExistsExpr [97] True" "CompareExpr ''eq'' [98] (VInt 1)"
      "\<lparr>qwhere = Some (ExistsExpr [97] True), qsort = [], qskip = 0, qlimit = None, qseek = False\<rparr>"
      "\<lparr>qwhere = Some (CompareExpr ''eq'' [98] (VInt 1)), qsort = [], qskip = 0, qlimit = None, qseek = False\<rparr>"
      "[([97], VNull), ([98], VInt 1)]" "[([97], VNull), ([98], VInt 1)]"]
  by (simp add: Match_def matchWithBudget_def match_value lookupInternal_def split_dot.simps
      lookup_parts.simps compares_def field_equal_def value_Equal.simps)

lemma compareValues_keys:
  assumes "value_wf v" "value_wf w" "encodeIndexKey v = Inr x" "encodeIndexKey w = Inr y"
  shows "compareValues v w = Some (bytes_Compare x y) \<longleftrightarrow> \<not> rounds_onto v w \<and> \<not> rounds_onto w v"
proof -
  have wf: "node_wf v" "node_wf w" using assms(1,2) by (simp_all add: value_all.simps)
  have s: "nan_free z" "scalarKind (kind z)" if "encodeIndexKey z = Inr k" for z k
    using that encodeIndexKey_defined [of z] by (cases z; auto simp: scalarKind_def)+
  have b: "bytes_Compare x y = sem_compare v w"
    using scalar.key_less [OF wf assms(3,4)] scalar.key_eq [OF wf assms(3,4)]
    by (auto simp: bytes_Compare_def sem_compare_def)
  have "rounds_onto v w \<Longrightarrow> sem_compare v w = -1" "rounds_onto w v \<Longrightarrow> sem_compare v w = 1"
    by (cases v; cases w; auto simp: sem_compare_def value_less_def value_same_def)+
  then show ?thesis
    using compareValues_sem [of v w] s assms(3,4) b by auto
qed

text \<open>
  C25 Range comparison in a filter and byte order in an index agree on two scalar
  values exactly when neither operand is an integer that rounds up onto the other, a float. There the
  comparison reports the wrong sign, so a scan of the index and a scan of the collection disagree.
\<close>

theorem compareValues_index_order:
  assumes "value_wf v" "value_wf w" "encodeIndexKey v = Inr x" "encodeIndexKey w = Inr y"
  shows "compareValues v w = Some (bytes_Compare x y) \<longleftrightarrow> \<not> rounds_onto v w \<and> \<not> rounds_onto w v"
  using assms by (rule compareValues_keys)

lemma rounds_onto_pow53: "rounds_onto (VInt 0x20000000000003) (VFloat 0x4340000000000002)"
proof -
  have i: "int_val 0x20000000000003 = (2 ^ 53 + 3) * int funit" by simp
  have "int_val 0x20000000000003 < fval 0x4340000000000002"
    unfolding fval_pow53_4 i by (rule mult_strict_right_mono) simp_all
  moreover have "fval (float64_of_int64 0x20000000000003) = fval 0x4340000000000002"
    unfolding float64_of_int64_facts i rnd_pow53_3 fval_pow53_4 ..
  moreover have "fval 0x4340000000000002 < 2 ^ 63 * int funit"
    unfolding fval_pow53_4 by (rule mult_strict_right_mono) simp_all
  ultimately show ?thesis by simp
qed

theorem compareValues_index_order_witness:
  "compareValues (VInt 0x20000000000003) (VFloat 0x4340000000000002) \<noteq>
     Some (bytes_Compare (projr (encodeIndexKey (VInt 0x20000000000003)))
       (projr (encodeIndexKey (VFloat 0x4340000000000002)))) \<and>
   compareValues VNull (VInt 5) =
     Some (bytes_Compare (projr (encodeIndexKey VNull)) (projr (encodeIndexKey (VInt 5))))"
proof -
  have r: "rounds_onto (VInt 0x20000000000003) (VFloat 0x4340000000000002)"
    by (rule rounds_onto_pow53)
  have k: "encodeIndexKey v = Inr (projr (encodeIndexKey v))" if "\<exists>x. encodeIndexKey v = Inr x" for v
    using that by auto
  have f: "float_finite 0x4340000000000002"
    by (simp add: float_abs_bits_def inf_bits_def math_IsNaN_def math_IsInf_def)
  show ?thesis
    using compareValues_index_order [of "VInt 0x20000000000003" "VFloat 0x4340000000000002", OF _ _ k k] r f
      compareValues_index_order [of "VNull" "VInt 5", OF _ _ k k]
    unfolding encodeIndexKey_defined by (simp del: rounds_onto.simps(1))
qed

end
