(* ===== verification/Query_Validate.thy ===== *)
theory Query_Validate
  imports Query_Match
begin

text \<open>
  Validation of compiled queries, \<open>internal/database/query_validate.go\<close>, with the limits, type names and
  paths of \<open>query.go\<close> and the value sizes of \<open>query_wire.go\<close>. The validator carries its node counter
  through the expression; every rejection of the file wraps \<open>ErrInvalidFilter\<close>. The JSON encoder that
  measures the query on the wire is an argument of \<open>validateQuerySpec\<close>.

  The reference is a predicate \<open>expr_valid\<close> on expressions and a count \<open>expr_nodes\<close>: the validator accepts
  exactly the valid expressions whose nodes fit, and counts them exactly.
\<close>

section \<open>Limits, paths and type names\<close>

record QueryLimits =
  MaxWireBytes :: int
  MaxDepth :: int
  MaxNodes :: int
  MaxArrayItems :: int
  MaxValueBytes :: int
  MaxSortFields :: int
  MaxLimit :: int

definition DefaultQueryLimits :: QueryLimits where
  "DefaultQueryLimits =
     \<lparr>MaxWireBytes = 2 ^ 20, MaxDepth = 16, MaxNodes = 128, MaxArrayItems = 256, MaxValueBytes = 16384,
      MaxSortFields = 4, MaxLimit = 10000\<rparr>"

definition maxQueryArraySize :: int64 where
  "maxQueryArraySize = 2 ^ 53 - 1"

definition normalizedLimits :: "QueryLimits \<Rightarrow> QueryLimits" where
  "normalizedLimits l =
     (let positive = (\<lambda>x d. if x \<le> 0 then d else x)
      in \<lparr>MaxWireBytes = positive (MaxWireBytes l) (MaxWireBytes DefaultQueryLimits),
          MaxDepth = positive (MaxDepth l) (MaxDepth DefaultQueryLimits),
          MaxNodes = positive (MaxNodes l) (MaxNodes DefaultQueryLimits),
          MaxArrayItems = positive (MaxArrayItems l) (MaxArrayItems DefaultQueryLimits),
          MaxValueBytes = positive (MaxValueBytes l) (MaxValueBytes DefaultQueryLimits),
          MaxSortFields = positive (MaxSortFields l) (MaxSortFields DefaultQueryLimits),
          MaxLimit = positive (MaxLimit l) (MaxLimit DefaultQueryLimits)\<rparr>)"

definition validatePath :: "bytes \<Rightarrow> db_error + unit" where
  "validatePath path =
     (if path = [] \<or> 512 < length path then Inl ErrInvalidFilter
      else if \<forall>part \<in> set (split_dot path). validField part then Inr ()
      else Inl ErrInvalidFilter)"

definition canonicalQueryTypes :: "(bytes \<times> nat) list" where
  "canonicalQueryTypes =
     [(str ''null'', 0), (str ''boolean'', 1), (str ''int64'', 2), (str ''float64'', 3), (str ''string'', 4),
      (str ''date'', 6), (str ''id'', 9), (str ''binary'', 5), (str ''array'', 7), (str ''object'', 8)]"

fun select_types :: "bytes list \<Rightarrow> nat set \<Rightarrow> db_error + nat set" where
  "select_types [] selected = Inr selected"
| "select_types (name # names) selected =
     (case map_of canonicalQueryTypes name of
        None \<Rightarrow> Inl ErrInvalidFilter
      | Some k \<Rightarrow> select_types names (insert k selected))"

definition normalizeQueryTypes :: "bytes list \<Rightarrow> int \<Rightarrow> db_error + nat list" where
  "normalizeQueryTypes names maxItems =
     (if names = [] \<or> maxItems < int (length names) then Inl ErrInvalidFilter
      else rbind (select_types names {})
        (\<lambda>selected. Inr (filter (\<lambda>k. k \<in> selected) (map snd canonicalQueryTypes))))"

fun find_type_name :: "nat \<Rightarrow> (bytes \<times> nat) list \<Rightarrow> bytes list" where
  "find_type_name k [] = []"
| "find_type_name k ((name, c) # cs) = (if k = c then [name] else find_type_name k cs)"

definition queryTypeNames :: "nat list \<Rightarrow> bytes list" where
  "queryTypeNames types = concat (map (\<lambda>k. find_type_name k canonicalQueryTypes) types)"

fun containsQueryValue :: "Value list \<Rightarrow> Value \<Rightarrow> bool" where
  "containsQueryValue [] candidate = False"
| "containsQueryValue (v # vs) candidate = (value_Equal v candidate \<or> containsQueryValue vs candidate)"

fun wireValueBytes :: "Value \<Rightarrow> nat" where
  "wireValueBytes v =
     (case v of
        VNull \<Rightarrow> 1 | VBool _ \<Rightarrow> 1
      | VInt _ \<Rightarrow> 8 | VFloat _ \<Rightarrow> 8 | VTime _ \<Rightarrow> 8
      | VID _ \<Rightarrow> 16
      | VString s \<Rightarrow> length s
      | VBinary b \<Rightarrow> length b
      | VArray vs \<Rightarrow> sum_list (map wireValueBytes vs)
      | VObject d \<Rightarrow> sum_list (map (\<lambda>(k, w). length k + wireValueBytes w) d))"

declare wireValueBytes.simps [simp del]

section \<open>Sort fields\<close>

fun validate_sort_fields :: "SortField list \<Rightarrow> bytes set \<Rightarrow> db_error + unit" where
  "validate_sort_fields [] seen = Inr ()"
| "validate_sort_fields (f # fs) seen =
     rbind (validatePath (Path f))
       (\<lambda>_. if Direction f \<noteq> 1 \<and> Direction f \<noteq> -1 then Inl ErrInvalidFilter
            else if Path f \<in> seen then Inl ErrInvalidFilter
            else validate_sort_fields fs (insert (Path f) seen))"

definition validateSortFields :: "SortField list \<Rightarrow> QueryLimits \<Rightarrow> db_error + unit" where
  "validateSortFields fs limits =
     (if MaxSortFields limits < int (length fs) then Inl ErrInvalidFilter else validate_sort_fields fs {})"

section \<open>Expressions\<close>

fun validator_value :: "QueryLimits \<Rightarrow> int \<Rightarrow> Value \<Rightarrow> db_error + unit"
  and validator_items :: "QueryLimits \<Rightarrow> int \<Rightarrow> Value list \<Rightarrow> db_error + unit"
  and validator_fields :: "QueryLimits \<Rightarrow> int \<Rightarrow> Document \<Rightarrow> db_error + unit" where
  "validator_value lim depth v =
     (if MaxDepth lim < depth then Inl ErrInvalidFilter
      else case v of
          VFloat f \<Rightarrow> if math_IsNaN f \<or> math_IsInf f then Inl ErrInvalidFilter else Inr ()
        | VString s \<Rightarrow> if utf8_Valid s then Inr () else Inl ErrInvalidFilter
        | VArray vs \<Rightarrow>
            if MaxArrayItems lim < int (length vs) then Inl ErrInvalidFilter
            else validator_items lim (depth + 1) vs
        | VObject d \<Rightarrow>
            if MaxArrayItems lim < int (length d) then Inl ErrInvalidFilter
            else validator_fields lim (depth + 1) d
        | _ \<Rightarrow> Inr ())"
| "validator_items lim depth [] = Inr ()"
| "validator_items lim depth (v # vs) =
     rbind (validator_value lim depth v) (\<lambda>_. validator_items lim depth vs)"
| "validator_fields lim depth [] = Inr ()"
| "validator_fields lim depth ((k, v) # d) =
     (if validField k then rbind (validator_value lim depth v) (\<lambda>_. validator_fields lim depth d)
      else Inl ErrInvalidFilter)"

declare validator_value.simps [simp del]

definition validator_operand :: "QueryLimits \<Rightarrow> bytes \<Rightarrow> Value \<Rightarrow> db_error + unit" where
  "validator_operand lim path v =
     rbind (validatePath path)
       (\<lambda>_. if path = field_id \<and> kind v \<noteq> 9 then Inl ErrInvalidFilter
            else rbind (validator_value lim 0 v)
              (\<lambda>_. if MaxValueBytes lim < int (wireValueBytes v) then Inl ErrInvalidFilter else Inr ()))"

fun validator_operands :: "QueryLimits \<Rightarrow> bytes \<Rightarrow> Value list \<Rightarrow> db_error + unit" where
  "validator_operands lim path [] = Inr ()"
| "validator_operands lim path (v # vs) =
     rbind (validator_operand lim path v) (\<lambda>_. validator_operands lim path vs)"

fun validator_all :: "QueryLimits \<Rightarrow> bytes \<Rightarrow> Value list \<Rightarrow> Value list \<Rightarrow> db_error + unit" where
  "validator_all lim path before [] = Inr ()"
| "validator_all lim path before (v # vs) =
     rbind (validator_operand lim path v)
       (\<lambda>_. if containsQueryValue before v then Inl ErrInvalidFilter
            else validator_all lim path (before @ [v]) vs)"

definition comparison_op :: "string \<Rightarrow> bool" where
  "comparison_op cmp \<longleftrightarrow> cmp \<in> {''eq'', ''ne'', ''gt'', ''gte'', ''lt'', ''lte''}"

fun validator_element :: "QueryLimits \<Rightarrow> elementExpr \<Rightarrow> int \<Rightarrow> int \<Rightarrow> db_error + int"
  and validator_elements :: "QueryLimits \<Rightarrow> elementExpr list \<Rightarrow> int \<Rightarrow> int \<Rightarrow> db_error + int" where
  "validator_element lim e depth nodes =
     (if MaxDepth lim < depth then Inl ErrInvalidFilter
      else if MaxNodes lim < nodes + 1 then Inl ErrInvalidFilter
      else case e of
          ElementLogical op args \<Rightarrow>
            if op \<noteq> ''and'' \<and> op \<noteq> ''or'' \<or> args = [] \<or> MaxArrayItems lim < int (length args)
            then Inl ErrInvalidFilter
            else validator_elements lim args (depth + 1) (nodes + 1)
        | ElementNot arg \<Rightarrow> validator_element lim arg (depth + 1) (nodes + 1)
        | ElementCompare cmp w \<Rightarrow>
            if \<not> comparison_op cmp then Inl ErrInvalidFilter
            else rbind (validator_value lim 0 w) (\<lambda>_. Inr (nodes + 1))
        | ElementMembership op ws \<Rightarrow>
            if op \<noteq> ''in'' \<and> op \<noteq> ''nin'' \<or> MaxArrayItems lim < int (length ws) then Inl ErrInvalidFilter
            else rbind (validator_items lim 0 ws) (\<lambda>_. Inr (nodes + 1)))"
| "validator_elements lim [] depth nodes = Inr nodes"
| "validator_elements lim (e # es) depth nodes =
     rbind (validator_element lim e depth nodes) (validator_elements lim es depth)"

declare validator_element.simps [simp del]

function (sequential) validator_expression :: "QueryLimits \<Rightarrow> expr \<Rightarrow> int \<Rightarrow> int \<Rightarrow> db_error + int"
  and validator_expressions :: "QueryLimits \<Rightarrow> expr list \<Rightarrow> int \<Rightarrow> int \<Rightarrow> db_error + int" where
  "validator_expression lim e depth nodes =
     (if MaxDepth lim < depth then Inl ErrInvalidFilter
      else if MaxNodes lim < nodes + 1 then Inl ErrInvalidFilter
      else case e of
          TrueExpr \<Rightarrow> Inr (nodes + 1)
        | LogicalExpr op args \<Rightarrow>
            if op \<noteq> ''and'' \<and> op \<noteq> ''or'' \<or> args = [] \<or> MaxArrayItems lim < int (length args)
            then Inl ErrInvalidFilter
            else validator_expressions lim args (depth + 1) (nodes + 1)
        | NotExpr arg \<Rightarrow>
            if arg = NilExpr then Inl ErrInvalidFilter
            else validator_expression lim arg (depth + 1) (nodes + 1)
        | CompareExpr cmp path w \<Rightarrow>
            if \<not> comparison_op cmp then Inl ErrInvalidFilter
            else rbind (validator_operand lim path w) (\<lambda>_. Inr (nodes + 1))
        | MembershipExpr op path ws \<Rightarrow>
            if op \<noteq> ''in'' \<and> op \<noteq> ''nin'' \<or> MaxArrayItems lim < int (length ws) then Inl ErrInvalidFilter
            else rbind (validator_operands lim path ws) (\<lambda>_. Inr (nodes + 1))
        | ExistsExpr path x \<Rightarrow> rbind (validatePath path) (\<lambda>_. Inr (nodes + 1))
        | SizeExpr path n \<Rightarrow>
            rbind (validatePath path)
              (\<lambda>_. if n <s 0 \<or> maxQueryArraySize <s n then Inl ErrInvalidFilter else Inr (nodes + 1))
        | TypeExpr path types \<Rightarrow>
            rbind (validatePath path)
              (\<lambda>_. if types = [] \<or> MaxArrayItems lim < int (length types) then Inl ErrInvalidFilter
                   else case normalizeQueryTypes (queryTypeNames types) (MaxArrayItems lim) of
                       Inl _ \<Rightarrow> Inl ErrInvalidFilter
                     | Inr normalized \<Rightarrow>
                         if normalized \<noteq> types then Inl ErrInvalidFilter else Inr (nodes + 1))
        | AllExpr path ws \<Rightarrow>
            rbind (validatePath path)
              (\<lambda>_. if ws = [] \<or> MaxArrayItems lim < int (length ws) then Inl ErrInvalidFilter
                   else rbind (validator_all lim path [] ws) (\<lambda>_. Inr (nodes + 1)))
        | ElemMatchExpr path mode scalar obj \<Rightarrow>
            rbind (validatePath path)
              (\<lambda>_. if mode = ''scalar'' then
                     (case (scalar, obj) of
                        (Some c, None) \<Rightarrow> validator_element lim c (depth + 1) (nodes + 1)
                      | _ \<Rightarrow> Inl ErrInvalidFilter)
                   else if mode = ''object'' then
                     (case (obj, scalar) of
                        (Some c, None) \<Rightarrow> validator_expression lim c (depth + 1) (nodes + 1)
                      | _ \<Rightarrow> Inl ErrInvalidFilter)
                   else Inl ErrInvalidFilter)
        | NilExpr \<Rightarrow> Inl ErrInvalidFilter)"
| "validator_expressions lim [] depth nodes = Inr nodes"
| "validator_expressions lim (e # es) depth nodes =
     (if e = NilExpr then Inl ErrInvalidFilter
      else rbind (validator_expression lim e depth nodes) (validator_expressions lim es depth))"
  by pat_completeness auto
termination
  by (relation "measure (\<lambda>x. case x of Inl (_, e, _) \<Rightarrow> size e | Inr (_, es, _) \<Rightarrow> size_list size es)") auto

declare validator_expression.simps [simp del]

definition validateQuerySpec ::
  "(QuerySpec \<Rightarrow> db_error + bytes) \<Rightarrow> QuerySpec \<Rightarrow> QueryLimits \<Rightarrow> db_error + unit" where
  "validateQuerySpec marshal query limits =
     (let limits = normalizedLimits limits
      in case qwhere query of
           None \<Rightarrow> Inl ErrInvalidFilter
         | Some e \<Rightarrow>
             rbind (validateSortFields (qsort query) limits)
               (\<lambda>_. if qskip query < 0 then Inl ErrInvalidFilter
                    else if case qlimit query of None \<Rightarrow> False | Some l \<Rightarrow> l < 0 \<or> MaxLimit limits < l
                    then Inl ErrInvalidFilter
                    else if qseek query \<and> (qsort query = [] \<or> qlimit query = None) then Inl ErrInvalidFilter
                    else rbind (validator_expression limits e 0 0)
                      (\<lambda>_. rbind (marshal query)
                        (\<lambda>encoded. if MaxWireBytes limits < int (length encoded) then Inl ErrInvalidFilter
                                   else Inr ()))))"

section \<open>Reference\<close>

text \<open>Depth is relative: \<open>expr_height\<close> counts nested expressions, \<open>value_depth\<close> nested values.\<close>

fun value_valid :: "QueryLimits \<Rightarrow> int \<Rightarrow> Value \<Rightarrow> bool" where
  "value_valid lim left v \<longleftrightarrow>
     0 \<le> left \<and>
     (case v of
        VFloat f \<Rightarrow> \<not> math_IsNaN f \<and> \<not> math_IsInf f
      | VString s \<Rightarrow> utf8_Valid s
      | VArray vs \<Rightarrow> int (length vs) \<le> MaxArrayItems lim \<and> (\<forall>w \<in> set vs. value_valid lim (left - 1) w)
      | VObject d \<Rightarrow>
          int (length d) \<le> MaxArrayItems lim \<and>
          (\<forall>p \<in> set d. validField (fst p) \<and> value_valid lim (left - 1) (snd p))
      | _ \<Rightarrow> True)"

declare value_valid.simps [simp del]

definition path_valid :: "bytes \<Rightarrow> bool" where
  "path_valid path \<longleftrightarrow> path \<noteq> [] \<and> length path \<le> 512 \<and> (\<forall>part \<in> set (split_dot path). validField part)"

definition operand_valid :: "QueryLimits \<Rightarrow> bytes \<Rightarrow> Value \<Rightarrow> bool" where
  "operand_valid lim path w \<longleftrightarrow>
     path_valid path \<and> (path = field_id \<longrightarrow> kind w = 9) \<and> value_valid lim (MaxDepth lim) w \<and>
     int (wireValueBytes w) \<le> MaxValueBytes lim"

fun element_nodes :: "elementExpr \<Rightarrow> int" where
  "element_nodes (ElementLogical op args) = 1 + sum_list (map element_nodes args)"
| "element_nodes (ElementNot arg) = 1 + element_nodes arg"
| "element_nodes _ = 1"

fun element_valid :: "QueryLimits \<Rightarrow> int \<Rightarrow> elementExpr \<Rightarrow> bool" where
  "element_valid lim left (ElementLogical op args) \<longleftrightarrow>
     0 \<le> left \<and> op \<in> {''and'', ''or''} \<and> args \<noteq> [] \<and> int (length args) \<le> MaxArrayItems lim \<and>
     (\<forall>e \<in> set args. element_valid lim (left - 1) e)"
| "element_valid lim left (ElementNot arg) \<longleftrightarrow> 0 \<le> left \<and> element_valid lim (left - 1) arg"
| "element_valid lim left (ElementCompare cmp w) \<longleftrightarrow>
     0 \<le> left \<and> comparison_op cmp \<and> value_valid lim (MaxDepth lim) w"
| "element_valid lim left (ElementMembership op ws) \<longleftrightarrow>
     0 \<le> left \<and> op \<in> {''in'', ''nin''} \<and> int (length ws) \<le> MaxArrayItems lim \<and>
     (\<forall>w \<in> set ws. value_valid lim (MaxDepth lim) w)"

fun expr_nodes :: "expr \<Rightarrow> int" where
  "expr_nodes (LogicalExpr op args) = 1 + sum_list (map expr_nodes args)"
| "expr_nodes (NotExpr arg) = 1 + expr_nodes arg"
| "expr_nodes (ElemMatchExpr path mode (Some c) obj) = 1 + element_nodes c"
| "expr_nodes (ElemMatchExpr path mode None (Some c)) = 1 + expr_nodes c"
| "expr_nodes _ = 1"

fun expr_valid :: "QueryLimits \<Rightarrow> int \<Rightarrow> expr \<Rightarrow> bool" where
  "expr_valid lim left NilExpr \<longleftrightarrow> False"
| "expr_valid lim left TrueExpr \<longleftrightarrow> 0 \<le> left"
| "expr_valid lim left (LogicalExpr op args) \<longleftrightarrow>
     0 \<le> left \<and> op \<in> {''and'', ''or''} \<and> args \<noteq> [] \<and> int (length args) \<le> MaxArrayItems lim \<and>
     (\<forall>e \<in> set args. expr_valid lim (left - 1) e)"
| "expr_valid lim left (NotExpr arg) \<longleftrightarrow> 0 \<le> left \<and> expr_valid lim (left - 1) arg"
| "expr_valid lim left (CompareExpr cmp path w) \<longleftrightarrow>
     0 \<le> left \<and> comparison_op cmp \<and> operand_valid lim path w"
| "expr_valid lim left (MembershipExpr op path ws) \<longleftrightarrow>
     0 \<le> left \<and> op \<in> {''in'', ''nin''} \<and> int (length ws) \<le> MaxArrayItems lim \<and>
     (\<forall>w \<in> set ws. operand_valid lim path w)"
| "expr_valid lim left (ExistsExpr path x) \<longleftrightarrow> 0 \<le> left \<and> path_valid path"
| "expr_valid lim left (SizeExpr path n) \<longleftrightarrow> 0 \<le> left \<and> path_valid path \<and> 0 <=s n \<and> n <=s maxQueryArraySize"
| "expr_valid lim left (TypeExpr path types) \<longleftrightarrow>
     0 \<le> left \<and> path_valid path \<and> types \<noteq> [] \<and> int (length types) \<le> MaxArrayItems lim \<and>
     types = filter (\<lambda>k. k \<in> set types) (map snd canonicalQueryTypes)"
| "expr_valid lim left (AllExpr path ws) \<longleftrightarrow>
     0 \<le> left \<and> path_valid path \<and> ws \<noteq> [] \<and> int (length ws) \<le> MaxArrayItems lim \<and>
     (\<forall>w \<in> set ws. operand_valid lim path w) \<and> sorted_wrt (\<lambda>v w. \<not> value_Equal v w) ws"
| "expr_valid lim left (ElemMatchExpr path mode scalar obj) \<longleftrightarrow>
     0 \<le> left \<and> path_valid path \<and>
     (mode = ''scalar'' \<and> obj = None \<and> (case scalar of Some c \<Rightarrow> element_valid lim (left - 1) c | None \<Rightarrow> False) \<or>
      mode = ''object'' \<and> scalar = None \<and> (case obj of Some c \<Rightarrow> expr_valid lim (left - 1) c | None \<Rightarrow> False))"

section \<open>The validator decides the reference\<close>

definition accept :: "bool \<Rightarrow> 'a \<Rightarrow> db_error + 'a" where
  "accept ok x = (if ok then Inr x else Inl ErrInvalidFilter)"

lemma accept_rbind [simp]: "rbind (accept ok x) f = (if ok then f x else Inl ErrInvalidFilter)"
  by (simp add: accept_def)

lemma accept_fold:
  "(if c then Inl ErrInvalidFilter else accept ok x) = accept (\<not> c \<and> ok) x"
  "(if c then accept ok x else Inl ErrInvalidFilter) = accept (c \<and> ok) x"
  "(if c then Inl ErrInvalidFilter else Inr x) = accept (\<not> c) x"
  "(if c then Inr x else Inl ErrInvalidFilter) = accept c x"
  by (simp_all add: accept_def)

lemma accept_cong: "ok = ok' \<Longrightarrow> (ok' \<Longrightarrow> x = x') \<Longrightarrow> accept ok x = accept ok' x'"
  by (simp add: accept_def)

lemma validatePath_accept: "validatePath path = accept (path_valid path) ()"
  by (auto simp: validatePath_def path_valid_def accept_def)

lemma validator_value_accept:
  "validator_value lim depth v = accept (value_valid lim (MaxDepth lim - depth) v) ()"
  "validator_items lim depth vs = accept (\<forall>v \<in> set vs. value_valid lim (MaxDepth lim - depth) v) ()"
  "validator_fields lim depth d =
     accept (\<forall>p \<in> set d. validField (fst p) \<and> value_valid lim (MaxDepth lim - depth) (snd p)) ()"
proof (induction lim depth v and lim depth vs and lim depth d
    rule: validator_value_validator_items_validator_fields.induct)
  case (1 lim depth v)
  have d: "MaxDepth lim - (depth + 1) = MaxDepth lim - depth - 1" by simp
  show ?case
  proof (cases v)
    case (VArray vs)
    then show ?thesis using "1.IH"(1) [OF _ VArray]
      by (auto simp: validator_value.simps value_valid.simps [of lim _ "VArray vs"] accept_def d)
  next
    case (VObject x)
    then show ?thesis using "1.IH"(2) [OF _ VObject]
      by (auto simp: validator_value.simps value_valid.simps [of lim _ "VObject x"] accept_def d)
  qed (simp_all add: validator_value.simps value_valid.simps accept_def)
qed (simp_all add: accept_def)

lemma validator_operand_accept: "validator_operand lim path v = accept (operand_valid lim path v) ()"
  by (auto simp: validator_operand_def operand_valid_def validatePath_accept validator_value_accept accept_def)

lemma validator_operands_accept:
  "validator_operands lim path vs = accept (\<forall>v \<in> set vs. operand_valid lim path v) ()"
  by (induction vs) (auto simp: validator_operand_accept accept_def)

lemma containsQueryValue_iff: "containsQueryValue vs c \<longleftrightarrow> (\<exists>v \<in> set vs. value_Equal v c)"
  by (induction vs) auto

lemma validator_all_accept:
  "validator_all lim path before vs =
    accept ((\<forall>v \<in> set vs. operand_valid lim path v) \<and> sorted_wrt (\<lambda>v w. \<not> value_Equal v w) vs \<and>
      (\<forall>b \<in> set before. \<forall>v \<in> set vs. \<not> value_Equal b v)) ()"
  by (induction vs arbitrary: before)
    (auto simp: validator_operand_accept containsQueryValue_iff accept_def)

lemma element_nodes_pos: "1 \<le> element_nodes e"
proof (induction e)
  case (ElementLogical op args)
  then have "0 \<le> sum_list (map element_nodes args)"
    by (intro sum_list_nonneg) force
  then show ?case by simp
qed simp_all

lemma expr_nodes_pos: "1 \<le> expr_nodes e"
proof (induction e rule: expr_nodes.induct)
  case (1 op args)
  then have "0 \<le> sum_list (map expr_nodes args)"
    by (intro sum_list_nonneg) force
  then show ?case by simp
next
  case (3 path mode c obj)
  then show ?case using element_nodes_pos [of c] by simp
qed simp_all

lemma sum_nodes_nonneg:
  "0 \<le> sum_list (map element_nodes es)" "0 \<le> sum_list (map expr_nodes fs)"
  using element_nodes_pos expr_nodes_pos
  by (intro sum_list_nonneg; force dest: order_trans [OF zero_le_one])+

lemma validator_element_accept:
  "validator_element lim e depth n =
     accept (element_valid lim (MaxDepth lim - depth) e \<and> n + element_nodes e \<le> MaxNodes lim) (n + element_nodes e)"
  "n \<le> MaxNodes lim \<Longrightarrow> validator_elements lim es depth n =
     accept ((\<forall>e \<in> set es. element_valid lim (MaxDepth lim - depth) e) \<and>
         n + sum_list (map element_nodes es) \<le> MaxNodes lim) (n + sum_list (map element_nodes es))"
proof (induction lim e depth n and lim es depth n rule: validator_element_validator_elements.induct)
  case (1 lim e depth n)
  have d: "MaxDepth lim - (depth + 1) = MaxDepth lim - depth - 1" by simp
  show ?case
  proof (cases e)
    case (ElementLogical op args)
    then show ?thesis
      using "1.IH"(1) [OF _ _ ElementLogical] sum_nodes_nonneg(1) [of args]
      by (auto simp: validator_element.simps accept_def d algebra_simps)
  next
    case (ElementNot arg)
    then show ?thesis
      using "1.IH"(2) [OF _ _ ElementNot] element_nodes_pos [of arg]
      by (auto simp: validator_element.simps accept_def d algebra_simps)
  qed (auto simp: validator_element.simps accept_def validator_value_accept)
next
  case (3 lim e es depth n)
  then show ?case
    using sum_nodes_nonneg(1) [of es] by (auto simp: accept_def algebra_simps)
qed (simp_all add: accept_def)

lemma select_types_known:
  "\<forall>x \<in> set names. x \<in> fst ` set canonicalQueryTypes \<Longrightarrow>
    select_types names s = Inr (s \<union> (\<lambda>x. the (map_of canonicalQueryTypes x)) ` set names)"
proof (induction names arbitrary: s)
  case (Cons x names)
  then obtain k where "map_of canonicalQueryTypes x = Some k"
    by (metis list.set_intros(1) map_of_eq_None_iff option.exhaust)
  then show ?case using Cons by simp
qed simp

lemma find_type_name_cases:
  "find_type_name k canonicalQueryTypes =
    (case map_of (map prod.swap canonicalQueryTypes) k of None \<Rightarrow> [] | Some name \<Rightarrow> [name])"
  by (simp add: canonicalQueryTypes_def)

lemma canonical_distinct: "distinct (map snd canonicalQueryTypes)" "distinct (map fst canonicalQueryTypes)"
  by (simp_all add: canonicalQueryTypes_def str_def)

lemma type_name_roundtrip:
  assumes "map_of (map prod.swap canonicalQueryTypes) k = Some name"
  shows "map_of canonicalQueryTypes name = Some k"
proof -
  have "(name, k) \<in> set canonicalQueryTypes" using map_of_SomeD [OF assms] by auto
  then show ?thesis using canonical_distinct(2) by simp
qed

lemma known_type_iff:
  "k \<in> snd ` set canonicalQueryTypes \<longleftrightarrow> map_of (map prod.swap canonicalQueryTypes) k \<noteq> None"
  unfolding map_of_eq_None_iff by (simp add: image_image)

lemma queryTypeNames_select:
  "select_types (queryTypeNames types) s = Inr (s \<union> (set types \<inter> snd ` set canonicalQueryTypes))"
proof (induction types arbitrary: s)
  case (Cons k types)
  show ?case
  proof (cases "map_of (map prod.swap canonicalQueryTypes) k")
    case None
    then have "k \<notin> snd ` set canonicalQueryTypes"
      by (simp add: known_type_iff)
    then show ?thesis
      using Cons None by (simp add: queryTypeNames_def find_type_name_cases)
  next
    case (Some name)
    then have "k \<in> snd ` set canonicalQueryTypes" by (simp add: known_type_iff)
    then show ?thesis
      using Cons [of "insert k s"] Some type_name_roundtrip [OF Some]
      by (auto simp: queryTypeNames_def find_type_name_cases)
  qed
qed (simp add: queryTypeNames_def)

lemma length_queryTypeNames: "length (queryTypeNames types) \<le> length types"
  by (induction types) (auto simp: queryTypeNames_def find_type_name_cases split: option.splits)

lemma queryTypeNames_Nil: "queryTypeNames types = [] \<longleftrightarrow> set types \<inter> snd ` set canonicalQueryTypes = {}"
proof -
  have "find_type_name k canonicalQueryTypes = [] \<longleftrightarrow> k \<notin> snd ` set canonicalQueryTypes" for k
    unfolding find_type_name_cases known_type_iff by (auto split: option.splits)
  then show ?thesis by (auto simp: queryTypeNames_def)
qed

lemma types_canonical:
  assumes "types \<noteq> []" "int (length types) \<le> m"
  shows "(case normalizeQueryTypes (queryTypeNames types) m of
      Inl _ \<Rightarrow> Inl ErrInvalidFilter
    | Inr normalized \<Rightarrow> if normalized \<noteq> types then Inl ErrInvalidFilter else Inr n) =
    accept (types = filter (\<lambda>k. k \<in> set types) (map snd canonicalQueryTypes)) n"
proof -
  let ?c = "filter (\<lambda>k. k \<in> set types) (map snd canonicalQueryTypes)"
  have len: "int (length (queryTypeNames types)) \<le> m"
    using length_queryTypeNames [of types] assms(2) by simp
  have eq: "filter (\<lambda>k. k \<in> set types \<inter> snd ` set canonicalQueryTypes) (map snd canonicalQueryTypes) = ?c"
    by (rule filter_cong) auto
  show ?thesis
  proof (cases "queryTypeNames types = []")
    case True
    then have "?c = []" unfolding queryTypeNames_Nil by (auto simp: filter_empty_conv)
    then show ?thesis using True assms(1) by (auto simp: normalizeQueryTypes_def accept_def)
  next
    case False
    then show ?thesis
      using len queryTypeNames_select [of types "{}"] eq by (auto simp: normalizeQueryTypes_def accept_def)
  qed
qed

lemma expr_valid_nonnil: "expr_valid lim m e \<Longrightarrow> e \<noteq> NilExpr"
  by (cases e) auto

lemma word_sle_iff: "\<not> (a <s b) \<longleftrightarrow> b <=s (a :: int64)"
  by (auto simp: word_sless_alt word_sle_eq)

lemma validator_expression_accept:
  "validator_expression lim e depth n =
     accept (expr_valid lim (MaxDepth lim - depth) e \<and> n + expr_nodes e \<le> MaxNodes lim) (n + expr_nodes e)"
  "n \<le> MaxNodes lim \<Longrightarrow> validator_expressions lim es depth n =
     accept ((\<forall>e \<in> set es. expr_valid lim (MaxDepth lim - depth) e) \<and>
         n + sum_list (map expr_nodes es) \<le> MaxNodes lim) (n + sum_list (map expr_nodes es))"
proof (induction lim e depth n and lim es depth n rule: validator_expression_validator_expressions.induct)
  case (1 lim e depth n)
  have d: "MaxDepth lim - (depth + 1) = MaxDepth lim - depth - 1" by simp
  show ?case
  proof (cases e)
    case (LogicalExpr op args)
    then show ?thesis
      using "1.IH"(1) [OF _ _ LogicalExpr] sum_nodes_nonneg(2) [of args]
      by (auto simp: validator_expression.simps accept_def d algebra_simps)
  next
    case (NotExpr arg)
    then show ?thesis
      using "1.IH"(2) [OF _ _ NotExpr] expr_nodes_pos [of arg]
      by (auto simp: validator_expression.simps accept_def d algebra_simps)
  next
    case (TypeExpr path types)
    then show ?thesis
      using types_canonical [of types "MaxArrayItems lim" "n + 1"]
      by (auto simp: validator_expression.simps validatePath_accept accept_def)
  next
    case (ElemMatchExpr path mode scalar obj)
    consider (scalar) c where "mode = ''scalar''" "scalar = Some c" "obj = None"
      | (object) c where "mode = ''object''" "obj = Some c" "scalar = None"
      | (wrong) "\<not> expr_valid lim (MaxDepth lim - depth) e" "mode = ''scalar'' \<longrightarrow> scalar = None \<or> obj \<noteq> None"
          "mode = ''object'' \<longrightarrow> obj = None \<or> scalar \<noteq> None"
      unfolding ElemMatchExpr by (cases scalar; cases obj) auto
    then show ?thesis
    proof cases
      case (scalar c)
      then show ?thesis
        using ElemMatchExpr element_nodes_pos [of c]
        by (auto simp: validator_expression.simps validatePath_accept validator_element_accept accept_def d
            algebra_simps)
    next
      case (object c)
      then have "validator_expression lim c (depth + 1) (n + 1) =
          accept (expr_valid lim (MaxDepth lim - depth - 1) c \<and> n + 1 + expr_nodes c \<le> MaxNodes lim) (n + 1 + expr_nodes c)"
        if "\<not> MaxDepth lim < depth" "\<not> MaxNodes lim < n + 1" "path_valid path"
        using "1.IH"(3) [OF that(1,2) ElemMatchExpr] d that(3) by (simp add: validatePath_accept accept_def)
      then show ?thesis
        using ElemMatchExpr object expr_nodes_pos [of c]
        by (auto simp: validator_expression.simps validatePath_accept accept_def algebra_simps)
    next
      case wrong
      then show ?thesis
        using ElemMatchExpr
        by (auto simp: validator_expression.simps validatePath_accept accept_def split: option.splits)
    qed
  qed (auto simp: validator_expression.simps accept_def validator_operand_accept validator_operands_accept
      validator_all_accept validatePath_accept word_sle_iff [symmetric])
next
  case (3 lim e es depth n)
  then show ?case
    using sum_nodes_nonneg(2) [of es] by (auto simp: accept_def algebra_simps)
qed (simp_all add: accept_def)

lemma expr_valid_ok: "expr_valid lim m e \<Longrightarrow> expr_ok e"
proof (induction lim m e rule: expr_valid.induct)
  case (11 lim m path mode scalar obj)
  then show ?case by (auto split: option.splits)
qed auto

lemma validate_sort_fields_accept:
  "validate_sort_fields fs seen =
    accept ((\<forall>f \<in> set fs. path_valid (Path f) \<and> (Direction f = 1 \<or> Direction f = -1)) \<and>
      distinct (map Path fs) \<and> Path ` set fs \<inter> seen = {}) ()"
  by (induction fs arbitrary: seen) (auto simp: validatePath_accept accept_def)

definition sort_valid :: "QueryLimits \<Rightarrow> SortField list \<Rightarrow> bool" where
  "sort_valid lim fs \<longleftrightarrow>
     int (length fs) \<le> MaxSortFields lim \<and> distinct (map Path fs) \<and>
     (\<forall>f \<in> set fs. path_valid (Path f) \<and> (Direction f = 1 \<or> Direction f = -1))"

lemma validateSortFields_accept: "validateSortFields fs lim = accept (sort_valid lim fs) ()"
  by (auto simp: validateSortFields_def validate_sort_fields_accept sort_valid_def accept_def)

lemma validateQuerySpec_cases:
  "validateQuerySpec marshal q limits =
     (case qwhere q of
        None \<Rightarrow> Inl ErrInvalidFilter
      | Some e \<Rightarrow>
          let lim = normalizedLimits limits
          in if sort_valid lim (qsort q) \<and> 0 \<le> qskip q \<and>
                (case qlimit q of None \<Rightarrow> True | Some l \<Rightarrow> 0 \<le> l \<and> l \<le> MaxLimit lim) \<and>
                \<not> (qseek q \<and> (qsort q = [] \<or> qlimit q = None)) \<and>
                expr_valid lim (MaxDepth lim) e \<and> expr_nodes e \<le> MaxNodes lim
             then rbind (marshal q)
               (\<lambda>encoded. accept (int (length encoded) \<le> MaxWireBytes lim) ())
             else Inl ErrInvalidFilter)"
  by (auto simp: validateQuerySpec_def validateSortFields_accept validator_expression_accept Let_def
      accept_def rbind_def not_less split: option.splits sum.splits if_splits)

section \<open>Properties\<close>

text \<open>
  C27 Validation accepts a query exactly when it has a filter that is well formed, no
  deeper than \<open>MaxDepth\<close>, with at most \<open>MaxNodes\<close> expressions; its sort fields are within the limit, with
  valid distinct paths and directions; skip and limit are in range; seek pagination has a sort and a
  limit; and its encoding fits. Every other query is rejected with \<open>ErrInvalidFilter\<close>, or with the error
  of the encoder.
\<close>

theorem validateQuerySpec_iff:
  "validateQuerySpec marshal q limits = Inr () \<longleftrightarrow>
    (\<exists>e encoded lim. lim = normalizedLimits limits \<and> qwhere q = Some e \<and>
      expr_valid lim (MaxDepth lim) e \<and> expr_nodes e \<le> MaxNodes lim \<and> sort_valid lim (qsort q) \<and>
      0 \<le> qskip q \<and> (case qlimit q of None \<Rightarrow> True | Some l \<Rightarrow> 0 \<le> l \<and> l \<le> MaxLimit lim) \<and>
      (if qseek q then qsort q \<noteq> [] \<and> qlimit q \<noteq> None else True) \<and>
      marshal q = Inr encoded \<and> int (length encoded) \<le> MaxWireBytes lim)"
  unfolding validateQuerySpec_cases
  by (auto simp: Let_def accept_def split: option.splits if_splits)

text \<open>
  C28 A validated query never meets the internal-corruption errors of evaluation: on
  every document it returns the reference answer, and under a budget the only error is \<open>ErrQueryBudget\<close>.
\<close>

theorem validated_query_runs:
  assumes "validateQuerySpec marshal q limits = Inr ()"
  shows "\<exists>e. qwhere q = Some e \<and> matchWithBudget q d None = (Inr (matches e d), None) \<and>
    (predicateSteps b \<le> MaxQueryPredicateSteps (blimits b) \<longrightarrow>
       fst (matchWithBudget q d (Some b)) \<in> {Inr (matches e d), Inl ErrQueryBudget})"
proof -
  obtain e where e: "qwhere q = Some e" "expr_valid (normalizedLimits limits) (MaxDepth (normalizedLimits limits)) e"
    using assms unfolding validateQuerySpec_cases by (auto simp: Let_def split: option.splits if_splits)
  have "computes_some (matchExpression e d) (matches e d)"
    by (rule runs_match(1)) (rule expr_valid_ok [OF e(2)])
  then show ?thesis
    using e(1) by (auto simp: matchWithBudget_def computes_some_def computes_def within_def split: if_splits)
qed

theorem validated_query_runs_witness:
  "\<exists>e. qwhere \<lparr>qwhere = Some (NotExpr TrueExpr), qsort = [], qskip = 0, qlimit = None, qseek = False\<rparr> = Some e \<and>
     matchWithBudget \<lparr>qwhere = Some (NotExpr TrueExpr), qsort = [], qskip = 0, qlimit = None, qseek = False\<rparr> [] None =
       (Inr (matches e []), None)"
proof -
  have "validateQuerySpec (\<lambda>_. Inr [])
      \<lparr>qwhere = Some (NotExpr TrueExpr), qsort = [], qskip = 0, qlimit = None, qseek = False\<rparr>
      DefaultQueryLimits = Inr ()"
    unfolding validateQuerySpec_cases
    by (simp add: Let_def normalizedLimits_def DefaultQueryLimits_def sort_valid_def accept_def)
  from validated_query_runs [OF this] show ?thesis by blast
qed

end
