(* ===== verification/Raw_Value.thy ===== *)
theory Raw_Value
  imports Query_Validate
begin

text \<open>
  Go values handed to the public API as \<open>any\<close>, and their conversion: \<open>ValueOf\<close> of
  \<open>internal/database/value.go\<close>, \<open>NewDocument\<close> of \<open>document.go\<close> and the readers of
  \<open>filter_values.go\<close>.

  \<open>goany\<close> has a constructor for each dynamic type that the code distinguishes. \<open>AInt\<close> stands for every
  integer type that fits into \<open>int64\<close>, \<open>AUint\<close> for \<open>uint\<close> and \<open>uint64\<close>, \<open>AFloat\<close> for both float
  types (a \<open>float32\<close> converts exactly), \<open>AOther\<close> for a type the code does not know. A Go map is the
  association list of its entries in key order, the order in which the code visits sorted keys.
\<close>

section \<open>Dynamic values\<close>

datatype goany =
    ANil
  | AValue Value
  | ABool bool
  | AString bytes
  | ABytes bytes
  | ATime int64
  | ADocID DocumentID
  | AInt int64
  | AUint uint64
  | AFloat float64
  | AValues "Value list"
  | AAny "goany list"
  | ADocument Document
  | AMap "(bytes \<times> goany) list"
  | AFilter "(bytes \<times> goany) list"
  | AFilters "(bytes \<times> goany) list list"
  | AStrings "bytes list"
  | AOther

type_synonym rawmap = "(bytes \<times> goany) list"

definition MaxInt64 :: uint64 where
  "MaxInt64 = 2 ^ 63 - 1"

fun ValueOf :: "goany \<Rightarrow> db_error + Value"
  and ValueOf_items :: "goany list \<Rightarrow> db_error + Value list"
  and NewDocument :: "rawmap \<Rightarrow> db_error + Document" where
  "ValueOf x =
     (case x of
        ANil \<Rightarrow> Inr VNull
      | AValue v \<Rightarrow> Inr v
      | ABool b \<Rightarrow> Inr (VBool b)
      | AString s \<Rightarrow> Inr (VString s)
      | ABytes b \<Rightarrow> Inr (VBinary b)
      | ATime t \<Rightarrow> Inr (VTime t)
      | ADocID i \<Rightarrow> Inr (VID i)
      | AInt i \<Rightarrow> Inr (VInt i)
      | AUint u \<Rightarrow> if u \<le> MaxInt64 then Inr (VInt u) else Inl ErrInvalidDocument
      | AFloat f \<Rightarrow> Inr (VFloat f)
      | AValues vs \<Rightarrow> Inr (VArray vs)
      | AAny xs \<Rightarrow> rbind (ValueOf_items xs) (\<lambda>vs. Inr (VArray vs))
      | ADocument d \<Rightarrow> Inr (VObject d)
      | AMap m \<Rightarrow> rbind (NewDocument m) (\<lambda>d. Inr (VObject d))
      | _ \<Rightarrow> Inl ErrInvalidDocument)"
| "ValueOf_items [] = Inr []"
| "ValueOf_items (x # xs) = rbind (ValueOf x) (\<lambda>v. rbind (ValueOf_items xs) (\<lambda>vs. Inr (v # vs)))"
| "NewDocument [] = Inr []"
| "NewDocument ((k, x) # m) =
     (if validField k then rbind (ValueOf x) (\<lambda>v. rbind (NewDocument m) (\<lambda>d. Inr (map_put k v d)))
      else Inl ErrInvalidDocument)"

declare ValueOf.simps [simp del]

section \<open>Readers of filter operands\<close>

definition queryArraySize :: "goany \<Rightarrow> int64 option" where
  "queryArraySize raw =
     (case raw of
        AInt i \<Rightarrow> if 0 <=s i \<and> i <=s maxQueryArraySize then Some i else None
      | AUint u \<Rightarrow>
          if maxQueryArraySize < u then None
          else if 0 <=s u \<and> u <=s maxQueryArraySize then Some u else None
      | _ \<Rightarrow> None)"

fun string_items :: "goany list \<Rightarrow> db_error + bytes list" where
  "string_items [] = Inr []"
| "string_items (x # xs) =
     (case x of
        AString s \<Rightarrow> rbind (string_items xs) (\<lambda>ss. Inr (s # ss))
      | _ \<Rightarrow> Inl ErrInvalidFilter)"

definition queryTypeOperand :: "goany \<Rightarrow> int \<Rightarrow> db_error + bytes list" where
  "queryTypeOperand raw maxItems =
     (case raw of
        AString s \<Rightarrow> Inr [s]
      | AStrings ss \<Rightarrow> if ss = [] \<or> maxItems < int (length ss) then Inl ErrInvalidFilter else Inr ss
      | AAny xs \<Rightarrow> if xs = [] \<or> maxItems < int (length xs) then Inl ErrInvalidFilter else string_items xs
      | _ \<Rightarrow> Inl ErrInvalidFilter)"

definition queryValueOf :: "bytes \<Rightarrow> goany \<Rightarrow> db_error + Value" where
  "queryValueOf path raw =
     (if path = field_id then
        case raw of
          ADocID i \<Rightarrow> Inr (VID i)
        | AString s \<Rightarrow>
            rbind (ParseDocumentID s)
              (\<lambda>i. if IsZero i \<or> DocumentID_String i \<noteq> s then Inl ErrInvalidDocument else Inr (VID i))
        | AValue v \<Rightarrow> if kind v = 9 then Inr v else Inl ErrInvalidDocument
        | _ \<Rightarrow> Inl ErrInvalidDocument
      else rbind (ValueOf raw) (\<lambda>v. rbind (validateArray 0 [v]) (\<lambda>_. Inr v)))"

definition asFilter :: "goany \<Rightarrow> rawmap option" where
  "asFilter raw = (case raw of AFilter m \<Rightarrow> Some m | AMap m \<Rightarrow> Some m | _ \<Rightarrow> None)"

definition asAnySlice :: "goany \<Rightarrow> goany list option" where
  "asAnySlice raw = (case raw of AAny xs \<Rightarrow> Some xs | AValues vs \<Rightarrow> Some (map AValue vs) | _ \<Rightarrow> None)"

definition asFilters :: "goany \<Rightarrow> rawmap list option" where
  "asFilters raw =
     (case raw of
        AFilters fs \<Rightarrow> Some fs
      | _ \<Rightarrow> (case asAnySlice raw of None \<Rightarrow> None | Some xs \<Rightarrow> those (map asFilter xs)))"

definition asStringAnyMap :: "goany \<Rightarrow> rawmap option" where
  "asStringAnyMap raw = (case raw of AMap m \<Rightarrow> Some m | AFilter m \<Rightarrow> Some m | _ \<Rightarrow> None)"

section \<open>Well-formed raw values\<close>

text \<open>Maps have sorted distinct keys and identifiers have 16 bytes, at every level.\<close>

fun raw_wf :: "goany \<Rightarrow> bool" where
  "raw_wf x =
     (case x of
        AValue v \<Rightarrow> value_wf v
      | ADocID i \<Rightarrow> length i = 16
      | AValues vs \<Rightarrow> \<forall>v \<in> set vs. value_wf v
      | AAny xs \<Rightarrow> \<forall>y \<in> set xs. raw_wf y
      | ADocument d \<Rightarrow> value_wf (VObject d)
      | AMap m \<Rightarrow> sorted_map m \<and> (\<forall>p \<in> set m. raw_wf (snd p))
      | AFilter m \<Rightarrow> sorted_map m \<and> (\<forall>p \<in> set m. raw_wf (snd p))
      | AFilters ms \<Rightarrow> \<forall>m \<in> set ms. sorted_map m \<and> (\<forall>p \<in> set m. raw_wf (snd p))
      | _ \<Rightarrow> True)"

declare raw_wf.simps [simp del]

abbreviation rawmap_wf :: "rawmap \<Rightarrow> bool" where
  "rawmap_wf m \<equiv> sorted_map m \<and> (\<forall>p \<in> set m. raw_wf (snd p))"

lemma raw_wf_simps [simp]:
  "raw_wf ANil" "raw_wf (ABool b)" "raw_wf (AString s)" "raw_wf (ABytes s)" "raw_wf (ATime t)" "raw_wf (AInt n)"
  "raw_wf (AUint u)" "raw_wf (AFloat f)" "raw_wf (AStrings ss)" "raw_wf AOther"
  "raw_wf (AValue v) = value_wf v" "raw_wf (ADocID i) = (length i = 16)"
  "raw_wf (AValues vs) = (\<forall>v \<in> set vs. value_wf v)" "raw_wf (AAny xs) = (\<forall>y \<in> set xs. raw_wf y)"
  "raw_wf (ADocument d) = value_wf (VObject d)" "raw_wf (AMap m) = rawmap_wf m" "raw_wf (AFilter m) = rawmap_wf m"
  "raw_wf (AFilters ms) = (\<forall>m \<in> set ms. rawmap_wf m)"
  by (subst raw_wf.simps; simp)+

lemma ValueOf_wf:
  "ValueOf x = Inr v \<Longrightarrow> raw_wf x \<Longrightarrow> value_wf v"
  "ValueOf_items xs = Inr vs \<Longrightarrow> \<forall>y \<in> set xs. raw_wf y \<Longrightarrow> \<forall>w \<in> set vs. value_wf w"
  "NewDocument m = Inr d \<Longrightarrow> \<forall>p \<in> set m. raw_wf (snd p) \<Longrightarrow> value_wf (VObject d)"
proof (induction x and xs and m arbitrary: v and vs and d rule: ValueOf_ValueOf_items_NewDocument.induct)
  case (1 x)
  show ?case
  proof (cases x)
    case (AAny xs)
    then show ?thesis using 1 by (auto simp: ValueOf.simps)
  next
    case (AMap m)
    then show ?thesis using 1 by (auto simp: ValueOf.simps)
  qed (use 1 in \<open>auto simp: ValueOf.simps split: if_splits\<close>)
next
  case (5 k x m)
  from "5.prems" obtain v e where r: "ValueOf x = Inr v" "NewDocument m = Inr e" "d = map_put k v e" "validField k"
    by (auto split: if_splits)
  then have "value_wf v" "value_wf (VObject e)"
    using "5.IH" "5.prems"(2) by simp_all
  then show ?case using r(3) by (auto dest!: set_map_put)
qed auto

lemma ParseDocumentID_length: "ParseDocumentID s = Inr i \<Longrightarrow> length i = 16"
  by (auto simp: ParseDocumentID_def split: option.splits if_splits)

lemma queryValueOf_wf: "queryValueOf path raw = Inr v \<Longrightarrow> raw_wf raw \<Longrightarrow> value_wf v"
  by (auto simp: queryValueOf_def dest: ValueOf_wf(1) ParseDocumentID_length
      split: if_splits goany.splits)

lemma lookup_parts_all:
  "value_all P (VObject d) \<Longrightarrow> lookup_parts d parts = Some v \<Longrightarrow> value_all P v"
proof (induction d parts rule: lookup_parts.induct)
  case (2 d part parts)
  then obtain w where w: "map_of d part = Some w" by (auto split: option.splits)
  then have "value_all P w" using 2(2) map_of_SomeD [OF w] by fastforce
  then show ?case using 2 w by (cases w) (auto split: if_splits)
qed simp

end
