(* ===== verification/Filter_Compile.thy ===== *)
theory Filter_Compile
  imports Raw_Value
begin

text \<open>
  Compilation of filters, \<open>internal/database/filter.go\<close> and \<open>filter_elements.go\<close>: a map of field conditions
  and operators becomes a query expression. The compiler counts its nodes in \<open>c.nodes\<close>; a compilation is a
  function of the counter that fails or returns with the new counter.

  The reference is the meaning of the map itself (\<open>filter_holds\<close>): every entry holds, \<open>$and\<close>, \<open>$or\<close>
  and \<open>$not\<close> combine the meanings of their operands, field operators test the value at the path.
\<close>

section \<open>Counting computations\<close>

type_synonym 'a counted = "int \<Rightarrow> db_error + 'a \<times> int"

definition cret :: "'a \<Rightarrow> 'a counted" where
  "cret x = (\<lambda>n. Inr (x, n))"

definition cfail :: "db_error \<Rightarrow> 'a counted" where
  "cfail e = (\<lambda>n. Inl e)"

definition clift :: "db_error + 'a \<Rightarrow> 'a counted" where
  "clift r = (\<lambda>n. rbind r (\<lambda>x. Inr (x, n)))"

definition cbind :: "'a counted \<Rightarrow> ('a \<Rightarrow> 'b counted) \<Rightarrow> 'b counted" where
  "cbind m f = (\<lambda>n. rbind (m n) (\<lambda>(x, k). f x k))"

fun cmapM :: "('a \<Rightarrow> 'b counted) \<Rightarrow> 'a list \<Rightarrow> 'b list counted" where
  "cmapM f [] = cret []"
| "cmapM f (x # xs) = cbind (f x) (\<lambda>y. cbind (cmapM f xs) (\<lambda>ys. cret (y # ys)))"

definition compiler_node :: "QueryLimits \<Rightarrow> unit counted" where
  "compiler_node lim = (\<lambda>n. if MaxNodes lim < n + 1 then Inl ErrInvalidFilter else Inr ((), n + 1))"

fun rmapM :: "('a \<Rightarrow> 'e + 'b) \<Rightarrow> 'a list \<Rightarrow> 'e + 'b list" where
  "rmapM f [] = Inr []"
| "rmapM f (x # xs) = rbind (f x) (\<lambda>y. rbind (rmapM f xs) (\<lambda>ys. Inr (y # ys)))"

section \<open>Operators\<close>

text \<open>\<open>operator[1:]\<close> as the name of the compiled operation.\<close>

definition unstr :: "bytes \<Rightarrow> string" where
  "unstr b = map (\<lambda>x. char_of (unat x)) b"

definition dollar :: "bytes \<Rightarrow> bool" where
  "dollar key \<longleftrightarrow> key \<noteq> [] \<and> hd key = 0x24"

definition any_dollar :: "(bytes \<times> 'a) list \<Rightarrow> bool" where
  "any_dollar m \<longleftrightarrow> (\<exists>p \<in> set m. dollar (fst p))"

definition is_comparison :: "bytes \<Rightarrow> bool" where
  "is_comparison op \<longleftrightarrow>
     op \<in> {str ''$eq'', str ''$ne'', str ''$gt'', str ''$gte'', str ''$lt'', str ''$lte''}"

definition bounded_items :: "QueryLimits \<Rightarrow> 'a list \<Rightarrow> bool" where
  "bounded_items lim items \<longleftrightarrow> items \<noteq> [] \<and> int (length items) \<le> MaxArrayItems lim"

definition operand_value :: "bytes \<Rightarrow> goany \<Rightarrow> Value counted" where
  "operand_value path operand = clift (with_error ErrInvalidFilter (queryValueOf path operand))"

definition membership_values :: "QueryLimits \<Rightarrow> bytes \<Rightarrow> goany \<Rightarrow> Value list counted" where
  "membership_values lim path operand =
     (case asAnySlice operand of
        None \<Rightarrow> cfail ErrInvalidFilter
      | Some items \<Rightarrow>
          if MaxArrayItems lim < int (length items) then cfail ErrInvalidFilter
          else clift (with_error ErrInvalidFilter (rmapM (queryValueOf path) items)))"

fun distinct_values :: "bytes \<Rightarrow> goany list \<Rightarrow> Value list \<Rightarrow> db_error + Value list" where
  "distinct_values path [] ws = Inr ws"
| "distinct_values path (x # xs) ws =
     rbind (with_error ErrInvalidFilter (queryValueOf path x))
       (\<lambda>w. distinct_values path xs (if containsQueryValue ws w then ws else ws @ [w]))"

section \<open>Compilation\<close>

definition compile_element_entry ::
  "(rawmap \<Rightarrow> elementExpr counted) \<Rightarrow> QueryLimits \<Rightarrow> bytes \<Rightarrow> bytes \<times> goany \<Rightarrow> elementExpr counted" where
  "compile_element_entry compile lim path entry =
     (let operator = fst entry; operand = snd entry
      in cbind (compiler_node lim) (\<lambda>_.
           if operator = str ''$and'' \<or> operator = str ''$or'' then
             (case asAnySlice operand of
                None \<Rightarrow> cfail ErrInvalidFilter
              | Some items \<Rightarrow>
                  if \<not> bounded_items lim items then cfail ErrInvalidFilter
                  else cbind
                    (cmapM (\<lambda>item. case asStringAnyMap item of None \<Rightarrow> cfail ErrInvalidFilter | Some child \<Rightarrow> compile child) items)
                    (\<lambda>children. cret (ElementLogical (unstr (tl operator)) children)))
           else if operator = str ''$not'' then
             (case asStringAnyMap operand of
                None \<Rightarrow> cfail ErrInvalidFilter
              | Some child \<Rightarrow> cbind (compile child) (\<lambda>c. cret (ElementNot c)))
           else if is_comparison operator then
             cbind (operand_value path operand) (\<lambda>w. cret (ElementCompare (unstr (tl operator)) w))
           else if operator = str ''$in'' \<or> operator = str ''$nin'' then
             cbind (membership_values lim path operand)
               (\<lambda>ws. cret (ElementMembership (unstr (tl operator)) ws))
           else cfail ErrInvalidFilter))"

function compileElementFilter :: "QueryLimits \<Rightarrow> bytes \<Rightarrow> rawmap \<Rightarrow> int \<Rightarrow> elementExpr counted" where
  "compileElementFilter lim path flt depth =
     (if MaxDepth lim < depth \<or> flt = [] then cfail ErrInvalidFilter
      else cbind
        (cmapM (compile_element_entry (\<lambda>child. compileElementFilter lim path child (depth + 1)) lim path) flt)
        (\<lambda>args. if length args = 1 then cret (hd args) else cret (ElementLogical ''and'' args)))"
  by pat_completeness auto
termination
  by (relation "measure (\<lambda>(lim, path, flt, depth). nat (MaxDepth lim + 1 - depth))") auto

declare compileElementFilter.simps [simp del]

text \<open>The operators of a field whose compilation does not call the compiler again.\<close>

definition compile_leaf :: "QueryLimits \<Rightarrow> bytes \<Rightarrow> bytes \<Rightarrow> goany \<Rightarrow> expr counted" where
  "compile_leaf lim path operator operand =
     (if is_comparison operator then
        cbind (operand_value path operand) (\<lambda>w. cret (CompareExpr (unstr (tl operator)) path w))
      else if operator = str ''$exists'' then
        (case operand of ABool b \<Rightarrow> cret (ExistsExpr path b) | _ \<Rightarrow> cfail ErrInvalidFilter)
      else if operator = str ''$size'' then
        (case queryArraySize operand of None \<Rightarrow> cfail ErrInvalidFilter | Some n \<Rightarrow> cret (SizeExpr path n))
      else if operator = str ''$type'' then
        cbind (clift (queryTypeOperand operand (MaxArrayItems lim)))
          (\<lambda>names. cbind (clift (normalizeQueryTypes names (MaxArrayItems lim)))
            (\<lambda>types. cret (TypeExpr path types)))
      else if operator = str ''$all'' then
        (case asAnySlice operand of
           None \<Rightarrow> cfail ErrInvalidFilter
         | Some items \<Rightarrow>
             if \<not> bounded_items lim items then cfail ErrInvalidFilter
             else cbind (clift (distinct_values path items [])) (\<lambda>ws. cret (AllExpr path ws)))
      else if operator = str ''$in'' \<or> operator = str ''$nin'' then
        cbind (membership_values lim path operand) (\<lambda>ws. cret (MembershipExpr (unstr (tl operator)) path ws))
      else cfail ErrInvalidFilter)"

definition operator_map :: "goany \<Rightarrow> rawmap option" where
  "operator_map raw =
     (case asStringAnyMap raw of
        None \<Rightarrow> None
      | Some m \<Rightarrow> if any_dollar m then Some m else None)"

definition conjunction :: "expr list \<Rightarrow> expr" where
  "conjunction es = (if length es = 1 then hd es else LogicalExpr ''and'' es)"

definition compile_filter_entry ::
  "(rawmap \<Rightarrow> expr counted) \<Rightarrow> (bytes \<Rightarrow> goany \<Rightarrow> expr list counted) \<Rightarrow> QueryLimits \<Rightarrow> bytes \<times> goany \<Rightarrow> expr list counted" where
  "compile_filter_entry compile field lim entry =
     (let key = fst entry; raw = snd entry
      in if key = str ''$and'' \<or> key = str ''$or'' then
           (case asFilters raw of
              None \<Rightarrow> cfail ErrInvalidFilter
            | Some parts \<Rightarrow>
                if \<not> bounded_items lim parts then cfail ErrInvalidFilter
                else cbind (compiler_node lim)
                  (\<lambda>_. cbind (cmapM compile parts)
                    (\<lambda>children. cret [LogicalExpr (unstr (tl key)) children])))
         else if key = str ''$not'' then
           (case asFilter raw of
              None \<Rightarrow> cfail ErrInvalidFilter
            | Some part \<Rightarrow>
                cbind (compiler_node lim) (\<lambda>_. cbind (compile part) (\<lambda>child. cret [NotExpr child])))
         else if dollar key then cfail ErrInvalidFilter
         else cbind (clift (validatePath key)) (\<lambda>_. field key raw))"

definition compile_field_entry ::
  "(rawmap \<Rightarrow> expr counted) \<Rightarrow> (rawmap \<Rightarrow> elementExpr counted) \<Rightarrow> (goany \<Rightarrow> expr list counted) \<Rightarrow> QueryLimits \<Rightarrow> bytes \<Rightarrow>
    bytes \<times> goany \<Rightarrow> expr counted" where
  "compile_field_entry compile element field lim path entry =
     (let operator = fst entry; operand = snd entry
      in cbind (compiler_node lim) (\<lambda>_.
           if operator = str ''$elemMatch'' then
             (case asStringAnyMap operand of
                None \<Rightarrow> cfail ErrInvalidFilter
              | Some m \<Rightarrow>
                  if m = [] then cfail ErrInvalidFilter
                  else if any_dollar m then
                    if \<exists>p \<in> set m. \<not> dollar (fst p) then cfail ErrInvalidFilter
                    else cbind (element m) (\<lambda>c. cret (ElemMatchExpr path ''scalar'' (Some c) None))
                  else cbind (compile m) (\<lambda>c. cret (ElemMatchExpr path ''object'' None (Some c))))
           else if operator = str ''$not'' then
             cbind (field operand) (\<lambda>nested. cret (NotExpr (conjunction nested)))
           else compile_leaf lim path operator operand))"

function compileFilter :: "QueryLimits \<Rightarrow> rawmap \<Rightarrow> int \<Rightarrow> expr counted"
  and compileField :: "QueryLimits \<Rightarrow> bytes \<Rightarrow> goany \<Rightarrow> int \<Rightarrow> expr list counted" where
  "compileFilter lim flt depth =
     (if MaxDepth lim < depth then cfail ErrInvalidFilter
      else cbind
        (cmapM (compile_filter_entry (\<lambda>part. compileFilter lim part (depth + 1))
           (\<lambda>key raw. compileField lim key raw (depth + 1)) lim) flt)
        (\<lambda>argss. let args = concat argss
                 in if args = [] then cbind (compiler_node lim) (\<lambda>_. cret TrueExpr)
                    else if length args = 1 then cret (hd args)
                    else cbind (compiler_node lim) (\<lambda>_. cret (LogicalExpr ''and'' args))))"
| "compileField lim path raw depth =
     (if MaxDepth lim < depth then cfail ErrInvalidFilter
      else case operator_map raw of
          None \<Rightarrow>
            cbind (operand_value path raw)
              (\<lambda>w. if MaxValueBytes lim < int (wireValueBytes w) then cfail ErrInvalidFilter
                   else cbind (compiler_node lim) (\<lambda>_. cret [CompareExpr ''eq'' path w]))
        | Some operators \<Rightarrow>
            cmapM (compile_field_entry (\<lambda>m. compileFilter lim m (depth + 1))
              (\<lambda>m. compileElementFilter lim path m (depth + 1))
              (\<lambda>operand. compileField lim path operand (depth + 1)) lim path) operators)"
  by pat_completeness auto
termination
  by (relation "measure (\<lambda>x. case x of
      Inl (lim, flt, depth) \<Rightarrow> nat (MaxDepth lim + 1 - depth)
    | Inr (lim, path, raw, depth) \<Rightarrow> nat (MaxDepth lim + 1 - depth))") auto

declare compileFilter.simps [simp del] compileField.simps [simp del]

record QueryOptions =
  optSort :: "SortField list"
  optSkip :: int
  optLimit :: "int option"

definition CompileQuery ::
  "(QuerySpec \<Rightarrow> db_error + bytes) \<Rightarrow> rawmap \<Rightarrow> QueryOptions \<Rightarrow> db_error + QuerySpec" where
  "CompileQuery marshal flt options =
     rbind (compileFilter DefaultQueryLimits flt 0 0)
       (\<lambda>(e, _). rbind (validateSortFields (optSort options) DefaultQueryLimits)
         (\<lambda>_. if optSkip options < 0 then Inl ErrInvalidFilter
              else if case optLimit options of None \<Rightarrow> False | Some l \<Rightarrow> l < 0 \<or> MaxLimit DefaultQueryLimits < l
              then Inl ErrInvalidFilter
              else let query = \<lparr>qwhere = Some e, qsort = optSort options, qskip = optSkip options,
                                 qlimit = optLimit options, qseek = False\<rparr>
                   in rbind (validateQuerySpec marshal query DefaultQueryLimits) (\<lambda>_. Inr query)))"

section \<open>The meaning of a filter\<close>

abbreviation msize :: "rawmap \<Rightarrow> nat" where
  "msize \<equiv> size_list (size_prod (\<lambda>_. 0) size)"

lemma msize_entry: "p \<in> set m \<Longrightarrow> size (snd p) < msize m"
  by (induction m) (auto simp: less_Suc_eq trans_less_add1)

lemma msize_map: "asStringAnyMap x = Some m \<Longrightarrow> msize m < size x" "asFilter x = Some m \<Longrightarrow> msize m < size x"
  by (auto simp: asStringAnyMap_def asFilter_def split: goany.splits)

lemma size_item: "x \<in> set xs \<Longrightarrow> (f x :: nat) < size_list f xs"
  by (induction xs) auto

lemma msize_slice:
  assumes "asAnySlice x = Some xs" "y \<in> set xs" "asStringAnyMap y = Some m"
  shows "msize m < size x"
proof -
  have "msize m < size y" using msize_map(1) [OF assms(3)] .
  moreover have "size y < size x"
    using assms size_item [of y xs size]
    by (auto simp: asAnySlice_def asStringAnyMap_def split: goany.splits)
  ultimately show ?thesis by simp
qed

lemma those_member: "those xs = Some ys \<Longrightarrow> y \<in> set ys \<Longrightarrow> Some y \<in> set xs"
  by (induction xs arbitrary: ys) (auto split: option.splits)

lemma asFilter_map: "asFilter = asStringAnyMap"
  by (auto simp: asFilter_def asStringAnyMap_def fun_eq_iff split: goany.splits)

lemma msize_filters:
  assumes "asFilters x = Some fs" "f \<in> set fs"
  shows "msize f < size x"
proof (cases "\<exists>gs. x = AFilters gs")
  case True
  then show ?thesis using assms size_item [of f fs msize] by (auto simp: asFilters_def)
next
  case False
  then obtain xs where "asAnySlice x = Some xs" "those (map asFilter xs) = Some fs"
    using assms(1) by (auto simp: asFilters_def split: goany.splits option.splits)
  moreover from this obtain y where "y \<in> set xs" "asFilter y = Some f"
    using those_member assms(2) by fastforce
  ultimately show ?thesis using msize_slice by (simp add: asFilter_map)
qed

function element_holds :: "bytes \<Rightarrow> rawmap \<Rightarrow> Value \<Rightarrow> bool" where
  "element_holds path flt v \<longleftrightarrow>
     (\<forall>p \<in> set flt.
        if fst p = str ''$and'' then
          (case asAnySlice (snd p) of
             None \<Rightarrow> False
           | Some items \<Rightarrow>
               \<forall>item \<in> set items. case asStringAnyMap item of None \<Rightarrow> False | Some m \<Rightarrow> element_holds path m v)
        else if fst p = str ''$or'' then
          (case asAnySlice (snd p) of
             None \<Rightarrow> False
           | Some items \<Rightarrow>
               \<exists>item \<in> set items. case asStringAnyMap item of None \<Rightarrow> False | Some m \<Rightarrow> element_holds path m v)
        else if fst p = str ''$not'' then
          (case asStringAnyMap (snd p) of None \<Rightarrow> False | Some m \<Rightarrow> \<not> element_holds path m v)
        else if is_comparison (fst p) then
          (\<exists>w. queryValueOf path (snd p) = Inr w \<and> compares (unstr (tl (fst p))) v w)
        else
          (\<exists>items. asAnySlice (snd p) = Some items \<and>
             (\<exists>x \<in> set items. \<exists>w. queryValueOf path x = Inr w \<and> field_equal v w) = (fst p = str ''$in'')))"
  by pat_completeness auto
termination
proof (relation "measure (\<lambda>(path, flt, v). msize flt)", goal_cases)
  case (2 path flt v p items item m)
  then show ?case using msize_entry [of p flt] msize_slice [of "snd p" items item m] by simp
next
  case (3 path flt v p items item m)
  then show ?case using msize_entry [of p flt] msize_slice [of "snd p" items item m] by simp
next
  case (4 path flt v p m)
  then show ?case using msize_entry [of p flt] msize_map(1) [of "snd p" m] by simp
qed simp

declare element_holds.simps [simp del]

definition leaf_holds :: "bytes \<Rightarrow> bytes \<Rightarrow> goany \<Rightarrow> Document \<Rightarrow> bool" where
  "leaf_holds path op operand d \<longleftrightarrow>
     (let found = lookupInternal d path
      in if is_comparison op then
           (\<exists>w. queryValueOf path operand = Inr w \<and>
              (case found of None \<Rightarrow> op = str ''$ne'' | Some v \<Rightarrow> compares (unstr (tl op)) v w))
         else if op = str ''$exists'' then operand = ABool (found \<noteq> None)
         else if op = str ''$size'' then
           (case found of Some (VArray arr) \<Rightarrow> queryArraySize operand = Some (of_nat (length arr)) | _ \<Rightarrow> False)
         else if op = str ''$type'' then
           (case (found, queryTypeOperand operand (MaxArrayItems DefaultQueryLimits)) of
              (Some v, Inr names) \<Rightarrow> \<exists>name \<in> set names. map_of canonicalQueryTypes name = Some (kind v)
            | _ \<Rightarrow> False)
         else if op = str ''$all'' then
           (case (found, asAnySlice operand) of
              (Some (VArray arr), Some items) \<Rightarrow>
                \<forall>x \<in> set items. \<exists>w. queryValueOf path x = Inr w \<and> (\<exists>a \<in> set arr. value_Equal a w)
            | _ \<Rightarrow> False)
         else
           (case (found, asAnySlice operand) of
              (Some v, Some items) \<Rightarrow>
                (\<exists>x \<in> set items. \<exists>w. queryValueOf path x = Inr w \<and> field_equal v w) = (op = str ''$in'')
            | _ \<Rightarrow> op = str ''$nin''))"

lemma operator_map_size: "operator_map raw = Some m \<Longrightarrow> p \<in> set m \<Longrightarrow> size (snd p) < size raw"
  using msize_entry [of p m] msize_map(1) [of raw m] by (auto simp: operator_map_def split: option.splits if_splits)

function filter_holds :: "rawmap \<Rightarrow> Document \<Rightarrow> bool"
  and field_holds :: "bytes \<Rightarrow> goany \<Rightarrow> Document \<Rightarrow> bool" where
  "filter_holds flt d \<longleftrightarrow>
     (\<forall>p \<in> set flt.
        if fst p = str ''$and'' then
          (case asFilters (snd p) of None \<Rightarrow> False | Some parts \<Rightarrow> \<forall>part \<in> set parts. filter_holds part d)
        else if fst p = str ''$or'' then
          (case asFilters (snd p) of None \<Rightarrow> False | Some parts \<Rightarrow> \<exists>part \<in> set parts. filter_holds part d)
        else if fst p = str ''$not'' then
          (case asFilter (snd p) of None \<Rightarrow> False | Some part \<Rightarrow> \<not> filter_holds part d)
        else field_holds (fst p) (snd p) d)"
| "field_holds path raw d \<longleftrightarrow>
     (case operator_map raw of
        None \<Rightarrow> leaf_holds path (str ''$eq'') raw d
      | Some operators \<Rightarrow>
          \<forall>p \<in> set operators.
            if fst p = str ''$elemMatch'' then
              (case (lookupInternal d path, asStringAnyMap (snd p)) of
                 (Some (VArray arr), Some element) \<Rightarrow>
                   (\<exists>item \<in> set arr.
                      if any_dollar element then element_holds path element item
                      else case item of VObject o1 \<Rightarrow> filter_holds element o1 | _ \<Rightarrow> False)
               | _ \<Rightarrow> False)
            else if fst p = str ''$not'' then \<not> field_holds path (snd p) d
            else leaf_holds path (fst p) (snd p) d)"
  by pat_completeness auto

termination
proof (relation "measure (\<lambda>x. case x of Inl (flt, d) \<Rightarrow> msize flt | Inr (path, raw, d) \<Rightarrow> size raw)", goal_cases)
  case (2 flt d p parts part)
  then show ?case using msize_entry [of p flt] msize_filters [of "snd p" parts part] by simp
next
  case (3 flt d p parts part)
  then show ?case using msize_entry [of p flt] msize_filters [of "snd p" parts part] by simp
next
  case (4 flt d p part)
  then show ?case using msize_entry [of p flt] msize_map(2) [of "snd p" part] by simp
next
  case (5 flt d p)
  then show ?case using msize_entry [of p flt] by simp
next
  case (6 path raw d operators p found element v arr m)
  then show ?case using operator_map_size [of raw operators p] msize_map(1) [of "snd p" m] by simp
next
  case (7 path raw d operators p)
  then show ?case using operator_map_size [of raw operators p] by simp
qed simp

declare filter_holds.simps [simp del] field_holds.simps [simp del]

section \<open>Compilation preserves the meaning\<close>

lemma counted_simps [simp]:
  "cret x n = Inr r \<longleftrightarrow> r = (x, n)"
  "cfail e n = Inr r \<longleftrightarrow> False"
  "clift q n = Inr r \<longleftrightarrow> (\<exists>x. q = Inr x \<and> r = (x, n))"
  "cbind m f n = Inr r \<longleftrightarrow> (\<exists>x k. m n = Inr (x, k) \<and> f x k = Inr r)"
  by (auto simp: cret_def cfail_def clift_def cbind_def)

lemma cmapM_all2:
  "cmapM f xs n = Inr (ys, n') \<Longrightarrow> list_all2 (\<lambda>x y. \<exists>k k'. f x k = Inr (y, k')) xs ys"
  by (induction xs arbitrary: n ys) auto

lemma rmapM_all2: "rmapM f xs = Inr ys \<Longrightarrow> list_all2 (\<lambda>x y. f x = Inr y) xs ys"
  by (induction xs arbitrary: ys) auto

lemma all2_ball: "list_all2 R xs ys \<Longrightarrow> (\<And>x y. x \<in> set xs \<Longrightarrow> R x y \<Longrightarrow> P x \<longleftrightarrow> Q y) \<Longrightarrow>
    (\<forall>x \<in> set xs. P x) \<longleftrightarrow> (\<forall>y \<in> set ys. Q y)"
  by (induction rule: list_all2_induct) auto

lemma all2_bex: "list_all2 R xs ys \<Longrightarrow> (\<And>x y. x \<in> set xs \<Longrightarrow> R x y \<Longrightarrow> P x \<longleftrightarrow> Q y) \<Longrightarrow>
    (\<exists>x \<in> set xs. P x) \<longleftrightarrow> (\<exists>y \<in> set ys. Q y)"
  by (induction rule: list_all2_induct) auto

lemma membership_values_correct:
  assumes "membership_values lim path operand n = Inr (ws, n')"
  shows "\<exists>items. asAnySlice operand = Some items \<and>
    ((\<exists>x \<in> set items. \<exists>w. queryValueOf path x = Inr w \<and> P w) \<longleftrightarrow> (\<exists>w \<in> set ws. P w))"
proof -
  obtain items where i: "asAnySlice operand = Some items" "rmapM (queryValueOf path) items = Inr ws"
    using assms by (auto simp: membership_values_def split: option.splits if_splits)
  have "(\<exists>x \<in> set items. \<exists>w. queryValueOf path x = Inr w \<and> P w) \<longleftrightarrow> (\<exists>w \<in> set ws. P w)"
    by (rule all2_bex [OF rmapM_all2 [OF i(2)]]) auto
  then show ?thesis using i(1) by blast
qed

lemma unat_of_char: "unat (of_char c :: byte) = of_char c"
proof -
  have "(of_char c :: byte) = of_nat (of_char c)" by (simp only: of_nat_of_char)
  then show ?thesis by simp
qed

lemma unstr_str [simp]: "unstr (str s) = s"
  by (simp add: unstr_def str_def comp_def unat_of_char)

lemma str_simps [simp]: "tl (str (c # s)) = str s" "str s = str t \<longleftrightarrow> s = t"
  by (simp add: str_def) (metis unstr_str)

lemma comparison_ne: "is_comparison op \<Longrightarrow> unstr (tl op) = ''ne'' \<longleftrightarrow> op = str ''$ne''"
  by (auto simp: is_comparison_def)

lemma cmapM_ball:
  assumes "cmapM f xs n = Inr (ys, n')" "\<And>x y k k'. x \<in> set xs \<Longrightarrow> f x k = Inr (y, k') \<Longrightarrow> Q y \<longleftrightarrow> P x"
  shows "(\<forall>y \<in> set ys. Q y) \<longleftrightarrow> (\<forall>x \<in> set xs. P x)"
  using all2_ball [OF cmapM_all2 [OF assms(1)], of P Q] assms(2) by blast

lemma cmapM_bex:
  assumes "cmapM f xs n = Inr (ys, n')" "\<And>x y k k'. x \<in> set xs \<Longrightarrow> f x k = Inr (y, k') \<Longrightarrow> Q y \<longleftrightarrow> P x"
  shows "(\<exists>y \<in> set ys. Q y) \<longleftrightarrow> (\<exists>x \<in> set xs. P x)"
  using all2_bex [OF cmapM_all2 [OF assms(1)], of P Q] assms(2) by blast

lemma compile_element_entry_correct:
  assumes "compile_element_entry compile lim path p n = Inr (arg, n')"
    and IH: "\<And>m n c n'. compile m n = Inr (c, n') \<Longrightarrow> element_matches c v \<longleftrightarrow> element_holds path m v"
  shows "element_matches arg v \<longleftrightarrow> element_holds path [p] v"
proof -
  consider (logic) items children k k' where "fst p = str ''$and'' \<or> fst p = str ''$or''" "asAnySlice (snd p) = Some items"
      "arg = ElementLogical (unstr (tl (fst p))) children"
      "cmapM (\<lambda>item. case asStringAnyMap item of None \<Rightarrow> cfail ErrInvalidFilter | Some child \<Rightarrow> compile child) items k =
        Inr (children, k')"
    | (not) m c k k' where "fst p = str ''$not''" "asStringAnyMap (snd p) = Some m" "arg = ElementNot c"
      "compile m k = Inr (c, k')"
    | (compare) w where "is_comparison (fst p)" "fst p \<notin> {str ''$and'', str ''$or'', str ''$not''}"
      "queryValueOf path (snd p) = Inr w" "arg = ElementCompare (unstr (tl (fst p))) w"
    | (member) ws k k' where "fst p = str ''$in'' \<or> fst p = str ''$nin''" "membership_values lim path (snd p) k = Inr (ws, k')"
      "arg = ElementMembership (unstr (tl (fst p))) ws"
    using assms(1)
    by (auto simp: compile_element_entry_def Let_def operand_value_def split: if_splits option.splits)
  then show ?thesis
  proof cases
    case logic
    note IH' = cmapM_ball [OF logic(4), of "\<lambda>c. element_matches c v"
        "\<lambda>item. case asStringAnyMap item of None \<Rightarrow> False | Some m \<Rightarrow> element_holds path m v"]
      cmapM_bex [OF logic(4), of "\<lambda>c. element_matches c v"
        "\<lambda>item. case asStringAnyMap item of None \<Rightarrow> False | Some m \<Rightarrow> element_holds path m v"]
    have "(\<forall>c \<in> set children. element_matches c v) \<longleftrightarrow>
        (\<forall>item \<in> set items. case asStringAnyMap item of None \<Rightarrow> False | Some m \<Rightarrow> element_holds path m v)"
      by (rule IH'(1)) (auto split: option.splits dest: IH)
    moreover have "(\<exists>c \<in> set children. element_matches c v) \<longleftrightarrow>
        (\<exists>item \<in> set items. case asStringAnyMap item of None \<Rightarrow> False | Some m \<Rightarrow> element_holds path m v)"
      by (rule IH'(2)) (auto split: option.splits dest: IH)
    ultimately show ?thesis
      using logic(1-3) by (elim disjE) (simp_all add: element_holds.simps [of path "[p]"])
  next
    case not
    then show ?thesis using IH by (auto simp: element_holds.simps [of path "[p]"])
  next
    case compare
    then show ?thesis by (simp add: element_holds.simps [of path "[p]"])
  next
    case member
    obtain items where "asAnySlice (snd p) = Some items"
      "(\<exists>x \<in> set items. \<exists>w. queryValueOf path x = Inr w \<and> field_equal v w) \<longleftrightarrow> (\<exists>w \<in> set ws. field_equal v w)"
      using membership_values_correct [OF member(2), of "field_equal v"] by (elim exE conjE)
    then show ?thesis
      using member(1,3)
      by (elim disjE) (simp_all add: element_holds.simps [of path "[p]"] is_comparison_def, blast)
  qed
qed

lemma element_holds_entries: "element_holds path flt v \<longleftrightarrow> (\<forall>p \<in> set flt. element_holds path [p] v)"
  by (subst (1 2) element_holds.simps) simp

lemma compileElementFilter_correct:
  "nat (MaxDepth lim + 1 - depth) \<le> k \<Longrightarrow> compileElementFilter lim path flt depth n = Inr (c, n') \<Longrightarrow>
    element_matches c v \<longleftrightarrow> element_holds path flt v"
proof (induction k arbitrary: depth flt n c n')
  case 0
  then show ?case by (simp add: compileElementFilter.simps)
next
  case (Suc k)
  then obtain args m where a: "\<not> MaxDepth lim < depth" "flt \<noteq> []"
    "cmapM (compile_element_entry (\<lambda>child. compileElementFilter lim path child (depth + 1)) lim path) flt n = Inr (args, m)"
    "c = (if length args = 1 then hd args else ElementLogical ''and'' args)"
    by (subst (asm) compileElementFilter.simps) (auto split: if_splits)
  have "(\<forall>arg \<in> set args. element_matches arg v) \<longleftrightarrow> (\<forall>p \<in> set flt. element_holds path [p] v)"
    using a(3) by (rule cmapM_ball, elim compile_element_entry_correct, intro Suc.IH [of "depth + 1"])
      (use Suc.prems(1) in auto)
  moreover have "length args = length flt" using cmapM_all2 [OF a(3)] by (simp add: list_all2_lengthD)
  ultimately show ?case
    using a(2,4) by (subst element_holds_entries) (cases args; auto)
qed

abbreviation doc_ok :: "Document \<Rightarrow> bool" where
  "doc_ok d \<equiv> value_wf (VObject d) \<and> nan_free (VObject d)"

lemma lookupInternal_ok:
  "doc_ok d \<Longrightarrow> lookupInternal d path = Some v \<Longrightarrow> value_wf v \<and> nan_free v"
  using lookup_parts_all unfolding lookupInternal_def by blast

lemma validateArray_nan_free: "validateArray 0 [v] = Inr () \<Longrightarrow> nan_free v"
  using validateNested_iff [of v 0] value_all_mono [of node_valid v node_number] node_valid_number
  by (simp add: validateArray_def split: if_splits)

lemma kind_ID: "kind v = 9 \<Longrightarrow> \<exists>i. v = VID i"
  by (cases v) auto

lemma queryValueOf_nan_free: "queryValueOf path raw = Inr w \<Longrightarrow> nan_free w"
  by (auto simp: queryValueOf_def dest!: validateArray_nan_free kind_ID split: if_splits goany.splits)

lemma equal_trans:
  assumes "value_wf u" "value_wf v" "value_wf w" "nan_free u" "nan_free v" "nan_free w"
    "value_Equal u v" "value_Equal v w"
  shows "value_Equal u w"
  using assms value_Equal_sem by metis

lemma distinct_values_correct:
  assumes "distinct_values path xs ws = Inr vs" "\<forall>x \<in> set xs. raw_wf x"
    and "\<forall>w \<in> set ws. value_wf w \<and> nan_free w" "\<forall>a \<in> set arr. value_wf a \<and> nan_free a"
  shows "(\<forall>w \<in> set vs. \<exists>a \<in> set arr. value_Equal a w) \<longleftrightarrow>
    (\<forall>w \<in> set ws. \<exists>a \<in> set arr. value_Equal a w) \<and>
    (\<forall>x \<in> set xs. \<exists>w. queryValueOf path x = Inr w \<and> (\<exists>a \<in> set arr. value_Equal a w))"
  using assms
proof (induction path xs ws rule: distinct_values.induct)
  case (2 path x xs ws)
  then obtain w where w: "queryValueOf path x = Inr w"
    "distinct_values path xs (if containsQueryValue ws w then ws else ws @ [w]) = Inr vs"
    by auto
  have ok: "value_wf w \<and> nan_free w"
    using w(1) "2.prems"(2) queryValueOf_wf queryValueOf_nan_free by auto
  have "(\<forall>u \<in> set vs. \<exists>a \<in> set arr. value_Equal a u) \<longleftrightarrow>
      (\<forall>u \<in> set (if containsQueryValue ws w then ws else ws @ [w]). \<exists>a \<in> set arr. value_Equal a u) \<and>
      (\<forall>x \<in> set xs. \<exists>w. queryValueOf path x = Inr w \<and> (\<exists>a \<in> set arr. value_Equal a w))"
    by (rule "2.IH") (use w "2.prems" ok in auto)
  moreover have "\<exists>a \<in> set arr. value_Equal a w"
    if c: "containsQueryValue ws w" "\<forall>u \<in> set ws. \<exists>a \<in> set arr. value_Equal a u"
  proof -
    obtain u where u: "u \<in> set ws" "value_Equal u w" using c(1) by (auto simp: containsQueryValue_iff)
    then obtain a where "a \<in> set arr" "value_Equal a u" using c(2) by blast
    then show ?thesis using equal_trans [of a u w] u ok "2.prems"(3,4) by blast
  qed
  ultimately show ?case using w(1) by auto
qed simp

lemma select_types_set:
  "select_types names s = Inr r \<Longrightarrow> r = s \<union> {k. \<exists>name \<in> set names. map_of canonicalQueryTypes name = Some k}"
  by (induction names arbitrary: s) (auto split: option.splits)

lemma normalizeQueryTypes_set:
  assumes "normalizeQueryTypes names m = Inr types"
  shows "set types = {k. \<exists>name \<in> set names. map_of canonicalQueryTypes name = Some k}"
proof -
  obtain r where "select_types names {} = Inr r" "types = filter (\<lambda>k. k \<in> r) (map snd canonicalQueryTypes)"
    using assms by (auto simp: normalizeQueryTypes_def split: if_splits)
  moreover have "k \<in> snd ` set canonicalQueryTypes" if "map_of canonicalQueryTypes name = Some k" for name k
    using map_of_SomeD [OF that] by force
  ultimately show ?thesis using select_types_set [of names "{}"] by auto
qed

lemma asAnySlice_wf: "asAnySlice x = Some xs \<Longrightarrow> raw_wf x \<Longrightarrow> \<forall>y \<in> set xs. raw_wf y"
  by (auto simp: asAnySlice_def split: goany.splits)

lemma compile_leaf_correct:
  assumes "compile_leaf DefaultQueryLimits path op operand n = Inr (e, n')" "raw_wf operand" "doc_ok d"
  shows "matches e d \<longleftrightarrow> leaf_holds path op operand d"
proof -
  consider (compare) w where "is_comparison op" "queryValueOf path operand = Inr w" "e = CompareExpr (unstr (tl op)) path w"
    | (exists) b where "\<not> is_comparison op" "op = str ''$exists''" "operand = ABool b" "e = ExistsExpr path b"
    | (size) k where "\<not> is_comparison op" "op = str ''$size''" "queryArraySize operand = Some k" "e = SizeExpr path k"
    | (type) names types where "\<not> is_comparison op" "op = str ''$type''"
      "queryTypeOperand operand (MaxArrayItems DefaultQueryLimits) = Inr names"
      "normalizeQueryTypes names (MaxArrayItems DefaultQueryLimits) = Inr types" "e = TypeExpr path types"
    | (all) items ws where "\<not> is_comparison op" "op = str ''$all''" "asAnySlice operand = Some items"
      "distinct_values path items [] = Inr ws" "e = AllExpr path ws"
    | (member) ws k k' where "\<not> is_comparison op" "op = str ''$in'' \<or> op = str ''$nin''"
      "membership_values DefaultQueryLimits path operand k = Inr (ws, k')" "e = MembershipExpr (unstr (tl op)) path ws"
    using assms(1)
    by (auto simp: compile_leaf_def operand_value_def split: if_splits option.splits goany.splits)
  then show ?thesis
  proof cases
    case compare
    then show ?thesis using comparison_ne by (auto simp: leaf_holds_def split: option.splits)
  next
    case exists
    then show ?thesis by (auto simp: leaf_holds_def)
  next
    case size
    then show ?thesis by (auto simp: leaf_holds_def split: option.splits Value.splits)
  next
    case type
    then show ?thesis
      using normalizeQueryTypes_set [OF type(4)] by (auto simp: leaf_holds_def split: option.splits)
  next
    case all
    show ?thesis
    proof (cases "\<exists>arr. lookupInternal d path = Some (VArray arr)")
      case True
      then obtain arr where arr: "lookupInternal d path = Some (VArray arr)" by blast
      then have "\<forall>a \<in> set arr. value_wf a \<and> nan_free a"
        using lookupInternal_ok [OF assms(3) arr] by simp
      then show ?thesis
        using distinct_values_correct [OF all(4) asAnySlice_wf [OF all(3) assms(2)]] all arr
        by (simp add: leaf_holds_def)
    next
      case False
      then show ?thesis using all by (auto simp: leaf_holds_def split: option.splits Value.splits)
    qed
  next
    case member
    show ?thesis
    proof (cases "lookupInternal d path")
      case None
      then show ?thesis
        using member by (elim disjE) (simp_all add: leaf_holds_def)
    next
      case (Some v)
      obtain items where "asAnySlice operand = Some items"
        "(\<exists>x \<in> set items. \<exists>w. queryValueOf path x = Inr w \<and> field_equal v w) \<longleftrightarrow> (\<exists>w \<in> set ws. field_equal v w)"
        using membership_values_correct [OF member(3), of "field_equal v"] by (elim exE conjE)
      then show ?thesis
        using member(1,2,4) Some by (elim disjE) (simp_all add: leaf_holds_def del: bex_simps ball_simps)
    qed
  qed
qed

lemma asStringAnyMap_wf: "asStringAnyMap x = Some m \<Longrightarrow> raw_wf x \<Longrightarrow> rawmap_wf m"
  by (auto simp: asStringAnyMap_def split: goany.splits)

lemma asFilters_wf:
  assumes "asFilters x = Some fs" "raw_wf x" "f \<in> set fs"
  shows "rawmap_wf f"
proof (cases "\<exists>gs. x = AFilters gs")
  case True
  then have "x = AFilters fs" using assms(1) by (auto simp: asFilters_def)
  then show ?thesis using assms(2,3) by simp
next
  case False
  then obtain xs where xs: "asAnySlice x = Some xs" "those (map asFilter xs) = Some fs"
    using assms(1) by (auto simp: asFilters_def split: goany.splits option.splits)
  then obtain y where "y \<in> set xs" "asFilter y = Some f"
    using those_member assms(3) by fastforce
  then show ?thesis
    using asAnySlice_wf [OF xs(1) assms(2)] asStringAnyMap_wf [of y f] by (simp add: asFilter_map)
qed

lemma filter_holds_entries: "filter_holds flt d \<longleftrightarrow> (\<forall>p \<in> set flt. filter_holds [p] d)"
  by (subst (1 2) filter_holds.simps) simp

definition entry_holds :: "bytes \<Rightarrow> bytes \<times> goany \<Rightarrow> Document \<Rightarrow> bool" where
  "entry_holds path p d \<longleftrightarrow>
     (if fst p = str ''$elemMatch'' then
        (case (lookupInternal d path, asStringAnyMap (snd p)) of
           (Some (VArray arr), Some element) \<Rightarrow>
             (\<exists>item \<in> set arr.
                if any_dollar element then element_holds path element item
                else case item of VObject o1 \<Rightarrow> filter_holds element o1 | _ \<Rightarrow> False)
         | _ \<Rightarrow> False)
      else if fst p = str ''$not'' then \<not> field_holds path (snd p) d
      else leaf_holds path (fst p) (snd p) d)"

lemma conjunction_matches: "es \<noteq> [] \<Longrightarrow> matches (conjunction es) d \<longleftrightarrow> (\<forall>e \<in> set es. matches e d)"
  by (cases es) (auto simp: conjunction_def)

definition filter_correct :: "(rawmap \<Rightarrow> expr counted) \<Rightarrow> bool" where
  "filter_correct compile \<longleftrightarrow>
     (\<forall>m n e n' d. compile m n = Inr (e, n') \<longrightarrow> rawmap_wf m \<longrightarrow> doc_ok d \<longrightarrow> matches e d = filter_holds m d)"

definition field_correct :: "(bytes \<Rightarrow> goany \<Rightarrow> expr list counted) \<Rightarrow> bool" where
  "field_correct field \<longleftrightarrow>
     (\<forall>path raw n es n' d. field path raw n = Inr (es, n') \<longrightarrow> raw_wf raw \<longrightarrow> doc_ok d \<longrightarrow>
        es \<noteq> [] \<and> (\<forall>e \<in> set es. matches e d) = field_holds path raw d)"

lemma field_correctD:
  assumes "field_correct field" "field path raw n = Inr (es, n')" "raw_wf raw" "doc_ok d"
  shows "es \<noteq> []" "(\<forall>e \<in> set es. matches e d) = field_holds path raw d"
  using assms unfolding field_correct_def by blast+

lemma compile_filter_entry_correct:
  assumes "compile_filter_entry compile field lim p n = Inr (es, n')" "raw_wf (snd p)" "doc_ok d"
    and IH: "filter_correct compile" "field_correct field"
  shows "(\<forall>e \<in> set es. matches e d) \<longleftrightarrow> filter_holds [p] d"
proof -
  have c: "matches e d = filter_holds m d" if "compile m n = Inr (e, n')" "rawmap_wf m" for m n e n'
    using IH(1) that assms(3) unfolding filter_correct_def by blast
  consider (logic) parts children k k' where "fst p = str ''$and'' \<or> fst p = str ''$or''" "asFilters (snd p) = Some parts"
      "es = [LogicalExpr (unstr (tl (fst p))) children]" "cmapM compile parts k = Inr (children, k')"
    | (not) m child k k' where "fst p = str ''$not''" "asFilter (snd p) = Some m" "es = [NotExpr child]"
      "compile m k = Inr (child, k')"
    | (field) k where "fst p \<notin> {str ''$and'', str ''$or'', str ''$not''}" "field (fst p) (snd p) k = Inr (es, n')"
    using assms(1)
    by (auto simp: compile_filter_entry_def Let_def split: if_splits option.splits)
  then show ?thesis
  proof cases
    case logic
    have "(\<forall>e \<in> set children. matches e d) \<longleftrightarrow> (\<forall>part \<in> set parts. filter_holds part d)"
      using logic(4) by (rule cmapM_ball) (use c asFilters_wf [OF logic(2) assms(2)] in blast)
    moreover have "(\<exists>e \<in> set children. matches e d) \<longleftrightarrow> (\<exists>part \<in> set parts. filter_holds part d)"
      using logic(4) by (rule cmapM_bex) (use c asFilters_wf [OF logic(2) assms(2)] in blast)
    ultimately show ?thesis
      using logic(1-3) by (elim disjE) (simp_all add: filter_holds.simps [of "[p]"])
  next
    case not
    then show ?thesis
      using c [OF not(4)] asStringAnyMap_wf [of "snd p" m] assms(2)
      by (simp add: filter_holds.simps [of "[p]"] asFilter_map)
  next
    case field
    then show ?thesis
      using field_correctD(2) [OF IH(2) field(2) assms(2,3)] by (simp add: filter_holds.simps [of "[p]"])
  qed
qed

lemma compile_field_entry_correct:
  assumes "compile_field_entry compile element (field path) DefaultQueryLimits path p n = Inr (e, n')"
    "raw_wf (snd p)" "doc_ok d"
    and IH: "filter_correct compile" "field_correct field"
    and el: "\<And>m n c n' v. element m n = Inr (c, n') \<Longrightarrow> element_matches c v \<longleftrightarrow> element_holds path m v"
  shows "matches e d \<longleftrightarrow> entry_holds path p d"
proof -
  consider (scalar) m c k k' where "fst p = str ''$elemMatch''" "asStringAnyMap (snd p) = Some m"
      "any_dollar m" "element m k = Inr (c, k')" "e = ElemMatchExpr path ''scalar'' (Some c) None"
    | (object) m c k k' where "fst p = str ''$elemMatch''" "asStringAnyMap (snd p) = Some m"
      "\<not> any_dollar m" "compile m k = Inr (c, k')" "e = ElemMatchExpr path ''object'' None (Some c)"
    | (not) nested k k' where "fst p = str ''$not''" "field path (snd p) k = Inr (nested, k')" "e = NotExpr (conjunction nested)"
    | (leaf) k where "fst p \<noteq> str ''$elemMatch''" "fst p \<noteq> str ''$not''"
      "compile_leaf DefaultQueryLimits path (fst p) (snd p) k = Inr (e, n')"
    using assms(1)
    by (auto simp: compile_field_entry_def Let_def split: if_splits option.splits)
  then show ?thesis
  proof cases
    case scalar
    then show ?thesis
      using el [OF scalar(4)] by (simp add: entry_holds_def split: option.splits Value.splits)
  next
    case object
    have item: "matches c o1 \<longleftrightarrow> filter_holds m o1"
      if "lookupInternal d path = Some (VArray arr)" "VObject o1 \<in> set arr" for arr o1
    proof -
      have "\<forall>a \<in> set arr. value_wf a \<and> nan_free a" using lookupInternal_ok [OF assms(3) that(1)] by simp
      then have "doc_ok o1" using that(2) by blast
      then show ?thesis
        using IH(1) object(4) asStringAnyMap_wf [OF object(2) assms(2)] unfolding filter_correct_def by blast
    qed
    show ?thesis
    proof (cases "\<exists>arr. lookupInternal d path = Some (VArray arr)")
      case True
      then obtain arr where arr: "lookupInternal d path = Some (VArray arr)" by blast
      have "(\<exists>x \<in> set arr. case x of VObject o1 \<Rightarrow> matches c o1 | _ \<Rightarrow> False) \<longleftrightarrow>
          (\<exists>x \<in> set arr. case x of VObject o1 \<Rightarrow> filter_holds m o1 | _ \<Rightarrow> False)"
        using item [OF arr] by (intro bex_cong) (auto split: Value.splits)
      then show ?thesis using object arr by (simp add: entry_holds_def cong: Value.case_cong)
    next
      case False
      then show ?thesis using object by (auto simp: entry_holds_def split: option.splits Value.splits)
    qed
  next
    case not
    then show ?thesis
      using field_correctD [OF IH(2) not(2) assms(2,3)] by (simp add: entry_holds_def conjunction_matches)
  next
    case leaf
    then show ?thesis using compile_leaf_correct [OF leaf(3) assms(2,3)] by (simp add: entry_holds_def)
  qed
qed

lemma field_holds_entries:
  "field_holds path raw d \<longleftrightarrow>
    (case operator_map raw of None \<Rightarrow> leaf_holds path (str ''$eq'') raw d | Some m \<Rightarrow> \<forall>p \<in> set m. entry_holds path p d)"
  unfolding field_holds.simps [of path raw d] entry_holds_def by (rule refl)

lemma concat_ball: "(\<forall>e \<in> set (concat ess). P e) \<longleftrightarrow> (\<forall>es \<in> set ess. \<forall>e \<in> set es. P e)"
  by auto

lemma compile_correct:
  "nat (MaxDepth DefaultQueryLimits + 1 - depth) \<le> k \<Longrightarrow>
    filter_correct (\<lambda>m. compileFilter DefaultQueryLimits m depth) \<and>
    field_correct (\<lambda>path raw. compileField DefaultQueryLimits path raw depth)"
proof (induction k arbitrary: depth)
  case 0
  then show ?case
    by (simp add: filter_correct_def field_correct_def compileFilter.simps compileField.simps)
next
  case (Suc k)
  let ?L = DefaultQueryLimits
  have IH: "filter_correct (\<lambda>m. compileFilter ?L m (depth + 1))"
    "field_correct (\<lambda>path raw. compileField ?L path raw (depth + 1))"
    using Suc.IH [of "depth + 1"] Suc.prems by auto
  have "matches e d \<longleftrightarrow> filter_holds m d"
    if c: "compileFilter ?L m depth n = Inr (e, n')" "rawmap_wf m" "doc_ok d" for m n e n' d
  proof -
    obtain argss k where a: "cmapM (compile_filter_entry (\<lambda>part. compileFilter ?L part (depth + 1))
        (\<lambda>key raw. compileField ?L key raw (depth + 1)) ?L) m n = Inr (argss, k)"
      "e = (if concat argss = [] then TrueExpr else conjunction (concat argss))"
      using c(1) unfolding compileFilter.simps [of ?L m depth]
      by (auto simp: Let_def conjunction_def simp del: concat_eq_Nil_conv split: if_splits)
    have "(\<forall>es \<in> set argss. \<forall>e \<in> set es. matches e d) \<longleftrightarrow> (\<forall>p \<in> set m. filter_holds [p] d)"
      using a(1) by (rule cmapM_ball, elim compile_filter_entry_correct) (use IH c in auto)
    then have all: "(\<forall>e \<in> set (concat argss). matches e d) \<longleftrightarrow> filter_holds m d"
      unfolding concat_ball by (subst filter_holds_entries)
    show ?thesis
    proof (cases "concat argss = []")
      case True
      then show ?thesis using a(2) all by (simp only: if_True list.set) simp
    next
      case False
      then show ?thesis using a(2) all conjunction_matches [OF False, of d] by (simp only: if_False)
    qed
  qed
  moreover have "es \<noteq> [] \<and> (\<forall>e \<in> set es. matches e d) = field_holds path raw d"
    if c: "compileField ?L path raw depth n = Inr (es, n')" "raw_wf raw" "doc_ok d" for path raw n es n' d
  proof (cases "operator_map raw")
    case None
    then obtain w where "queryValueOf path raw = Inr w" "es = [CompareExpr ''eq'' path w]"
      using c(1) unfolding compileField.simps [of ?L path raw depth]
      by (auto simp: operand_value_def split: if_splits)
    then show ?thesis
      using None
      by (simp add: field_holds_entries leaf_holds_def is_comparison_def split: option.splits)
  next
    case (Some m)
    then have a: "cmapM (compile_field_entry (\<lambda>m. compileFilter ?L m (depth + 1))
        (\<lambda>m. compileElementFilter ?L path m (depth + 1))
        (\<lambda>operand. compileField ?L path operand (depth + 1)) ?L path) m n = Inr (es, n')"
      using c(1) unfolding compileField.simps [of ?L path raw depth] by (auto split: if_splits)
    have m: "rawmap_wf m" "m \<noteq> []"
      using Some asStringAnyMap_wf [of raw m] c(2)
      by (auto simp: operator_map_def any_dollar_def split: option.splits if_splits)
    have "(\<forall>e \<in> set es. matches e d) \<longleftrightarrow> (\<forall>p \<in> set m. entry_holds path p d)"
      using a
    proof (rule cmapM_ball, goal_cases)
      case (1 p e j j')
      show ?case
        by (rule compile_field_entry_correct [where field = "\<lambda>path raw. compileField ?L path raw (depth + 1)", OF 1(2)])
          (use 1(1) m c(3) IH compileElementFilter_correct [OF order_refl] in auto)
    qed
    moreover have "length es = length m" using cmapM_all2 [OF a] by (simp add: list_all2_lengthD)
    ultimately show ?thesis using Some m(2) by (auto simp: field_holds_entries)
  qed
  ultimately show ?case unfolding filter_correct_def field_correct_def by blast
qed

section \<open>Properties\<close>

text \<open>
  C7 A compiled query matches exactly the documents that satisfy the filter as
  written. Whenever \<open>CompileQuery\<close> accepts a filter, evaluating the compiled query on a well-formed
  document gives the meaning of the filter map: all entries hold, \<open>$and\<close>, \<open>$or\<close>, \<open>$not\<close> and
  \<open>$elemMatch\<close> nest, and each operator tests the value at its path. Dropping duplicate \<open>$all\<close> operands
  and normalising \<open>$type\<close> names does not change the meaning.
\<close>

theorem compiled_filter_meaning:
  assumes "CompileQuery marshal flt options = Inr query" "rawmap_wf flt" "doc_ok d"
  shows "Match query d \<longleftrightarrow> filter_holds flt d"
proof -
  obtain e n where c: "compileFilter DefaultQueryLimits flt 0 0 = Inr (e, n)" "qwhere query = Some e"
    and v: "validateQuerySpec marshal query DefaultQueryLimits = Inr ()"
    using assms(1) by (auto simp: CompileQuery_def Let_def split: if_splits)
  have "expr_ok e"
    using v c(2) unfolding validateQuerySpec_cases
    by (auto simp: Let_def split: if_splits dest: expr_valid_ok)
  then have "Match query d \<longleftrightarrow> matches e d"
    using c(2) match_value by (simp add: Match_def matchWithBudget_def)
  then show ?thesis
    using compile_correct [of 0, OF order_refl] c(1) assms(2,3) unfolding filter_correct_def by blast
qed

theorem compiled_filter_meaning_witness:
  "\<exists>query. CompileQuery (\<lambda>_. Inr []) [(str ''a'', AMap [(str ''$gt'', AInt 5)])]
       \<lparr>optSort = [], optSkip = 0, optLimit = None\<rparr> = Inr query \<and>
     Match query [(str ''a'', VInt 7)] \<and> filter_holds [(str ''a'', AMap [(str ''$gt'', AInt 5)])] [(str ''a'', VInt 7)]"
proof -
  let ?L = DefaultQueryLimits
  let ?e = "CompareExpr ''gt'' (str ''a'') (VInt 5)"
  let ?q = "\<lparr>qwhere = Some ?e, qsort = [], qskip = 0, qlimit = None, qseek = False\<rparr>"
  have p: "path_valid (str ''a'')" "str ''a'' \<noteq> field_id" "\<not> dollar (str ''a'')" "dollar (str ''$gt'')"
    by (simp_all add: path_valid_def validField_def field_id_def str_def dollar_def)
  have v: "queryValueOf (str ''a'') (AInt 5) = Inr (VInt 5)"
    using p(2) by (simp add: queryValueOf_def ValueOf.simps validateArray_def validateNested.simps)
  have c: "compileFilter ?L [(str ''a'', AMap [(str ''$gt'', AInt 5)])] 0 0 = Inr (?e, 1)"
    using p v
    by (simp add: compileFilter.simps compile_filter_entry_def Let_def compileField.simps operator_map_def
        asStringAnyMap_def any_dollar_def compile_field_entry_def compile_leaf_def is_comparison_def operand_value_def
        validatePath_accept accept_def DefaultQueryLimits_def compiler_node_def cbind_def cret_def clift_def)
  have ok: "CompileQuery (\<lambda>_. Inr []) [(str ''a'', AMap [(str ''$gt'', AInt 5)])]
      \<lparr>optSort = [], optSkip = 0, optLimit = None\<rparr> = Inr ?q"
    using c p
    by (simp add: CompileQuery_def Let_def validateQuerySpec_cases validateSortFields_accept sort_valid_def
        accept_def normalizedLimits_def DefaultQueryLimits_def operand_valid_def value_valid.simps
        wireValueBytes.simps comparison_op_def)
  have m: "Match ?q [(str ''a'', VInt 7)]"
    by (simp add: Match_def matchWithBudget_def match_value lookupInternal_def str_def split_dot.simps
        lookup_parts.simps compares_def compareValues_def scalarKind_def ordered_by_def)
  show ?thesis
    using compiled_filter_meaning [OF ok, of "[(str ''a'', VInt 7)]"] ok m by auto
qed

end
