(* ===== verification/Update_Model.thy ===== *)
theory Update_Model
  imports Raw_Value
begin

text \<open>
  Document updates, \<open>internal/database/update.go\<close>: compilation of the operators \<open>$set\<close>, \<open>$unset\<close>,
  \<open>$inc\<close>, \<open>$push\<close> and \<open>$pull\<close>, their application to a document, checked arithmetic, and the
  preparation of a batch of changed documents.

  \<open>Apply\<close> works on a copy that it discards on an error, so the edits in place are functions from the old
  to the new document. An object that \<open>setPath\<close> copies on its way is the same value.
\<close>

section \<open>Compiled edits\<close>

record updateOperation =
  uKind :: string
  uPath :: bytes
  uValue :: Value

record MutationSpec =
  operations :: "updateOperation list"

record UpdateResult =
  MatchedCount :: int
  ModifiedCount :: int

record pendingUpdate =
  pid :: DocumentID
  before :: Document
  after :: Document

section \<open>Paths\<close>

fun set_parts :: "Document \<Rightarrow> bytes list \<Rightarrow> Value \<Rightarrow> db_error + Document" where
  "set_parts d [] v = Inr d"
| "set_parts d [part] v = Inr (map_put part v d)"
| "set_parts d (part # parts) v =
     (case (case map_of d part of None \<Rightarrow> VObject [] | Some existing \<Rightarrow> existing) of
        VObject child \<Rightarrow> rbind (set_parts child parts v) (\<lambda>c. Inr (map_put part (VObject c) d))
      | _ \<Rightarrow> Inl ErrInvalidUpdate)"

definition setPath :: "Document \<Rightarrow> bytes \<Rightarrow> Value \<Rightarrow> db_error + Document" where
  "setPath d path v = set_parts d (split_dot path) v"

fun unset_parts :: "Document \<Rightarrow> bytes list \<Rightarrow> Document" where
  "unset_parts d [] = d"
| "unset_parts d [part] = map_del part d"
| "unset_parts d (part # parts) =
     (case map_of d part of
        Some (VObject child) \<Rightarrow> map_put part (VObject (unset_parts child parts)) d
      | _ \<Rightarrow> d)"

definition unsetPath :: "Document \<Rightarrow> bytes \<Rightarrow> Document" where
  "unsetPath d path = unset_parts d (split_dot path)"

section \<open>Arithmetic\<close>

definition exactFloat64 :: "int64 \<Rightarrow> float64 option" where
  "exactFloat64 i =
     (let converted = float64_of_int64 i
      in if \<not> float_less converted two63 \<or> float_less converted neg_two63 then None
         else if int64_of_float64 converted = i then Some converted else None)"

definition number_operand :: "Value \<Rightarrow> float64 option" where
  "number_operand v = (case v of VInt i \<Rightarrow> exactFloat64 i | VFloat f \<Rightarrow> Some f | _ \<Rightarrow> None)"

definition addNumbers :: "Value \<Rightarrow> Value \<Rightarrow> db_error + Value" where
  "addNumbers left right =
     (case (left, right) of
        (VInt a, VInt b) \<Rightarrow>
          let s = a + b
          in if 0 <s b \<and> s <s a \<or> b <s 0 \<and> a <s s then Inl ErrInvalidUpdate else Inr (VInt s)
      | _ \<Rightarrow>
          (case number_operand left of
             None \<Rightarrow> Inl ErrInvalidUpdate
           | Some a \<Rightarrow>
               (case (case right of VInt i \<Rightarrow> exactFloat64 i | _ \<Rightarrow> Some (val_f right)) of
                  None \<Rightarrow> Inl ErrInvalidUpdate
                | Some b \<Rightarrow>
                    let s = float_add a b
                    in if math_IsInf s \<or> math_IsNaN s then Inl ErrInvalidUpdate else Inr (VFloat s))))"

section \<open>Application\<close>

definition applyUpdateOperation :: "Document \<Rightarrow> updateOperation \<Rightarrow> db_error + Document" where
  "applyUpdateOperation d operation =
     (let path = uPath operation; v = uValue operation
      in if uKind operation = ''set'' then setPath d path v
         else if uKind operation = ''unset'' then Inr (unsetPath d path)
         else if uKind operation = ''inc'' then
           (case lookupInternal d path of
              None \<Rightarrow> setPath d path v
            | Some current \<Rightarrow> rbind (addNumbers current v) (\<lambda>s. setPath d path s))
         else if uKind operation = ''push'' then
           (case lookupInternal d path of
              None \<Rightarrow> setPath d path (VArray [v])
            | Some (VArray vs) \<Rightarrow> setPath d path (VArray (vs @ [v]))
            | Some _ \<Rightarrow> Inl ErrInvalidUpdate)
         else if uKind operation = ''pull'' then
           (case lookupInternal d path of
              None \<Rightarrow> Inr d
            | Some (VArray vs) \<Rightarrow> setPath d path (VArray (filter (\<lambda>item. \<not> value_Equal item v) vs))
            | Some _ \<Rightarrow> Inl ErrInvalidUpdate)
         else Inl ErrInvalidUpdate)"

fun apply_edits :: "Document \<Rightarrow> updateOperation list \<Rightarrow> db_error + Document" where
  "apply_edits d [] = Inr d"
| "apply_edits d (operation # ops) =
     rbind (applyUpdateOperation d operation) (\<lambda>e. apply_edits e ops)"

definition Apply :: "MutationSpec \<Rightarrow> Document \<Rightarrow> db_error + Document" where
  "Apply m d =
     (if operations m = [] then Inl ErrInvalidUpdate
      else rbind (apply_edits d (operations m)) (\<lambda>e. rbind (Validate e) (\<lambda>_. Inr e)))"

definition MutationSpec_Paths :: "MutationSpec \<Rightarrow> bytes list" where
  "MutationSpec_Paths m = sort (map uPath (operations m))"

fun prepare_updates ::
  "MutationSpec \<Rightarrow> Document list \<Rightarrow> pendingUpdate list \<Rightarrow> UpdateResult \<Rightarrow> db_error + pendingUpdate list \<times> UpdateResult" where
  "prepare_updates m [] changes result = Inr (changes, result)"
| "prepare_updates m (d # ds) changes result =
     (case Document_ID d of
        None \<Rightarrow> Inl ErrCorrupt
      | Some i \<Rightarrow>
          rbind (Apply m d)
            (\<lambda>e. if Document_Equal e d then prepare_updates m ds changes result
                 else prepare_updates m ds (changes @ [\<lparr>pid = i, before = d, after = e\<rparr>])
                   (result\<lparr>ModifiedCount := ModifiedCount result + 1\<rparr>)))"

definition prepareDocumentUpdates ::
  "Document list \<Rightarrow> MutationSpec \<Rightarrow> db_error + pendingUpdate list \<times> UpdateResult" where
  "prepareDocumentUpdates selected m =
     prepare_updates m selected [] \<lparr>MatchedCount = int (length selected), ModifiedCount = 0\<rparr>"

section \<open>Compilation\<close>

definition has_prefix :: "bytes \<Rightarrow> bytes \<Rightarrow> bool" where
  "has_prefix s p \<longleftrightarrow> take (length p) s = p"

definition conflicting :: "bytes \<Rightarrow> bytes \<Rightarrow> bool" where
  "conflicting p q \<longleftrightarrow> p = q \<or> has_prefix p (q @ [0x2E]) \<or> has_prefix q (p @ [0x2E])"

definition operator_kind :: "bytes \<Rightarrow> string option" where
  "operator_kind op =
     (if op = str ''$set'' then Some ''set''
      else if op = str ''$unset'' then Some ''unset''
      else if op = str ''$inc'' then Some ''inc''
      else if op = str ''$push'' then Some ''push''
      else if op = str ''$pull'' then Some ''pull''
      else None)"

fun compile_fields ::
  "string \<Rightarrow> rawmap \<Rightarrow> updateOperation list \<Rightarrow> db_error + updateOperation list" where
  "compile_fields k [] acc = Inr acc"
| "compile_fields k ((path, raw) # m) acc =
     (if validatePath path \<noteq> Inr () then Inl ErrInvalidUpdate
      else if path = field_id \<or> has_prefix path (field_id @ [0x2E]) then Inl ErrImmutableID
      else if \<exists>p \<in> set acc. conflicting (uPath p) path then Inl ErrInvalidUpdate
      else rbind (if k = ''unset'' then Inr VNull else with_error ErrInvalidUpdate (ValueOf raw))
        (\<lambda>v. if k = ''inc'' \<and> kind v \<noteq> 2 \<and> kind v \<noteq> 3 then Inl ErrInvalidUpdate
             else compile_fields k m (acc @ [\<lparr>uKind = k, uPath = path, uValue = v\<rparr>])))"

fun compile_operators :: "rawmap \<Rightarrow> updateOperation list \<Rightarrow> db_error + updateOperation list" where
  "compile_operators [] acc = Inr acc"
| "compile_operators ((op, raw) # m) acc =
     (case operator_kind op of
        None \<Rightarrow> Inl ErrInvalidUpdate
      | Some k \<Rightarrow>
          (case asStringAnyMap raw of
             None \<Rightarrow> Inl ErrInvalidUpdate
           | Some flds \<Rightarrow>
               if flds = [] then Inl ErrInvalidUpdate
               else rbind (compile_fields k flds acc) (compile_operators m)))"

definition CompileUpdate :: "rawmap \<Rightarrow> db_error + MutationSpec" where
  "CompileUpdate update =
     (if update = [] then Inl ErrInvalidUpdate
      else rbind (compile_operators update []) (\<lambda>ops. Inr \<lparr>operations = ops\<rparr>))"

section \<open>Lookup after an edit\<close>

lemma split_dot_nonempty [simp]: "split_dot p \<noteq> []"
  by (induction p) (auto split: list.splits)

definition apart :: "'a list \<Rightarrow> 'a list \<Rightarrow> bool" where
  "apart ps qs \<longleftrightarrow> take (length ps) qs \<noteq> ps \<and> take (length qs) ps \<noteq> qs"

lemma apart_simps [simp]:
  "\<not> apart [] qs" "\<not> apart ps []"
  "apart (p # ps) (q # qs) \<longleftrightarrow> p \<noteq> q \<or> apart ps qs"
  by (auto simp: apart_def)

lemma lookup_parts_empty: "lookup_parts [] qs = None"
  by (cases qs) (simp_all add: lookup_parts.simps)

lemma lookup_parts_put:
  "lookup_parts (map_put p w d) (q # qs) =
    (if q = p then (if qs = [] then Some w else case w of VObject e \<Rightarrow> lookup_parts e qs | _ \<Rightarrow> None)
     else lookup_parts d (q # qs))"
  by (simp add: lookup_parts.simps)

lemma set_parts_step:
  assumes "set_parts d (part # p # ps) v = Inr e"
  obtains child c where "(case map_of d part of None \<Rightarrow> VObject [] | Some existing \<Rightarrow> existing) = VObject child"
    "set_parts child (p # ps) v = Inr c" "e = map_put part (VObject c) d"
  using assms by (auto split: Value.splits)

lemma lookup_set_same:
  "set_parts d parts v = Inr e \<Longrightarrow> parts \<noteq> [] \<Longrightarrow> lookup_parts e parts = Some v"
proof (induction d parts v arbitrary: e rule: set_parts.induct)
  case (3 d part p ps v)
  obtain child c where c: "(case map_of d part of None \<Rightarrow> VObject [] | Some existing \<Rightarrow> existing) = VObject child"
    "set_parts child (p # ps) v = Inr c" "e = map_put part (VObject c) d"
    using "3.prems"(1) by (rule set_parts_step)
  then show ?case using "3.IH" [OF c(1,2)] by (simp add: lookup_parts_put)
qed (simp_all add: lookup_parts_put)

lemma lookup_set_other:
  "set_parts d parts v = Inr e \<Longrightarrow> apart parts qs \<Longrightarrow> lookup_parts e qs = lookup_parts d qs"
proof (induction d parts v arbitrary: e qs rule: set_parts.induct)
  case (2 d part v)
  then show ?case by (cases qs) (auto simp: lookup_parts_put)
next
  case (3 d part p ps v)
  then obtain q rs where qs: "qs = q # rs" by (cases qs) auto
  obtain child c where c: "(case map_of d part of None \<Rightarrow> VObject [] | Some existing \<Rightarrow> existing) = VObject child"
    "set_parts child (p # ps) v = Inr c" "e = map_put part (VObject c) d"
    using "3.prems"(1) by (rule set_parts_step)
  show ?case
  proof (cases "q = part")
    case True
    then have rs: "apart (p # ps) rs" "rs \<noteq> []" using "3.prems"(2) qs by auto
    then have "lookup_parts c rs = lookup_parts child rs"
      using "3.IH" [OF c(1,2)] by blast
    then show ?thesis
      using True c qs rs lookup_parts_empty
      by (auto simp: lookup_parts_put lookup_parts.simps split: option.splits)
  next
    case False
    then show ?thesis using c(3) qs by (simp add: lookup_parts_put)
  qed
qed simp

lemma child_wf: "value_wf (VObject d) \<Longrightarrow> map_of d k = Some v \<Longrightarrow> value_wf v"
  by (force dest: map_of_SomeD)

lemma set_parts_wf:
  "set_parts d parts v = Inr e \<Longrightarrow> value_wf (VObject d) \<Longrightarrow> value_wf v \<Longrightarrow> value_wf (VObject e)"
proof (induction d parts v arbitrary: e rule: set_parts.induct)
  case (2 d part v)
  then show ?case by (auto dest!: set_map_put)
next
  case (3 d part p ps v)
  obtain child c where c: "(case map_of d part of None \<Rightarrow> VObject [] | Some existing \<Rightarrow> existing) = VObject child"
    "set_parts child (p # ps) v = Inr c" "e = map_put part (VObject c) d"
    using "3.prems"(1) by (rule set_parts_step)
  have "value_wf (VObject child)"
    using c(1) child_wf [OF "3.prems"(2), of part "VObject child"] by (cases "map_of d part") simp_all
  then have "value_wf (VObject c)" using "3.IH" [OF c(1,2)] "3.prems"(3) by blast
  then show ?case using c(3) "3.prems"(2) by (auto dest!: set_map_put)
qed simp

lemma unset_parts_cases:
  obtains (child) child where "map_of d part = Some (VObject child)"
    "unset_parts d (part # p # ps) = map_put part (VObject (unset_parts child (p # ps))) d"
  | (none) "unset_parts d (part # p # ps) = d" "\<forall>child. map_of d part \<noteq> Some (VObject child)"
proof (cases "\<exists>child. map_of d part = Some (VObject child)")
  case True
  then show ?thesis using child by auto
next
  case False
  then have "unset_parts d (part # p # ps) = d" by (auto split: option.splits Value.splits)
  then show ?thesis using none False by blast
qed

lemma unset_parts_wf: "value_wf (VObject d) \<Longrightarrow> value_wf (VObject (unset_parts d parts))"
proof (induction d parts rule: unset_parts.induct)
  case (2 d part)
  then show ?case by (auto dest!: set_map_del)
next
  case (3 d part p ps)
  show ?case
  proof (cases rule: unset_parts_cases [of d part p ps])
    case (child child)
    then have "value_wf (VObject (unset_parts child (p # ps)))"
      using 3 child_wf [OF "3.prems" child(1)] by simp
    then show ?thesis using child(2) "3.prems" by (auto dest!: set_map_put)
  next
    case none
    then show ?thesis using "3.prems" by simp
  qed
qed simp

lemma lookup_unset_same:
  "value_wf (VObject d) \<Longrightarrow> parts \<noteq> [] \<Longrightarrow> lookup_parts (unset_parts d parts) parts = None"
proof (induction d parts rule: unset_parts.induct)
  case (3 d part p ps)
  show ?case
  proof (cases rule: unset_parts_cases [of d part p ps])
    case (child child)
    then show ?thesis
      using 3 child_wf [OF "3.prems"(1) child(1)] by (simp add: lookup_parts_put)
  next
    case none
    then show ?thesis by (auto simp: lookup_parts.simps split: option.splits Value.splits)
  qed
qed (simp_all add: lookup_parts.simps)

lemma lookup_parts_del:
  "sorted_map d \<Longrightarrow> q \<noteq> p \<Longrightarrow> lookup_parts (map_del p d) (q # qs) = lookup_parts d (q # qs)"
  by (simp add: lookup_parts.simps)

lemma lookup_unset_other:
  "value_wf (VObject d) \<Longrightarrow> apart parts qs \<Longrightarrow> lookup_parts (unset_parts d parts) qs = lookup_parts d qs"
proof (induction d parts arbitrary: qs rule: unset_parts.induct)
  case (2 d part)
  then show ?case by (cases qs) (auto simp: lookup_parts_del)
next
  case (3 d part p ps)
  then obtain q rs where qs: "qs = q # rs" by (cases qs) auto
  show ?case
  proof (cases rule: unset_parts_cases [of d part p ps])
    case (child child)
    show ?thesis
    proof (cases "q = part")
      case True
      then have rs: "apart (p # ps) rs" "rs \<noteq> []" using "3.prems"(2) qs by auto
      then have "lookup_parts (unset_parts child (p # ps)) rs = lookup_parts child rs"
        using 3 child_wf [OF "3.prems"(1) child(1)] child(1) by simp
      then show ?thesis
        using True child qs rs by (simp add: lookup_parts_put lookup_parts.simps)
    next
      case False
      then show ?thesis using child qs by (simp add: lookup_parts_put)
    qed
  next
    case none
    then show ?thesis by simp
  qed
qed simp

section \<open>Conflicting paths\<close>

fun join_dot :: "bytes list \<Rightarrow> bytes" where
  "join_dot [] = []"
| "join_dot [p] = p"
| "join_dot (p # ps) = p @ 0x2E # join_dot ps"

lemma join_split [simp]: "join_dot (split_dot p) = p"
proof (induction p)
  case (Cons c p)
  obtain q qs where q: "split_dot p = q # qs" by (cases "split_dot p") auto
  then show ?case using Cons by (cases qs) auto
qed simp

lemma join_append: "ps \<noteq> [] \<Longrightarrow> qs \<noteq> [] \<Longrightarrow> join_dot (ps @ qs) = join_dot ps @ 0x2E # join_dot qs"
  by (induction ps rule: join_dot.induct) (auto simp: neq_Nil_conv)

lemma split_prefix:
  assumes "take (length (split_dot p)) (split_dot q) = split_dot p"
  shows "q = p \<or> has_prefix q (p @ [0x2E])"
proof -
  obtain rs where rs: "split_dot q = split_dot p @ rs"
    using assms by (metis append_take_drop_id)
  show ?thesis
  proof (cases "rs = []")
    case True
    then have "split_dot q = split_dot p" using rs by simp
    then have "join_dot (split_dot q) = join_dot (split_dot p)" by simp
    then show ?thesis by simp
  next
    case False
    then have "join_dot (split_dot q) = p @ 0x2E # join_dot rs" unfolding rs by (simp add: join_append)
    then have "q = p @ 0x2E # join_dot rs" by simp
    then show ?thesis by (simp add: has_prefix_def)
  qed
qed

lemma not_conflicting_apart: "\<not> conflicting p q \<Longrightarrow> apart (split_dot p) (split_dot q)"
  using split_prefix [of p q] split_prefix [of q p] by (auto simp: conflicting_def apart_def)

lemma conflicting_sym: "conflicting p q \<longleftrightarrow> conflicting q p"
  by (auto simp: conflicting_def)

section \<open>Effect of an update\<close>

text \<open>What an edit does to the value at its path.\<close>

definition update_effect :: "updateOperation \<Rightarrow> Value option \<Rightarrow> Value option \<Rightarrow> bool" where
  "update_effect o1 old new \<longleftrightarrow>
     (if uKind o1 = ''set'' then new = Some (uValue o1)
      else if uKind o1 = ''unset'' then new = None
      else if uKind o1 = ''inc'' then
        (case old of
           None \<Rightarrow> new = Some (uValue o1)
         | Some c \<Rightarrow> \<exists>s. addNumbers c (uValue o1) = Inr s \<and> new = Some s)
      else if uKind o1 = ''push'' then
        (case old of
           None \<Rightarrow> new = Some (VArray [uValue o1])
         | Some (VArray vs) \<Rightarrow> new = Some (VArray (vs @ [uValue o1]))
         | _ \<Rightarrow> False)
      else uKind o1 = ''pull'' \<and>
        (case old of
           None \<Rightarrow> new = None
         | Some (VArray vs) \<Rightarrow> new = Some (VArray (filter (\<lambda>x. \<not> value_Equal x (uValue o1)) vs))
         | _ \<Rightarrow> False))"

lemma setPath_lookup:
  "setPath d path v = Inr e \<Longrightarrow> lookupInternal e path = Some v"
  "setPath d path v = Inr e \<Longrightarrow> \<not> conflicting path q \<Longrightarrow> lookupInternal e q = lookupInternal d q"
  using lookup_set_same lookup_set_other not_conflicting_apart by (auto simp: setPath_def lookupInternal_def)

lemma unsetPath_lookup:
  assumes "value_wf (VObject d)"
  shows "lookupInternal (unsetPath d path) path = None"
    and "\<not> conflicting path q \<Longrightarrow> lookupInternal (unsetPath d path) q = lookupInternal d q"
  using lookup_unset_same [OF assms] lookup_unset_other [OF assms] not_conflicting_apart
  by (simp_all add: unsetPath_def lookupInternal_def)

text \<open>Every edit is a write of one value, a removal, or nothing.\<close>

lemma applyUpdateOperation_cases:
  assumes "applyUpdateOperation d o1 = Inr e"
  obtains (put) v where "setPath d (uPath o1) v = Inr e" "update_effect o1 (lookupInternal d (uPath o1)) (Some v)"
      "value_wf (VObject d) \<Longrightarrow> value_wf (uValue o1) \<Longrightarrow> value_wf v"
  | (remove) "e = unsetPath d (uPath o1)" "update_effect o1 (lookupInternal d (uPath o1)) None"
  | (keep) "e = d" "lookupInternal d (uPath o1) = None" "update_effect o1 None None"
proof -
  let ?p = "uPath o1" and ?v = "uValue o1"
  have sum_wf: "value_wf s" if "addNumbers c ?v = Inr s" for c s
    using that by (auto simp: addNumbers_def Let_def split: Value.splits option.splits if_splits)
  have arr_wf: "\<forall>x \<in> set vs. value_wf x" if "lookupInternal d ?p = Some (VArray vs)" "value_wf (VObject d)" for vs
    using lookup_parts_all [OF that(2), of _ "VArray vs"] that(1) by (simp add: lookupInternal_def)
  consider (set) "uKind o1 = ''set''" | (unset) "uKind o1 = ''unset''" | (inc) "uKind o1 = ''inc''"
    | (push) "uKind o1 = ''push''" | (pull) "uKind o1 = ''pull''"
    using assms by (auto simp: applyUpdateOperation_def Let_def split: if_splits)
  then show thesis
  proof cases
    case set
    then show thesis using assms put [of ?v] by (simp add: applyUpdateOperation_def update_effect_def)
  next
    case unset
    then show thesis using assms remove by (simp add: applyUpdateOperation_def update_effect_def)
  next
    case inc
    show thesis
    proof (cases "lookupInternal d ?p")
      case None
      then show thesis using assms inc put [of ?v] by (simp add: applyUpdateOperation_def update_effect_def)
    next
      case (Some c)
      then obtain s where "addNumbers c ?v = Inr s" "setPath d ?p s = Inr e"
        using assms inc by (auto simp: applyUpdateOperation_def)
      then show thesis using inc Some put [of s] sum_wf by (simp add: update_effect_def)
    qed
  next
    case push
    then consider "lookupInternal d ?p = None" | vs where "lookupInternal d ?p = Some (VArray vs)"
      using assms by (auto simp: applyUpdateOperation_def Let_def split: option.splits Value.splits)
    then show thesis
    proof cases
      case 1
      then show thesis using assms push put [of "VArray [?v]"] by (simp add: applyUpdateOperation_def update_effect_def)
    next
      case (2 vs)
      show thesis
      proof (rule put)
        show "setPath d ?p (VArray (vs @ [?v])) = Inr e" using assms push 2 by (simp add: applyUpdateOperation_def)
        show "update_effect o1 (lookupInternal d ?p) (Some (VArray (vs @ [?v])))" using push 2 by (simp add: update_effect_def)
        show "value_wf (VArray (vs @ [?v]))" if "value_wf (VObject d)" "value_wf ?v" using arr_wf [OF 2 that(1)] that(2) by auto
      qed
    qed
  next
    case pull
    then consider "lookupInternal d ?p = None" | vs where "lookupInternal d ?p = Some (VArray vs)"
      using assms by (auto simp: applyUpdateOperation_def Let_def split: option.splits Value.splits)
    then show thesis
    proof cases
      case 1
      then show thesis using assms pull keep by (simp add: applyUpdateOperation_def update_effect_def)
    next
      case (2 vs)
      show thesis
      proof (rule put)
        show "setPath d ?p (VArray (filter (\<lambda>x. \<not> value_Equal x ?v) vs)) = Inr e" using assms pull 2 by (simp add: applyUpdateOperation_def)
        show "update_effect o1 (lookupInternal d ?p) (Some (VArray (filter (\<lambda>x. \<not> value_Equal x ?v) vs)))" using pull 2 by (simp add: update_effect_def)
        show "value_wf (VArray (filter (\<lambda>x. \<not> value_Equal x ?v) vs))" if "value_wf (VObject d)" "value_wf ?v" using arr_wf [OF 2 that(1)] that(2) by auto
      qed
    qed
  qed
qed

lemma applyUpdateOperation_effect:
  assumes "applyUpdateOperation d o1 = Inr e" "value_wf (VObject d)" "value_wf (uValue o1)"
  shows "update_effect o1 (lookupInternal d (uPath o1)) (lookupInternal e (uPath o1))"
    and "\<not> conflicting (uPath o1) q \<Longrightarrow> lookupInternal e q = lookupInternal d q"
    and "value_wf (VObject e)"
proof -
  from assms(1) show "update_effect o1 (lookupInternal d (uPath o1)) (lookupInternal e (uPath o1))"
    by (cases rule: applyUpdateOperation_cases)
      (simp_all add: setPath_lookup(1) unsetPath_lookup(1) [OF assms(2)])
  from assms(1) show "lookupInternal e q = lookupInternal d q" if "\<not> conflicting (uPath o1) q"
    by (cases rule: applyUpdateOperation_cases)
      (use that setPath_lookup(2) unsetPath_lookup(2) [OF assms(2)] in auto)
  from assms(1) show "value_wf (VObject e)"
    by (cases rule: applyUpdateOperation_cases)
      (use assms(2,3) set_parts_wf unset_parts_wf in \<open>auto simp: setPath_def unsetPath_def simp del: value_all_simps\<close>)
qed

definition compatible :: "updateOperation list \<Rightarrow> bool" where
  "compatible ops \<longleftrightarrow> sorted_wrt (\<lambda>p q. \<not> conflicting (uPath p) (uPath q)) ops \<and> (\<forall>p \<in> set ops. value_wf (uValue p))"

lemma apply_operations_effect:
  "apply_edits d ops = Inr e \<Longrightarrow> value_wf (VObject d) \<Longrightarrow> compatible ops \<Longrightarrow>
    (\<forall>p \<in> set ops. update_effect p (lookupInternal d (uPath p)) (lookupInternal e (uPath p))) \<and>
    (\<forall>q. (\<forall>p \<in> set ops. \<not> conflicting (uPath p) q) \<longrightarrow> lookupInternal e q = lookupInternal d q) \<and>
    value_wf (VObject e)"
proof (induction ops arbitrary: d)
  case (Cons o1 ops)
  obtain d' where d': "applyUpdateOperation d o1 = Inr d'" "apply_edits d' ops = Inr e"
    using Cons.prems(1) by auto
  have c: "compatible ops" "\<forall>p \<in> set ops. \<not> conflicting (uPath o1) (uPath p)" "value_wf (uValue o1)"
    using Cons.prems(3) by (auto simp: compatible_def)
  note first = applyUpdateOperation_effect [OF d'(1) Cons.prems(2) c(3)]
  note rest = Cons.IH [OF d'(2) first(3) c(1)]
  have "lookupInternal e (uPath o1) = lookupInternal d' (uPath o1)"
    using rest c(2) conflicting_sym by blast
  then show ?case
    using first rest c(2) by auto
qed simp

lemma not_conflicting_id:
  assumes "path \<noteq> field_id" "\<not> has_prefix path (field_id @ [0x2E])"
  shows "\<not> conflicting path field_id"
proof -
  have "\<not> has_prefix field_id (path @ [0x2E])"
  proof
    assume "has_prefix field_id (path @ [0x2E])"
    then have "0x2E \<in> set field_id" unfolding has_prefix_def by (metis in_set_takeD last_in_set last_snoc snoc_eq_iff_butlast)
    then show False by (simp add: field_id_def str_def)
  qed
  then show ?thesis using assms by (auto simp: conflicting_def)
qed

definition edits_ok :: "updateOperation list \<Rightarrow> bool" where
  "edits_ok ops \<longleftrightarrow> compatible ops \<and> (\<forall>p \<in> set ops. \<not> conflicting (uPath p) field_id)"

lemma compile_fields_ok:
  "compile_fields k m acc = Inr ops \<Longrightarrow> edits_ok acc \<Longrightarrow> \<forall>p \<in> set m. raw_wf (snd p) \<Longrightarrow> edits_ok ops"
proof (induction k m acc rule: compile_fields.induct)
  case (2 k path raw m acc)
  obtain v where v: "path \<noteq> field_id" "\<not> has_prefix path (field_id @ [0x2E])"
    "\<forall>p \<in> set acc. \<not> conflicting (uPath p) path"
    "(if k = ''unset'' then Inr VNull else with_error ErrInvalidUpdate (ValueOf raw)) = Inr v"
    "compile_fields k m (acc @ [\<lparr>uKind = k, uPath = path, uValue = v\<rparr>]) = Inr ops"
    "\<not> validatePath path \<noteq> Inr ()" "\<not> (k = ''inc'' \<and> kind v \<noteq> 2 \<and> kind v \<noteq> 3)"
    using "2.prems"(1) by (auto split: if_splits)
  have "value_wf v" using v(4) "2.prems"(3) ValueOf_wf(1) [of raw v] by (auto split: if_splits)
  then have "edits_ok (acc @ [\<lparr>uKind = k, uPath = path, uValue = v\<rparr>])"
    using "2.prems"(2) v(3) not_conflicting_id [OF v(1,2)]
    by (auto simp: edits_ok_def compatible_def sorted_wrt_append)
  then show ?case
    using "2.IH" [OF v(6) _ _ v(4,7,5)] v(1,2,3) "2.prems"(3) by auto
qed simp

lemma compile_operators_ok:
  "compile_operators m acc = Inr ops \<Longrightarrow> edits_ok acc \<Longrightarrow> \<forall>p \<in> set m. raw_wf (snd p) \<Longrightarrow> edits_ok ops"
proof (induction m acc rule: compile_operators.induct)
  case (2 op raw m acc)
  then obtain k flds acc' where k: "operator_kind op = Some k" "asStringAnyMap raw = Some flds"
    "compile_fields k flds acc = Inr acc'" "compile_operators m acc' = Inr ops" "flds \<noteq> []"
    by (auto split: option.splits if_splits)
  have "\<forall>p \<in> set flds. raw_wf (snd p)"
    using k(2) "2.prems"(3) by (auto simp: asStringAnyMap_def split: goany.splits)
  then show ?case
    using "2.IH" [OF k(1,2) _ k(3)] k compile_fields_ok [OF k(3) "2.prems"(2)] "2.prems"(3) 
    by (auto split: if_splits)
qed simp

section \<open>Arithmetic\<close>

text \<open>The exact value of a number, in units of the least float.\<close>

fun number_value :: "Value \<Rightarrow> int" where
  "number_value (VInt i) = int_val i"
| "number_value (VFloat f) = fval f"
| "number_value _ = 0"

lemma fval_bounded_finite:
  assumes "\<not> math_IsNaN f" "- (2 ^ 63 * int funit) \<le> fval f" "fval f \<le> 2 ^ 63 * int funit"
  shows "\<not> math_IsInf f"
proof
  assume "math_IsInf f"
  then have "fmag f = bits_mag inf_bits" by (simp add: fmag_def math_IsInf_def)
  moreover have "bits_mag (1086 * 2 ^ 52) < bits_mag inf_bits"
    by (subst bits_mag_less_iff) (simp_all add: inf_bits_def)
  ultimately have "2 ^ 63 * funit < fmag f" unfolding bits_mag_two63 by (simp only:)
  then have "2 ^ 63 * int funit < int (fmag f)" by (metis of_nat_less_iff of_nat_mult of_nat_numeral of_nat_power)
  then show False using assms(2,3) unfolding fval_def by (cases "float_neg f") simp_all
qed

lemma exactFloat64_value:
  assumes "exactFloat64 i = Some f"
  shows "fval f = int_val i \<and> \<not> math_IsNaN f \<and> \<not> math_IsInf f"
proof -
  have f: "f = float64_of_int64 i" "float_less f two63" "\<not> float_less f neg_two63" "int64_of_float64 f = i"
    using assms by (auto simp: exactFloat64_def Let_def split: if_splits)
  have nan: "\<not> math_IsNaN f" using f(1) float64_of_int64_facts(2) by simp
  have b: "- (2 ^ 63 * int funit) \<le> fval f" "fval f < 2 ^ 63 * int funit"
    using f(2,3) nan not_nan_two63 unfolding float_less_def fval_two63 by simp_all
  have dvd: "int funit dvd fval f" unfolding f(1) float64_of_int64_facts by (rule rnd_dvd) simp
  define k where "k = fval f div int funit"
  have k: "fval f = k * int funit" using dvd by (simp add: k_def)
  have "- (2 ^ 63) * int funit \<le> k * int funit" "k * int funit < 2 ^ 63 * int funit"
    using b unfolding k by (simp_all only: minus_mult_left)
  then have "- (2 ^ 63) \<le> k" "k < 2 ^ 63"
    using funit_pos(1) by (simp_all only: mult_le_cancel_right mult_less_cancel_right of_nat_0_less_iff)
  then have "sint (of_int k :: int64) = k" by (rule sint_of_int_range)
  moreover have "i = of_int k" using int64_of_float64_integral [OF dvd] f(4) by (simp add: k_def)
  ultimately have "fval f = int_val i" unfolding k by simp
  then show ?thesis using nan fval_bounded_finite [OF nan b(1)] b(2) by simp
qed

lemma sint_add_cases:
  fixes a b :: int64
  defines "s \<equiv> sint a + sint b"
  shows "sint (a + b) = (if s < - (2 ^ 63) then s + 2 ^ 64 else if s < 2 ^ 63 then s else s - 2 ^ 64)"
proof -
  have r: "- (2 ^ 63) \<le> sint a" "sint a < 2 ^ 63" "- (2 ^ 63) \<le> sint b" "sint b < 2 ^ 63"
    using sint_greater_eq [of a] sint_less [of a] sint_greater_eq [of b] sint_less [of b] by simp_all
  have e: "sint (a + b) = (s + 2 ^ 63) mod 2 ^ 64 - 2 ^ 63"
    by (simp add: s_def signed_take_bit_eq_take_bit_shift take_bit_eq_mod sint_word_ariths)
  consider "s < - (2 ^ 63)" | "- (2 ^ 63) \<le> s" "s < 2 ^ 63" | "2 ^ 63 \<le> s" by linarith
  then show ?thesis
  proof cases
    case 1
    then have "(s + 2 ^ 63 + 2 ^ 64) mod 2 ^ 64 = s + 2 ^ 63 + 2 ^ 64"
      using r unfolding s_def by (intro mod_pos_pos_trivial) simp_all
    then have "(s + 2 ^ 63) mod 2 ^ 64 = s + 2 ^ 63 + 2 ^ 64" by (metis mod_add_self2)
    then show ?thesis using 1 e by simp
  next
    case 2
    then have "(s + 2 ^ 63) mod 2 ^ 64 = s + 2 ^ 63" by (intro mod_pos_pos_trivial) simp_all
    then show ?thesis using 2 e by simp
  next
    case 3
    then have "(s + 2 ^ 63 - 2 ^ 64) mod 2 ^ 64 = s + 2 ^ 63 - 2 ^ 64"
      using r unfolding s_def by (intro mod_pos_pos_trivial) simp_all
    then have "(s + 2 ^ 63) mod 2 ^ 64 = s + 2 ^ 63 - 2 ^ 64" by (metis minus_mod_self2)
    then show ?thesis using 3 e by simp
  qed
qed

lemma addInt_range:
  fixes a b :: int64
  shows "(0 <s b \<and> a + b <s a \<or> b <s 0 \<and> a <s a + b) \<longleftrightarrow> \<not> (- (2 ^ 63) \<le> sint a + sint b \<and> sint a + sint b < 2 ^ 63)"
proof -
  have "- (2 ^ 63) \<le> sint a" "sint a < 2 ^ 63" "- (2 ^ 63) \<le> sint b" "sint b < 2 ^ 63"
    using sint_greater_eq [of a] sint_less [of a] sint_greater_eq [of b] sint_less [of b] by simp_all
  then show ?thesis unfolding word_sless_alt sint_add_cases by auto
qed

section \<open>Properties\<close>

text \<open>
  C10 A compiled update does to each of its paths what its operator says, and nothing else.
  For an update that compiles, applied without error to a well-formed document: at the path of every edit
  the new value is the one the operator defines from the old value; a path in conflict with no edit keeps
  its value, so does the document's \<open>_id\<close>; the result is well formed and valid. The order of the edits
  does not matter, since compilation rejects overlapping paths.
\<close>

theorem update_effects:
  assumes "CompileUpdate update = Inr m" "\<forall>p \<in> set update. raw_wf (snd p)"
    and "value_wf (VObject d)" "Apply m d = Inr e"
  shows "(\<forall>p \<in> set (operations m). update_effect p (lookupInternal d (uPath p)) (lookupInternal e (uPath p))) \<and>
    (\<forall>q. (\<forall>p \<in> set (operations m). \<not> conflicting (uPath p) q) \<longrightarrow> lookupInternal e q = lookupInternal d q) \<and>
    Document_ID e = Document_ID d \<and> value_wf (VObject e) \<and> Validate e = Inr ()"
proof -
  have "edits_ok (operations m)"
    using assms(1,2) compile_operators_ok [of update "[]" "operations m"]
    by (auto simp: CompileUpdate_def edits_ok_def compatible_def split: if_splits)
  then have ok: "compatible (operations m)" "\<forall>p \<in> set (operations m). \<not> conflicting (uPath p) field_id"
    by (simp_all add: edits_ok_def)
  have a: "apply_edits d (operations m) = Inr e" "Validate e = Inr ()"
    using assms(4) by (auto simp: Apply_def split: if_splits)
  note eff = apply_operations_effect [OF a(1) assms(3) ok(1)]
  have "split_dot field_id = [field_id]" by (simp add: field_id_def str_def)
  then have "map_of x field_id = lookupInternal x field_id" for x
    by (simp add: lookupInternal_def lookup_parts.simps split: option.splits)
  then have "Document_ID e = Document_ID d"
    using eff ok(2) unfolding Document_ID_def by metis
  then show ?thesis using eff a(2) by blast
qed

theorem update_effects_witness:
  "\<exists>m e. CompileUpdate [(str ''$set'', AMap [(str ''a'', AInt 3)])] = Inr m \<and>
     Apply m [(str ''a'', VInt 1)] = Inr e \<and> lookupInternal e (str ''a'') = Some (VInt 3)"
proof -
  let ?m = "\<lparr>operations = [\<lparr>uKind = ''set'', uPath = str ''a'', uValue = VInt 3\<rparr>]\<rparr>"
  have a: "str ''a'' = [97]" "validField [97]" "split_dot [97] = [[97]]" "[97] \<noteq> field_id" "length field_id = 3"
    by (simp_all add: str_def validField_def field_id_def)
  have c: "CompileUpdate [(str ''$set'', AMap [(str ''a'', AInt 3)])] = Inr ?m"
    using a by (simp add: CompileUpdate_def operator_kind_def asStringAnyMap_def validatePath_def ValueOf.simps
        has_prefix_def str_def)
  have p: "Apply ?m [(str ''a'', VInt 1)] = Inr [([97], VInt 3)]"
    using a by (simp add: Apply_def applyUpdateOperation_def setPath_def Validate_def validateDocument_def
        validateNested.simps)
  show ?thesis
    using update_effects [OF c _ _ p] c p by (auto simp: update_effect_def)
qed

lemma prepare_updates_list:
  "prepare_updates m ds changes r = Inr (changes', r') \<Longrightarrow>
    (\<forall>d \<in> set ds. \<exists>e. Apply m d = Inr e) \<and>
    changes' = changes @ map (\<lambda>d. \<lparr>pid = the (Document_ID d), before = d, after = projr (Apply m d)\<rparr>)
      (filter (\<lambda>d. \<not> Document_Equal (projr (Apply m d)) d) ds) \<and>
    r' = r\<lparr>ModifiedCount := ModifiedCount r + int (length changes') - int (length changes)\<rparr>"
proof (induction ds arbitrary: changes r)
  case (Cons d ds)
  then obtain i e where d: "Document_ID d = Some i" "Apply m d = Inr e"
    by (auto split: option.splits)
  show ?case
  proof (cases "Document_Equal e d")
    case True
    then show ?thesis using Cons.IH [of changes r] Cons.prems d by simp
  next
    case False
    then show ?thesis
      using Cons.IH [of "changes @ [\<lparr>pid = i, before = d, after = e\<rparr>]" "r\<lparr>ModifiedCount := ModifiedCount r + 1\<rparr>"]
        Cons.prems d by simp
  qed
qed simp

text \<open>
  C29 Preparation of a batch applies the update to every selected document, in order,
  or fails as a whole. The pending changes are exactly the documents whose contents change, each with its
  ID and its old and new contents, and the counts are the selected and the changed documents.
\<close>

theorem prepare_updates_exact:
  assumes "prepareDocumentUpdates ds m = Inr (changes, r)"
  shows "(\<forall>d \<in> set ds. \<exists>e. Apply m d = Inr e) \<and>
    changes = map (\<lambda>d. \<lparr>pid = the (Document_ID d), before = d, after = projr (Apply m d)\<rparr>)
      (filter (\<lambda>d. \<not> Document_Equal (projr (Apply m d)) d) ds) \<and>
    r = \<lparr>MatchedCount = int (length ds), ModifiedCount = int (length changes)\<rparr>"
  using prepare_updates_list [OF assms [unfolded prepareDocumentUpdates_def]] by simp

theorem prepare_updates_exact_witness:
  "prepareDocumentUpdates [] \<lparr>operations = []\<rparr> = Inr ([], \<lparr>MatchedCount = 0, ModifiedCount = 0\<rparr>) \<and>
   (\<exists>changes r. prepareDocumentUpdates [[(str ''_id'', VID (replicate 16 1)), (str ''a'', VInt 1)]]
      \<lparr>operations = [\<lparr>uKind = ''unset'', uPath = str ''a'', uValue = VNull\<rparr>]\<rparr> = Inr (changes, r) \<and>
      MatchedCount r = 1 \<and> length changes = 1)"
proof -
  let ?m = "\<lparr>operations = [\<lparr>uKind = ''unset'', uPath = str ''a'', uValue = VNull\<rparr>]\<rparr>"
  let ?d = "[(str ''_id'', VID (replicate 16 1)), (str ''a'', VInt 1)]"
  have a: "str ''a'' = [97]" "split_dot [97] = [[97]]" "str ''_id'' = [95, 105, 100]" "validField [95, 105, 100]"
    by (simp_all add: str_def validField_def)
  have p: "Apply ?m ?d = Inr [([95, 105, 100], VID (replicate 16 1))]"
    using a by (simp add: Apply_def applyUpdateOperation_def unsetPath_def Validate_def validateDocument_def
        validateNested.simps)
  have d: "Document_ID ?d = Some (replicate 16 1)"
    using a by (simp add: Document_ID_def field_id_def)
  obtain changes r where pr: "prepareDocumentUpdates [?d] ?m = Inr (changes, r)"
    using p d by (simp add: prepareDocumentUpdates_def Document_Equal_def)
  have "MatchedCount r = 1 \<and> length changes = 1"
    using prepare_updates_exact [OF pr] p by (simp add: Document_Equal_def)
  then show ?thesis using pr by (auto simp: prepareDocumentUpdates_def)
qed

text \<open>
  C30 Increments never wrap and never lose integer precision. Two integers give their exact
  sum when it fits into 64 bits and \<open>ErrInvalidUpdate\<close> otherwise; with a float involved, a result is the
  finite float nearest to the exact sum of the operands.
\<close>

theorem addNumbers_exact:
  "(addNumbers (VInt a) (VInt b) =
     (if - (2 ^ 63) \<le> sint a + sint b \<and> sint a + sint b < 2 ^ 63 then Inr (VInt (of_int (sint a + sint b)))
      else Inl ErrInvalidUpdate)) \<and>
   (addNumbers v w = Inr (VFloat s) \<longrightarrow> nan_free v \<longrightarrow> nan_free w \<longrightarrow> kind w \<in> {2, 3} \<longrightarrow>
      \<not> (\<exists>x. v = VFloat x \<and> math_IsInf x \<or> w = VFloat x \<and> math_IsInf x) \<longrightarrow>
      float_finite s \<and> fval s = rnd (number_value v + number_value w))"
proof
  show "addNumbers (VInt a) (VInt b) =
     (if - (2 ^ 63) \<le> sint a + sint b \<and> sint a + sint b < 2 ^ 63 then Inr (VInt (of_int (sint a + sint b)))
      else Inl ErrInvalidUpdate)"
    using addInt_range [of b a] by (simp add: addNumbers_def Let_def)
next
  have fin: "fval (float_add x y) = rnd (fval x + fval y)" if "float_finite x" "float_finite y" for x y
    using that by (simp add: float_add_def)
  show "addNumbers v w = Inr (VFloat s) \<longrightarrow> nan_free v \<longrightarrow> nan_free w \<longrightarrow> kind w \<in> {2, 3} \<longrightarrow>
      \<not> (\<exists>x. v = VFloat x \<and> math_IsInf x \<or> w = VFloat x \<and> math_IsInf x) \<longrightarrow>
      float_finite s \<and> fval s = rnd (number_value v + number_value w)"
    by (cases v; cases w)
      (auto simp: addNumbers_def number_operand_def Let_def fin split: if_splits option.splits
        dest!: exactFloat64_value)
qed

theorem addNumbers_exact_witness:
  "addNumbers (VInt 0x7FFFFFFFFFFFFFFF) (VInt 1) = Inl ErrInvalidUpdate \<and>
   addNumbers (VFloat 0) (VFloat 0) = Inr (VFloat 0) \<and> fval 0 = rnd 0"
proof -
  have z: "float_finite 0" "fval 0 = 0" "round_int False 0 = 0"
    by (simp_all add: math_IsNaN_def math_IsInf_def float_abs_bits_def inf_bits_def fval_def fmag_def
        round_int_def float_bits_def)
  then have s: "addNumbers (VFloat 0) (VFloat 0) = Inr (VFloat 0)"
    by (simp add: addNumbers_def number_operand_def Let_def float_add_def float_neg_def)
  have "sint (0x7FFFFFFFFFFFFFFF :: int64) = 0x7FFFFFFFFFFFFFFF" by simp
  then show ?thesis
    using addNumbers_exact [of "0x7FFFFFFFFFFFFFFF" 1 "VFloat 0" "VFloat 0" 0] s z by simp
qed

end
