(* ===== verification/Heap_Order.thy ===== *)
theory Heap_Order
  imports Meld_Prelude "HOL-Library.Multiset"
begin

text \<open>
  The binary heap of Go's \<open>container/heap\<close> on a slice, as \<open>internal/database/query_results.go\<close> uses it:
  \<open>up\<close>, \<open>down\<close>, \<open>heap.Push\<close> and \<open>heap.Fix\<close> over a \<open>Less\<close> on elements, and the sort of \<open>sort.SliceStable\<close>.

  The interface is the locale \<open>heap_order\<close>: a three-way comparison that is a total preorder on a carrier.
  The heap property and the order of the sorted slice are proved once in the locale.
\<close>

section \<open>The slice operations\<close>

definition swap :: "'a list \<Rightarrow> nat \<Rightarrow> nat \<Rightarrow> 'a list" where
  "swap xs i j = xs[i := xs ! j, j := xs ! i]"

function heap_up :: "('a \<Rightarrow> 'a \<Rightarrow> bool) \<Rightarrow> 'a list \<Rightarrow> nat \<Rightarrow> 'a list" where
  "heap_up lt xs j =
     (let i = (j - 1) div 2
      in if i = j \<or> \<not> lt (xs ! j) (xs ! i) then xs else heap_up lt (swap xs i j) i)"
  by pat_completeness auto
termination
  by (relation "measure (\<lambda>(lt, xs, j). j)") auto

function heap_down :: "('a \<Rightarrow> 'a \<Rightarrow> bool) \<Rightarrow> 'a list \<Rightarrow> nat \<Rightarrow> nat \<Rightarrow> 'a list \<times> nat" where
  "heap_down lt xs i n =
     (let j1 = 2 * i + 1
      in if n \<le> j1 then (xs, i)
         else
           let j2 = j1 + 1;
               j = (if j2 < n \<and> lt (xs ! j2) (xs ! j1) then j2 else j1)
           in if \<not> lt (xs ! j) (xs ! i) then (xs, i) else heap_down lt (swap xs i j) j n)"
  by pat_completeness auto
termination
  by (relation "measure (\<lambda>(lt, xs, i, n). n - i)") (auto simp: Let_def split: if_splits)

definition heap_Push :: "('a \<Rightarrow> 'a \<Rightarrow> bool) \<Rightarrow> 'a \<Rightarrow> 'a list \<Rightarrow> 'a list" where
  "heap_Push lt x xs = heap_up lt (xs @ [x]) (length xs)"

definition heap_Fix :: "('a \<Rightarrow> 'a \<Rightarrow> bool) \<Rightarrow> 'a list \<Rightarrow> nat \<Rightarrow> 'a list" where
  "heap_Fix lt xs i =
     (case heap_down lt xs i (length xs) of (ys, i') \<Rightarrow> if i < i' then ys else heap_up lt ys i)"

declare heap_up.simps [simp del] heap_down.simps [simp del]

fun insert_stable :: "('a \<Rightarrow> 'a \<Rightarrow> bool) \<Rightarrow> 'a \<Rightarrow> 'a list \<Rightarrow> 'a list" where
  "insert_stable lt x [] = [x]"
| "insert_stable lt x (y # ys) = (if lt y x then y # insert_stable lt x ys else x # y # ys)"

definition sort_SliceStable :: "('a \<Rightarrow> 'a \<Rightarrow> bool) \<Rightarrow> 'a list \<Rightarrow> 'a list" where
  "sort_SliceStable lt xs = foldr (insert_stable lt) xs []"

section \<open>Elements are kept\<close>

lemma length_swap [simp]: "length (swap xs i j) = length xs"
  by (simp add: swap_def)

lemma nth_swap:
  "i < length xs \<Longrightarrow> j < length xs \<Longrightarrow> k < length xs \<Longrightarrow>
    swap xs i j ! k = (if k = j then xs ! i else if k = i then xs ! j else xs ! k)"
  by (simp add: swap_def nth_list_update)

lemma mset_swap [simp]: "i < length xs \<Longrightarrow> j < length xs \<Longrightarrow> mset (swap xs i j) = mset xs"
  unfolding swap_def by (rule mset_swap)

lemma set_swap [simp]: "i < length xs \<Longrightarrow> j < length xs \<Longrightarrow> set (swap xs i j) = set xs"
  by (metis mset_swap mset_eq_setD)

lemma mset_heap_up: "j < length xs \<Longrightarrow> mset (heap_up lt xs j) = mset xs"
proof (induction lt xs j rule: heap_up.induct)
  case (1 lt xs j)
  show ?case
    unfolding heap_up.simps [of lt xs j] using 1 by (auto simp: Let_def)
qed

lemma mset_heap_down:
  "i < n \<Longrightarrow> n \<le> length xs \<Longrightarrow> mset (fst (heap_down lt xs i n)) = mset xs"
proof (induction lt xs i n rule: heap_down.induct)
  case (1 lt xs i n)
  show ?case
    unfolding heap_down.simps [of lt xs i n] using 1 by (auto simp: Let_def)
qed

lemma heap_up_0: "heap_up lt xs 0 = xs"
  by (simp add: heap_up.simps)

lemma mset_heap_Push: "mset (heap_Push lt x xs) = add_mset x (mset xs)"
  by (simp add: heap_Push_def mset_heap_up)

lemma heap_down_index: "i \<le> snd (heap_down lt xs i n)"
proof (induction lt xs i n rule: heap_down.induct)
  case (1 lt xs i n)
  show ?case
    unfolding heap_down.simps [of lt xs i n] using 1 by (force simp: Let_def)
qed

lemma heap_Fix_0: "heap_Fix lt xs 0 = fst (heap_down lt xs 0 (length xs))"
  by (auto simp: heap_Fix_def heap_up_0 split: prod.splits)

lemma mset_heap_Fix_0: "xs \<noteq> [] \<Longrightarrow> mset (heap_Fix lt xs 0) = mset xs"
  by (simp add: heap_Fix_0 mset_heap_down)

lemma mset_insert_stable [simp]: "mset (insert_stable lt x xs) = add_mset x (mset xs)"
  by (induction xs) auto

lemma mset_sort_SliceStable [simp]: "mset (sort_SliceStable lt xs) = mset xs"
  unfolding sort_SliceStable_def by (induction xs) auto

section \<open>Heaps and sorted slices over a comparison\<close>

locale heap_order =
  fixes cmp :: "'a \<Rightarrow> 'a \<Rightarrow> int"
    and carrier :: "'a set"
  assumes cmp_flip: "a \<in> carrier \<Longrightarrow> b \<in> carrier \<Longrightarrow> cmp b a = - cmp a b"
    and cmp_trans: "a \<in> carrier \<Longrightarrow> b \<in> carrier \<Longrightarrow> c \<in> carrier \<Longrightarrow> cmp a b \<le> 0 \<Longrightarrow> cmp b c \<le> 0 \<Longrightarrow> cmp a c \<le> 0"
begin

text \<open>\<open>worse a b\<close>: \<open>a\<close> is kept nearer the root than \<open>b\<close>.\<close>

definition worse :: "'a \<Rightarrow> 'a \<Rightarrow> bool" where
  "worse a b \<longleftrightarrow> 0 < cmp a b"

definition heap_at :: "'a list \<Rightarrow> nat \<Rightarrow> bool" where
  "heap_at xs k \<longleftrightarrow> (0 < k \<longrightarrow> cmp (xs ! k) (xs ! ((k - 1) div 2)) \<le> 0)"

definition heap :: "'a list \<Rightarrow> bool" where
  "heap xs \<longleftrightarrow> (\<forall>k < length xs. heap_at xs k)"

definition up_ready :: "'a list \<Rightarrow> nat \<Rightarrow> bool" where
  "up_ready xs j \<longleftrightarrow>
     (\<forall>k < length xs. k \<noteq> j \<longrightarrow> heap_at xs k) \<and>
     (\<forall>k < length xs. 0 < k \<longrightarrow> (k - 1) div 2 = j \<longrightarrow> 0 < j \<longrightarrow> cmp (xs ! k) (xs ! ((j - 1) div 2)) \<le> 0)"

definition down_ready :: "'a list \<Rightarrow> nat \<Rightarrow> bool" where
  "down_ready xs i \<longleftrightarrow>
     (\<forall>k < length xs. (k - 1) div 2 \<noteq> i \<or> k = 0 \<longrightarrow> heap_at xs k) \<and>
     (\<forall>k < length xs. 0 < k \<longrightarrow> (k - 1) div 2 = i \<longrightarrow> 0 < i \<longrightarrow> cmp (xs ! k) (xs ! ((i - 1) div 2)) \<le> 0)"

lemma cmp_nth_trans:
  "set xs \<subseteq> carrier \<Longrightarrow> a < length xs \<Longrightarrow> b < length xs \<Longrightarrow> c < length xs \<Longrightarrow>
    cmp (xs ! a) (xs ! b) \<le> 0 \<Longrightarrow> cmp (xs ! b) (xs ! c) \<le> 0 \<Longrightarrow> cmp (xs ! a) (xs ! c) \<le> 0"
  using cmp_trans [of "xs ! a" "xs ! b" "xs ! c"] by (meson nth_mem subsetD)

lemma worse_flip:
  "set xs \<subseteq> carrier \<Longrightarrow> a < length xs \<Longrightarrow> b < length xs \<Longrightarrow> worse (xs ! a) (xs ! b) \<Longrightarrow> cmp (xs ! b) (xs ! a) \<le> 0"
  using cmp_flip [of "xs ! a" "xs ! b"] unfolding worse_def by (metis nth_mem subsetD neg_le_0_iff_le less_imp_le)

lemma up_ready_step:
  assumes "set xs \<subseteq> carrier" "up_ready xs j" "j < length xs" "0 < j" "worse (xs ! j) (xs ! ((j - 1) div 2))"
  shows "up_ready (swap xs ((j - 1) div 2) j) ((j - 1) div 2)"
proof -
  define i where "i = (j - 1) div 2"
  have i: "i < j" "i < length xs" using assms(3,4) by (auto simp: i_def)
  have ij: "cmp (xs ! i) (xs ! j) \<le> 0"
    using worse_flip [OF assms(1,3) i(2)] assms(5) by (simp add: i_def)
  have ready: "\<And>k. k < length xs \<Longrightarrow> k \<noteq> j \<Longrightarrow> heap_at xs k"
    "\<And>k. k < length xs \<Longrightarrow> 0 < k \<Longrightarrow> (k - 1) div 2 = j \<Longrightarrow> cmp (xs ! k) (xs ! i) \<le> 0"
    using assms(2,4) by (auto simp: up_ready_def i_def)
  have up_i: "cmp (xs ! i) (xs ! ((i - 1) div 2)) \<le> 0" if "0 < i"
    using ready(1) [of i] i that by (simp add: heap_at_def)
  have sib: "cmp (xs ! k) (xs ! i) \<le> 0" if "k < length xs" "k \<noteq> j" "0 < k" "(k - 1) div 2 = i" for k
    using ready(1) [of k] that by (simp add: heap_at_def)
  let ?ys = "swap xs i j"
  have nth: "?ys ! k = (if k = j then xs ! i else if k = i then xs ! j else xs ! k)" if "k < length xs" for k
    using nth_swap i assms(3) that by metis
  have a: "heap_at ?ys k" if k: "k < length xs" "k \<noteq> i" for k
  proof (cases "0 < k")
    case True
    have p: "(k - 1) div 2 < length xs" using k True by simp
    show ?thesis
      using k True p ij ready(1) [of k] ready(2) [of k] sib [of k] i
        cmp_nth_trans [OF assms(1) k(1) i(2) assms(3) sib ij]
      unfolding heap_at_def nth [OF k(1)] nth [OF p] by (auto simp: i_def)
  qed (simp add: heap_at_def)
  have b: "cmp (?ys ! k) (?ys ! ((i - 1) div 2)) \<le> 0"
    if k: "k < length xs" "0 < k" "(k - 1) div 2 = i" "0 < i" for k
  proof -
    have p: "(i - 1) div 2 < length xs" "(i - 1) div 2 < i" using i k by auto
    show ?thesis
    proof (cases "k = j")
      case True
      then show ?thesis using up_i k p i unfolding nth [OF k(1)] nth [OF p(1)] by auto
    next
      case False
      then have "cmp (xs ! k) (xs ! ((i - 1) div 2)) \<le> 0"
        using cmp_nth_trans [OF assms(1) k(1) i(2) p(1) sib up_i] k by simp
      moreover have "k \<noteq> i" using k by auto
      ultimately show ?thesis using False p i unfolding nth [OF k(1)] nth [OF p(1)] by auto
    qed
  qed
  show ?thesis using a b unfolding up_ready_def i_def by simp
qed

lemma heap_up_heap:
  "set xs \<subseteq> carrier \<Longrightarrow> up_ready xs j \<Longrightarrow> j < length xs \<Longrightarrow> heap (heap_up worse xs j)"
proof (induction j arbitrary: xs rule: less_induct)
  case (less j)
  show ?case
  proof (cases "0 < j \<and> worse (xs ! j) (xs ! ((j - 1) div 2))")
    case True
    let ?i = "(j - 1) div 2"
    have i: "?i < j" "?i \<noteq> j" "?i < length xs" using True less.prems by auto
    have "set (swap xs ?i j) = set xs" using i less.prems by (intro set_swap)
    then have "heap (heap_up worse (swap xs ?i j) ?i)"
      using less.IH [OF i(1)] up_ready_step [OF less.prems] True less.prems i by simp
    then show ?thesis unfolding heap_up.simps [of worse xs j] using True i by (simp add: Let_def)
  next
    case False
    then have "heap_up worse xs j = xs" unfolding heap_up.simps [of worse xs j] by (auto simp: Let_def)
    moreover have "heap_at xs j" using False by (auto simp: heap_at_def worse_def)
    ultimately show ?thesis using less.prems by (auto simp: heap_def up_ready_def)
  qed
qed

lemma heap_Push_heap:
  assumes "set xs \<subseteq> carrier" "x \<in> carrier" "heap xs"
  shows "heap (heap_Push worse x xs)"
proof -
  have "up_ready (xs @ [x]) (length xs)"
    using assms(3) by (auto simp: up_ready_def heap_def heap_at_def nth_append)
  then show ?thesis using assms(1,2) by (simp add: heap_Push_def heap_up_heap)
qed

lemma down_ready_step:
  assumes "set xs \<subseteq> carrier" "down_ready xs i" "j < length xs" "0 < j" "(j - 1) div 2 = i"
    and "worse (xs ! j) (xs ! i)"
    and "\<And>k. k < length xs \<Longrightarrow> 0 < k \<Longrightarrow> (k - 1) div 2 = i \<Longrightarrow> cmp (xs ! k) (xs ! j) \<le> 0"
  shows "down_ready (swap xs i j) j"
proof -
  have i: "i < j" "i < length xs" using assms(3,4,5) by auto
  have ij: "cmp (xs ! i) (xs ! j) \<le> 0" using worse_flip [OF assms(1,3) i(2) assms(6)] .
  have ready: "\<And>k. k < length xs \<Longrightarrow> (k - 1) div 2 \<noteq> i \<Longrightarrow> heap_at xs k"
    "\<And>k. k < length xs \<Longrightarrow> 0 < k \<Longrightarrow> (k - 1) div 2 = i \<Longrightarrow> 0 < i \<Longrightarrow> cmp (xs ! k) (xs ! ((i - 1) div 2)) \<le> 0"
    using assms(2) by (auto simp: down_ready_def)
  let ?ys = "swap xs i j"
  have nth: "?ys ! k = (if k = j then xs ! i else if k = i then xs ! j else xs ! k)" if "k < length xs" for k
    using nth_swap i assms(3) that by metis
  have a: "heap_at ?ys k" if k: "k < length xs" "(k - 1) div 2 \<noteq> j \<or> k = 0" for k
  proof (cases "0 < k")
    case True
    have p: "(k - 1) div 2 < length xs" using k True by simp
    have up: "cmp (xs ! j) (xs ! ((i - 1) div 2)) \<le> 0" if "k = i"
      using ready(2) [of j] assms(3,4,5) True that by simp
    have *: "cmp (xs ! k) (xs ! ((k - 1) div 2)) \<le> 0" if "(k - 1) div 2 \<noteq> i"
      using ready(1) [of k] k True that by (simp add: heap_at_def)
    have "(k - 1) div 2 < k" using True by auto
    then show ?thesis
      using k True p ij assms(5) assms(7) [of k] up *
      unfolding heap_at_def nth [OF k(1)] nth [OF p] by auto
  qed (simp add: heap_at_def)
  have b: "cmp (?ys ! k) (?ys ! ((j - 1) div 2)) \<le> 0"
    if k: "k < length xs" "0 < k" "(k - 1) div 2 = j" for k
  proof -
    have "k \<noteq> j" "k \<noteq> i" "i \<noteq> j" using k i by auto
    moreover have "cmp (xs ! k) (xs ! j) \<le> 0"
      using ready(1) [of k] k i by (simp add: heap_at_def)
    ultimately show ?thesis unfolding assms(5) nth [OF k(1)] nth [OF i(2)] by simp
  qed
  show ?thesis using a b unfolding down_ready_def by simp
qed

lemma heap_child: "0 < k \<Longrightarrow> (k - 1) div 2 = i \<longleftrightarrow> k = 2 * i + 1 \<or> k = 2 * i + (2 :: nat)"
  by auto

lemma heap_down_heap:
  "set xs \<subseteq> carrier \<Longrightarrow> down_ready xs i \<Longrightarrow> i < length xs \<Longrightarrow> heap (fst (heap_down worse xs i (length xs)))"
proof (induction "length xs - i" arbitrary: xs i rule: less_induct)
  case less
  define j where
    "j = (if 2 * i + 2 < length xs \<and> worse (xs ! (2 * i + 2)) (xs ! (2 * i + 1)) then 2 * i + 2 else 2 * i + 1)"
  have eq: "heap_down worse xs i (length xs) =
      (if length xs \<le> 2 * i + 1 \<or> \<not> worse (xs ! j) (xs ! i) then (xs, i)
       else heap_down worse (swap xs i j) j (length xs))"
    unfolding heap_down.simps [of worse xs i] by (simp add: Let_def j_def)
  have j: "0 < j" "(j - 1) div 2 = i" by (auto simp: j_def)
  have best: "cmp (xs ! k) (xs ! j) \<le> 0"
    if k: "k < length xs" "0 < k" "(k - 1) div 2 = i" for k
  proof -
    have r: "cmp (xs ! k) (xs ! k) \<le> 0"
      using cmp_flip [of "xs ! k" "xs ! k"] k less.prems(1) by (metis nth_mem subsetD minus_equation_iff neg_equal_zero order_refl)
    have lt: "2 * i + 1 < length xs" using k heap_child [OF k(2)] by auto
    show ?thesis
      using k(1,3) r lt worse_flip [OF less.prems(1), of "2 * i + 2" "2 * i + 1"]
      unfolding heap_child [OF k(2)] by (auto simp: j_def worse_def)
  qed
  show ?case
  proof (cases "length xs \<le> 2 * i + 1 \<or> \<not> worse (xs ! j) (xs ! i)")
    case True
    have "cmp (xs ! k) (xs ! i) \<le> 0" if k: "k < length xs" "0 < k" "(k - 1) div 2 = i" for k
    proof -
      have jl: "2 * i + 1 < length xs" using k heap_child [OF k(2)] by auto
      then have jx: "j < length xs" by (auto simp: j_def)
      have "cmp (xs ! j) (xs ! i) \<le> 0" using True jl by (auto simp: worse_def)
      with cmp_nth_trans [OF less.prems(1) k(1) jx less.prems(3)] best [OF k] show ?thesis by blast
    qed
    then have "heap_at xs k" if "k < length xs" for k
      using less.prems(2) that by (cases "(k - 1) div 2 = i") (auto simp: down_ready_def heap_at_def)
    then show ?thesis using True eq by (simp add: heap_def)
  next
    case False
    then have jx: "j < length xs" by (auto simp: j_def)
    have ij: "i < j" by (auto simp: j_def)
    have "set (swap xs i j) = set xs" using jx less.prems(3) by (intro set_swap)
    moreover have "down_ready (swap xs i j) j"
      using down_ready_step [OF less.prems(1,2) jx j _ best] False by blast
    ultimately have "heap (fst (heap_down worse (swap xs i j) j (length (swap xs i j))))"
      using less.hyps [of "swap xs i j" j] less.prems(1) jx ij by simp
    then show ?thesis using False eq by simp
  qed
qed

lemma heap_Fix_heap:
  assumes "set xs \<subseteq> carrier" "x \<in> carrier" "heap xs" "xs \<noteq> []"
  shows "heap (heap_Fix worse (xs[0 := x]) 0)"
proof -
  have "down_ready (xs[0 := x]) 0"
    using assms(3) by (auto simp: down_ready_def heap_def heap_at_def nth_list_update)
  moreover have "set (xs[0 := x]) \<subseteq> carrier" using assms(1,2) set_update_subset_insert [of xs 0 x] by blast
  ultimately show ?thesis using assms(4) heap_down_heap [of "xs[0 := x]" 0] by (simp add: heap_Fix_0)
qed

lemma heap_root:
  assumes "set xs \<subseteq> carrier" "heap xs" "k < length xs"
  shows "cmp (xs ! k) (xs ! 0) \<le> 0"
  using assms(3)
proof (induction k rule: less_induct)
  case (less k)
  show ?case
  proof (cases "k = 0")
    case True
    then show ?thesis
      using cmp_flip [of "xs ! 0" "xs ! 0"] less.prems assms(1)
      by (metis nth_mem subsetD minus_equation_iff neg_equal_zero order_refl)
  next
    case False
    let ?p = "(k - 1) div 2"
    have p: "?p < k" "?p < length xs" "0 < length xs" using False less.prems by auto
    have "cmp (xs ! k) (xs ! ?p) \<le> 0" using assms(2) less.prems False by (simp add: heap_def heap_at_def)
    then show ?thesis using cmp_nth_trans [OF assms(1) less.prems p(2,3)] less.IH [OF p(1,2)] by blast
  qed
qed

lemma heap_root_member: "set xs \<subseteq> carrier \<Longrightarrow> heap xs \<Longrightarrow> y \<in> set xs \<Longrightarrow> cmp y (xs ! 0) \<le> 0"
  using heap_root [of xs] by (metis in_set_conv_nth)

lemma insert_stable_sorted:
  assumes "set xs \<subseteq> carrier" "x \<in> carrier" "sorted_wrt (\<lambda>a b. cmp a b \<le> 0) xs"
  shows "sorted_wrt (\<lambda>a b. cmp a b \<le> 0) (insert_stable (\<lambda>a b. cmp a b < 0) x xs)"
  using assms
proof (induction xs)
  case (Cons y ys)
  have set: "set (insert_stable (\<lambda>a b. cmp a b < 0) x ys) = insert x (set ys)"
    using mset_eq_setD [of "insert_stable (\<lambda>a b. cmp a b < 0) x ys" "x # ys"] by simp
  show ?case
  proof (cases "cmp y x < 0")
    case True
    then show ?thesis using Cons set by auto
  next
    case False
    then have "cmp x y \<le> 0" using cmp_flip [of y x] Cons.prems by auto
    moreover from this have "cmp x z \<le> 0" if "z \<in> set ys" for z
      using cmp_trans [of x y z] Cons.prems that by auto
    ultimately show ?thesis using False Cons.prems by auto
  qed
qed simp

lemma sort_SliceStable_sorted:
  "set xs \<subseteq> carrier \<Longrightarrow> sorted_wrt (\<lambda>a b. cmp a b \<le> 0) (sort_SliceStable (\<lambda>a b. cmp a b < 0) xs)"
proof (induction xs)
  case (Cons x xs)
  have "set (sort_SliceStable (\<lambda>a b. cmp a b < 0) xs) = set xs"
    using mset_eq_setD [OF mset_sort_SliceStable] .
  then show ?case
    using insert_stable_sorted [of "sort_SliceStable (\<lambda>a b. cmp a b < 0) xs" x] Cons
    by (simp add: sort_SliceStable_def)
qed (simp add: sort_SliceStable_def)

lemma insert_stable_front:
  "x \<in> carrier \<Longrightarrow> set xs \<subseteq> carrier \<Longrightarrow> \<forall>y \<in> set xs. cmp x y \<le> 0 \<Longrightarrow>
    insert_stable (\<lambda>a b. cmp a b < 0) x xs = x # xs"
  using cmp_flip [of x "hd xs"] by (cases xs) auto

lemma sort_SliceStable_id:
  "set xs \<subseteq> carrier \<Longrightarrow> sorted_wrt (\<lambda>a b. cmp a b \<le> 0) xs \<Longrightarrow> sort_SliceStable (\<lambda>a b. cmp a b < 0) xs = xs"
  by (induction xs) (auto simp: sort_SliceStable_def insert_stable_front)

lemma cmp_refl: "a \<in> carrier \<Longrightarrow> cmp a a = 0"
  using cmp_flip [of a a] by simp

end

section \<open>Keeping the best elements\<close>

text \<open>Where the comparison separates the elements, a multiset has one sorted slice.\<close>

locale heap_select = heap_order +
  assumes cmp_zero: "a \<in> carrier \<Longrightarrow> b \<in> carrier \<Longrightarrow> cmp a b = 0 \<Longrightarrow> a = b"
begin

lemma sorted_unique:
  assumes "set xs \<subseteq> carrier" "mset xs = mset ys"
    and "sorted_wrt (\<lambda>a b. cmp a b \<le> 0) xs" "sorted_wrt (\<lambda>a b. cmp a b \<le> 0) ys"
  shows "xs = ys"
  using assms
proof (induction xs arbitrary: ys)
  case (Cons x xs)
  obtain y ys' where ys: "ys = y # ys'" using Cons.prems(2) by (cases ys) auto
  have set: "set (x # xs) = set ys" using Cons.prems(2) by (metis set_mset_mset)
  have "x = y"
  proof (rule ccontr)
    assume ne: "x \<noteq> y"
    then have "x \<in> set ys'" "y \<in> set xs" using set ys by auto
    then have "cmp x y \<le> 0" "cmp y x \<le> 0" using Cons.prems(3,4) ys by auto
    moreover have "cmp y x = - cmp x y" using cmp_flip [of x y] Cons.prems(1) \<open>y \<in> set xs\<close> by auto
    ultimately have "cmp x y = 0" by simp
    then show False using cmp_zero [of x y] Cons.prems(1) \<open>y \<in> set xs\<close> ne by auto
  qed
  moreover have "xs = ys'"
    using Cons.prems ys \<open>x = y\<close> by (intro Cons.IH) auto
  ultimately show ?case using ys by simp
qed simp

definition ordered :: "'a list \<Rightarrow> 'a list" where
  "ordered xs = sort_SliceStable (\<lambda>a b. cmp a b < 0) xs"

definition kept :: "nat \<Rightarrow> 'a list \<Rightarrow> 'a list \<Rightarrow> bool" where
  "kept m seen xs \<longleftrightarrow> heap xs \<and> mset xs = mset (take m (ordered seen))"

lemma ordered_facts:
  "set xs \<subseteq> carrier \<Longrightarrow> sorted_wrt (\<lambda>a b. cmp a b \<le> 0) (ordered xs)"
  "mset (ordered xs) = mset xs" "set (ordered xs) = set xs" "length (ordered xs) = length xs"
proof -
  show m: "mset (ordered xs) = mset xs" by (simp add: ordered_def)
  show "set (ordered xs) = set xs" "length (ordered xs) = length xs"
    using mset_eq_setD [OF m] mset_eq_length [OF m] .
qed (simp add: ordered_def sort_SliceStable_sorted)

lemma ordered_snoc:
  assumes "set xs \<subseteq> carrier" "x \<in> carrier"
  shows "ordered (xs @ [x]) = insert_stable (\<lambda>a b. cmp a b < 0) x (ordered xs)"
proof (rule sorted_unique)
  show "sorted_wrt (\<lambda>a b. cmp a b \<le> 0) (insert_stable (\<lambda>a b. cmp a b < 0) x (ordered xs))"
    using insert_stable_sorted [of "ordered xs" x] assms ordered_facts by simp
qed (use assms ordered_facts [of "xs @ [x]"] ordered_facts [of xs] in simp_all)

lemma kept_set: "kept m seen xs \<Longrightarrow> set xs = set (take m (ordered seen))"
  unfolding kept_def by (rule mset_eq_setD) simp

lemma kept_sorted:
  assumes "set seen \<subseteq> carrier" "kept m seen xs"
  shows "ordered xs = take m (ordered seen)"
proof (rule sorted_unique)
  have "set xs = set (take m (ordered seen))" using kept_set [OF assms(2)] .
  then have "set xs \<subseteq> carrier" using assms(1) ordered_facts(3) set_take_subset by fastforce
  then show "set (ordered xs) \<subseteq> carrier" "sorted_wrt (\<lambda>a b. cmp a b \<le> 0) (ordered xs)"
    using ordered_facts by simp_all
  show "sorted_wrt (\<lambda>a b. cmp a b \<le> 0) (take m (ordered seen))"
    using sorted_wrt_take ordered_facts(1) assms(1) by blast
qed (use assms in \<open>simp add: kept_def ordered_facts\<close>)

lemma kept_length: "kept m seen xs \<Longrightarrow> length xs = min (length seen) m"
  unfolding kept_def by (metis length_take mset_eq_length ordered_facts(4) min.commute)

lemma kept_carrier: "kept m seen xs \<Longrightarrow> set xs \<subseteq> set seen"
  using kept_set [of m seen xs] set_take_subset [of m "ordered seen"] by (simp add: ordered_facts)

lemma kept_Nil: "kept m [] []"
  by (simp add: kept_def heap_def ordered_def sort_SliceStable_def)

lemma kept_push:
  assumes "set (seen @ [x]) \<subseteq> carrier" "kept m seen xs" "length xs < m"
  shows "kept m (seen @ [x]) (heap_Push worse x xs)"
proof -
  have "length seen < m" using kept_length [OF assms(2)] assms(3) by simp
  then have "take m (ordered seen) = ordered seen" "take m (ordered (seen @ [x])) = ordered (seen @ [x])"
    by (simp_all add: ordered_facts)
  then show ?thesis
    using assms heap_Push_heap [of xs x] kept_carrier [OF assms(2)]
    by (auto simp: kept_def mset_heap_Push ordered_facts)
qed

lemma take_insert_stable:
  "\<forall>y \<in> set (take m xs). lt y x \<Longrightarrow> m \<le> length xs \<Longrightarrow> take m (insert_stable lt x xs) = take m xs"
proof (induction xs arbitrary: m)
  case (Cons y ys)
  then show ?case by (cases m) auto
qed simp

lemma insert_stable_before: "\<not> lt w x \<Longrightarrow> insert_stable lt x (ps @ w # rs) = insert_stable lt x ps @ w # rs"
  by (induction ps) auto

lemma kept_root:
  assumes "set seen \<subseteq> carrier" "kept m seen xs" "m \<le> length xs" "0 < m"
  shows "xs ! 0 = ordered seen ! (m - 1)" "m \<le> length seen"
proof -
  show len: "m \<le> length seen" using kept_length [OF assms(2)] assms(3) by simp
  have xs: "set xs = set (take m (ordered seen))" "set xs \<subseteq> carrier"
    using kept_set [OF assms(2)] kept_carrier [OF assms(2)] assms(1) by blast+
  let ?z = "ordered seen ! (m - 1)"
  have z: "?z \<in> set xs" using len assms(4) xs(1) by (auto simp: in_set_conv_nth ordered_facts intro!: exI [of _ "m - 1"])
  have w: "xs ! 0 \<in> set xs" using assms(3,4) by (intro nth_mem) linarith
  obtain k where "k < m" "xs ! 0 = ordered seen ! k"
    using w len unfolding xs(1) by (auto simp: in_set_conv_nth ordered_facts)
  then have "cmp (xs ! 0) ?z \<le> 0"
    using sorted_wrt_nth_less [OF ordered_facts(1) [OF assms(1)], of k "m - 1"] cmp_refl z xs(2) len
    by (cases "k = m - 1") (auto simp: ordered_facts)
  moreover have "cmp ?z (xs ! 0) \<le> 0"
    using heap_root_member [OF xs(2) _ z] assms(2) by (simp add: kept_def)
  moreover have "cmp ?z (xs ! 0) = - cmp (xs ! 0) ?z" using cmp_flip z w xs(2) by blast
  ultimately show "xs ! 0 = ?z" using cmp_zero [of "xs ! 0" ?z] z w xs(2) by auto
qed

lemma kept_skip:
  assumes "set (seen @ [x]) \<subseteq> carrier" "distinct (seen @ [x])" "kept m seen xs" "m \<le> length xs" "0 < m"
    and "0 \<le> cmp x (xs ! 0)"
  shows "kept m (seen @ [x]) xs"
proof -
  have len: "m \<le> length seen" using kept_root(2) [OF _ assms(3,4,5)] assms(1) by simp
  have xs: "set xs = set (take m (ordered seen))" "set xs \<subseteq> set seen"
    using kept_set [OF assms(3)] kept_carrier [OF assms(3)] .
  have "cmp y x < 0" if y: "y \<in> set (take m (ordered seen))" for y
  proof -
    have c: "y \<in> carrier" "x \<in> carrier" "xs ! 0 \<in> carrier" "y \<noteq> x" "set xs \<subseteq> carrier"
      using y xs assms(1,2) nth_mem [OF less_le_trans [OF assms(5,4)]] by auto
    have "cmp y (xs ! 0) \<le> 0"
      using heap_root_member [OF c(5), of y] assms(3) y xs(1) by (simp add: kept_def)
    moreover have "cmp (xs ! 0) x \<le> 0" using cmp_flip [OF c(2,3)] assms(6) by simp
    ultimately have "cmp y x \<le> 0" using cmp_trans c by blast
    then show ?thesis using cmp_zero [of y x] c by force
  qed
  then have "take m (ordered (seen @ [x])) = take m (ordered seen)"
    using ordered_snoc [of seen x] assms(1) take_insert_stable [of m "ordered seen"] len by (simp add: ordered_facts)
  then show ?thesis using assms(3) by (simp add: kept_def)
qed

lemma kept_replace:
  assumes "set (seen @ [x]) \<subseteq> carrier" "kept m seen xs" "m \<le> length xs" "0 < m" "cmp x (xs ! 0) < 0"
  shows "kept m (seen @ [x]) (heap_Fix worse (xs[0 := x]) 0)"
proof -
  have seen: "set seen \<subseteq> carrier" and x: "x \<in> carrier" using assms(1) by auto
  note root = kept_root [OF seen assms(2,3,4)]
  define ps where "ps = take (m - 1) (ordered seen)"
  have split: "ordered seen = ps @ xs ! 0 # drop m (ordered seen)"
    using id_take_nth_drop [of "m - 1" "ordered seen"] root assms(4) by (simp add: ps_def ordered_facts)
  have len: "length ps = m - 1" using root(2) by (simp add: ps_def ordered_facts)
  have xs: "set xs \<subseteq> carrier" "xs \<noteq> []" using kept_carrier [OF assms(2)] seen assms(3,4) by auto
  have w: "xs ! 0 \<in> carrier" using xs nth_mem [of 0 xs] by auto
  have "\<not> cmp (xs ! 0) x < 0" using cmp_flip [OF w x] assms(5) by simp
  then have "ordered (seen @ [x]) = insert_stable (\<lambda>a b. cmp a b < 0) x ps @ xs ! 0 # drop m (ordered seen)"
    using ordered_snoc [OF seen x] split insert_stable_before by metis
  moreover have "length (insert_stable (\<lambda>a b. cmp a b < 0) x ps) = m"
    using mset_eq_length [OF mset_insert_stable [of _ x ps, unfolded mset.simps(2) [symmetric]]] len assms(4) by simp
  ultimately have new: "mset (take m (ordered (seen @ [x]))) = add_mset x (mset ps)" by simp
  have "take m (ordered seen) = ps @ [xs ! 0]" using split len assms(4) by (metis append_eq_conv_conj length_append_singleton append.assoc append_Cons append_Nil Suc_pred')
  then have old: "mset xs = add_mset (xs ! 0) (mset ps)" using assms(2) by (simp add: kept_def)
  have "mset (xs[0 := x]) = add_mset x (mset ps)" using xs(2) old by (simp add: mset_update)
  moreover have "mset (heap_Fix worse (xs[0 := x]) 0) = mset (xs[0 := x])" using xs(2) by (intro mset_heap_Fix_0) simp
  ultimately show ?thesis
    using new heap_Fix_heap [OF xs(1) x _ xs(2)] assms(2) by (simp add: kept_def)
qed

end

end
