(* ===== verification/Query_Results.thy ===== *)
theory Query_Results
  imports Query_Match Document_Codec Heap_Order
begin

text \<open>
  Results of a query, \<open>internal/database/query_results.go\<close>, and the candidate charges of
  \<open>internal/database/query_budget.go\<close>: the order of matches, the page of a sorted result, the bounded
  collector that keeps the best \<open>skip + limit\<close> matches in a heap, and the budget that follows the heap.

  \<open>int\<close> is 64 bits wide: \<open>go_int\<close> wraps. A slice expression out of range panics, the value \<open>None\<close>.
  \<open>coherent\<close> is the carrier on which the order of candidates is total: there no integer rounds onto a float
  that another candidate has under the same sort field.
\<close>

section \<open>Candidates\<close>

definition go_int :: "int \<Rightarrow> int" where
  "go_int x = sint (word_of_int x :: int64)"

record queryCandidate =
  cand_document :: Document
  cand_position :: uint64

fun compare_fields :: "SortField list \<Rightarrow> queryCandidate \<Rightarrow> queryCandidate \<Rightarrow> int" where
  "compare_fields [] left right =
     (if cand_position left < cand_position right then -1
      else if cand_position right < cand_position left then 1 else 0)"
| "compare_fields (field # fs) left right =
     (case (lookupInternal (cand_document left) (Path field), lookupInternal (cand_document right) (Path field)) of
        (None, Some _) \<Rightarrow> if Direction field = 1 then -1 else 1
      | (Some _, None) \<Rightarrow> if Direction field = 1 then 1 else -1
      | (None, None) \<Rightarrow> compare_fields fs left right
      | (Some lv, Some rv) \<Rightarrow>
          (let comparison = compareSortValues lv rv
           in if comparison = 0 then compare_fields fs left right
              else if Direction field = -1 then - comparison else comparison))"

definition compareCandidates :: "QuerySpec \<Rightarrow> queryCandidate \<Rightarrow> queryCandidate \<Rightarrow> int" where
  "compareCandidates q left right = compare_fields (qsort q) left right"

section \<open>Pages\<close>

fun positions_ordered :: "queryCandidate list \<Rightarrow> bool" where
  "positions_ordered (a # b # cs) \<longleftrightarrow> \<not> cand_position b < cand_position a \<and> positions_ordered (b # cs)"
| "positions_ordered _ \<longleftrightarrow> True"

definition order_matched :: "QuerySpec \<Rightarrow> queryCandidate list \<Rightarrow> queryCandidate list" where
  "order_matched q result =
     (if qsort q \<noteq> [] then sort_SliceStable (\<lambda>a b. compareCandidates q a b < 0) result
      else if positions_ordered result then result
      else sort_SliceStable (\<lambda>a b. cand_position a < cand_position b) result)"

definition executeMatched :: "QuerySpec \<Rightarrow> queryCandidate list \<Rightarrow> Document list option" where
  "executeMatched q result =
     (let result = order_matched q result;
          len = int (length result);
          start = (if len < qskip q then len else qskip q);
          stop = (case qlimit q of
                    None \<Rightarrow> len
                  | Some limit \<Rightarrow> if go_int (start + limit) < len then go_int (start + limit) else len)
      in if start < 0 \<or> stop < start then None
         else Some (map cand_document (take (nat (stop - start)) (drop (nat start) result))))"

definition Execute :: "QuerySpec \<Rightarrow> Document list \<Rightarrow> Document list option" where
  "Execute q ds =
     executeMatched q
       (map (\<lambda>(i, d). \<lparr>cand_document = d, cand_position = of_nat i\<rparr>)
         (filter (\<lambda>(i, d). Match q d) (enumerate 0 ds)))"

section \<open>Collector\<close>

record queryCandidateHeap =
  heap_query :: QuerySpec
  items :: "queryCandidate list"

definition heap_Less :: "QuerySpec \<Rightarrow> queryCandidate \<Rightarrow> queryCandidate \<Rightarrow> bool" where
  "heap_Less q left right \<longleftrightarrow> 0 < compareCandidates q left right"

definition push_candidate :: "queryCandidate \<Rightarrow> queryCandidateHeap \<Rightarrow> queryCandidateHeap" where
  "push_candidate c h = h\<lparr>items := heap_Push (heap_Less (heap_query h)) c (items h)\<rparr>"

definition pop_candidate :: "queryCandidateHeap \<Rightarrow> (queryCandidate \<times> queryCandidateHeap) option" where
  "pop_candidate h =
     (if items h = [] then None else Some (last (items h), h\<lparr>items := butlast (items h)\<rparr>))"

definition fix_root :: "queryCandidateHeap \<Rightarrow> queryCandidateHeap" where
  "fix_root h = h\<lparr>items := heap_Fix (heap_Less (heap_query h)) (items h) 0\<rparr>"

record queryCandidateCollector =
  col_query :: QuerySpec
  maxRetained :: int
  col_heap :: queryCandidateHeap

definition newQueryCandidateCollector :: "QuerySpec \<Rightarrow> queryCandidateCollector" where
  "newQueryCandidateCollector query =
     (let collector = \<lparr>col_query = query, maxRetained = -1, col_heap = \<lparr>heap_query = query, items = []\<rparr>\<rparr>
      in case qlimit query of
           None \<Rightarrow> collector
         | Some limit \<Rightarrow>
             if go_int (2 ^ 63 - 1 - limit) < qskip query then collector
             else collector\<lparr>maxRetained := go_int (qskip query + limit)\<rparr>)"

definition collector_Add ::
  "queryCandidate \<Rightarrow> queryCandidateCollector \<Rightarrow> bool \<times> queryCandidate option \<times> queryCandidateCollector" where
  "collector_Add candidate c =
     (if maxRetained c < 0 then
        (True, None, c\<lparr>col_heap := (col_heap c)\<lparr>items := items (col_heap c) @ [candidate]\<rparr>\<rparr>)
      else if maxRetained c = 0 then (False, None, c)
      else if int (length (items (col_heap c))) < maxRetained c then
        (True, None, c\<lparr>col_heap := push_candidate candidate (col_heap c)\<rparr>)
      else if 0 \<le> compareCandidates (col_query c) candidate (items (col_heap c) ! 0) then (False, None, c)
      else
        let removed = items (col_heap c) ! 0
        in (True, Some removed,
            c\<lparr>col_heap := fix_root ((col_heap c)\<lparr>items := (items (col_heap c))[0 := candidate]\<rparr>)\<rparr>))"

definition collector_Documents :: "queryCandidateCollector \<Rightarrow> Document list option" where
  "collector_Documents c = executeMatched (col_query c) (items (col_heap c))"

section \<open>Candidate charges\<close>

definition budget_candidate :: "Document \<Rightarrow> queryBudget \<Rightarrow> (db_error + unit) \<times> queryBudget" where
  "budget_candidate d b =
     (if MaxQueryCandidates (blimits b) \<le> candidates b then reject ''candidates'' b
      else
        let b = b\<lparr>candidates := candidates b + 1\<rparr>
        in if qsort (bquery b) = [] then (Inr (), b)
           else case canonicalDocumentSize d of
               Inl e \<Rightarrow> (Inl e, b)
             | Inr n \<Rightarrow>
                 if MaxQuerySortBytes (blimits b) < sortBytes b \<or> MaxQuerySortBytes (blimits b) - sortBytes b < n
                 then reject ''sort_bytes'' b
                 else (Inr (), b\<lparr>sortBytes := sortBytes b + n\<rparr>))"

definition releaseCandidate :: "Document \<Rightarrow> queryBudget \<Rightarrow> (db_error + unit) \<times> queryBudget" where
  "releaseCandidate d b =
     (if candidates b = 0 then (Inl ErrCorrupt, b)
      else
        let b = b\<lparr>candidates := candidates b - 1\<rparr>
        in if qsort (bquery b) = [] then (Inr (), b)
           else case canonicalDocumentSize d of
               Inl e \<Rightarrow> (Inl e, b)
             | Inr n \<Rightarrow>
                 if sortBytes b < n then (Inl ErrCorrupt, b)
                 else (Inr (), b\<lparr>sortBytes := sortBytes b - n\<rparr>))"

definition retainQueryCandidate ::
  "queryCandidateCollector \<Rightarrow> queryBudget \<Rightarrow> queryCandidate \<Rightarrow>
    (db_error + unit) \<times> queryCandidateCollector \<times> queryBudget" where
  "retainQueryCandidate collector budget candidate =
     (case collector_Add candidate collector of
        (retained, evicted, collector) \<Rightarrow>
          if \<not> retained then (Inr (), collector, budget)
          else
            case (case evicted of None \<Rightarrow> (Inr (), budget) | Some c \<Rightarrow> releaseCandidate (cand_document c) budget) of
              (Inl e, budget) \<Rightarrow> (Inl e, collector, budget)
            | (Inr _, budget) \<Rightarrow>
                (case budget_candidate (cand_document candidate) budget of (r, budget) \<Rightarrow> (r, collector, budget)))"

text \<open>\<open>collect\<close> is the loop over the matches of a plan; the first error ends it.\<close>

fun collect :: "queryCandidate list \<Rightarrow> queryCandidateCollector \<Rightarrow> queryBudget \<Rightarrow>
    (db_error + unit) \<times> queryCandidateCollector \<times> queryBudget" where
  "collect [] collector budget = (Inr (), collector, budget)"
| "collect (c # cs) collector budget =
     (case retainQueryCandidate collector budget c of
        (Inl e, collector, budget) \<Rightarrow> (Inl e, collector, budget)
      | (Inr _, collector, budget) \<Rightarrow> collect cs collector budget)"

section \<open>The order of candidates\<close>

definition sortable_value :: "Value \<Rightarrow> bool" where
  "sortable_value v \<longleftrightarrow> value_wf v \<and> (case v of VFloat f \<Rightarrow> float_finite f | _ \<Rightarrow> True)"

text \<open>The key that a value sorts by: its index key, with every array and every object above all scalars.\<close>

definition order_key :: "Value \<Rightarrow> bytes" where
  "order_key v =
     (case v of VArray _ \<Rightarrow> [0xFE] | VObject _ \<Rightarrow> [0xFF] | _ \<Rightarrow> projr (encodeIndexKey v))"

lemma index_key_tag: "encodeIndexKey v = Inr x \<Longrightarrow> \<exists>b bs. x = b # bs \<and> b \<le> 0x70"
  unfolding encodeIndexKey_def
  by (cases v; auto simp: appendNumericIndexKey_def appendEscapedIndexBytes_def Let_def rbind_eq_Inr split: if_splits prod.splits bool.splits)

lemma index_key_below: "encodeIndexKey v = Inr x \<Longrightarrow> 0x70 < t \<Longrightarrow> bytes_Compare x [t] = -1 \<and> bytes_Compare [t] x = 1"
  using index_key_tag [of v x] by (auto simp: bytes_Compare_def)

lemma scalar_rank: "scalarKind k \<Longrightarrow> l = 7 \<or> l = 8 \<Longrightarrow> compareValueKinds k l = -1 \<and> compareValueKinds l k = 1 \<and> k \<noteq> l"
  by (auto simp: scalarKind_def compareValueKinds_def valueKindRank_def)

lemma compareSortValues_scalar:
  "scalarKind (kind v) \<Longrightarrow> scalarKind (kind w) \<Longrightarrow> compareValues v w = Some c \<Longrightarrow> compareSortValues v w = c"
  by (auto simp: compareSortValues_def compareValues_def split: option.splits if_splits)

lemma compareSortValues_keys:
  assumes "sortable_value v" "sortable_value w" "\<not> rounds_onto v w" "\<not> rounds_onto w v"
  shows "compareSortValues v w = bytes_Compare (order_key v) (order_key w)"
proof -
  have key: "\<exists>x. encodeIndexKey u = Inr x \<and> order_key u = x \<and> value_wf u" if "scalarKind (kind u)" "sortable_value u" for u
    using that encodeIndexKey_defined [of u]
    by (cases u) (auto simp: sortable_value_def scalarKind_def order_key_def)
  have comp: "kind u = 7 \<and> order_key u = [0xFE] \<or> kind u = 8 \<and> order_key u = [0xFF]" if "\<not> scalarKind (kind u)" for u
    using that by (cases u) (auto simp: scalarKind_def order_key_def)
  have nn: "compareNumeric u u' = None" if "\<not> scalarKind (kind u) \<or> \<not> scalarKind (kind u')" for u u'
    using that by (cases u; cases u'; simp add: scalarKind_def)
  consider "scalarKind (kind v)" "scalarKind (kind w)" | "scalarKind (kind v)" "\<not> scalarKind (kind w)"
    | "\<not> scalarKind (kind v)" "scalarKind (kind w)" | "\<not> scalarKind (kind v)" "\<not> scalarKind (kind w)" by blast
  then show ?thesis
  proof cases
    case 1
    then show ?thesis
      using key [of v] key [of w] assms compareValues_keys [of v w] compareSortValues_scalar by fastforce
  next
    case 2
    then show ?thesis
      using key [of v] comp [of w] assms index_key_below [of v] scalar_rank [of "kind v" "kind w"] nn [of v w]
      by (auto simp: compareSortValues_def)
  next
    case 3
    then show ?thesis
      using key [of w] comp [of v] assms index_key_below [of w] scalar_rank [of "kind w" "kind v"] nn [of v w]
      by (auto simp: compareSortValues_def)
  next
    case 4
    then show ?thesis
      using comp [of v] comp [of w] nn
      by (auto simp: compareSortValues_def compareValueKinds_def valueKindRank_def bytes_Compare_def compareValues_def)
  qed
qed

definition comparator :: "('a \<Rightarrow> 'a \<Rightarrow> int) \<Rightarrow> bool" where
  "comparator f \<longleftrightarrow>
     (\<forall>x y. f y x = - f x y) \<and> (\<forall>x y z. f x y \<le> 0 \<longrightarrow> f y z \<le> 0 \<longrightarrow> f x z \<le> 0)"

lemma comparator_flip: "comparator f \<Longrightarrow> f y x = - f x y"
  unfolding comparator_def by blast

lemma comparator_trans: "comparator f \<Longrightarrow> f x y \<le> 0 \<Longrightarrow> f y z \<le> 0 \<Longrightarrow> f x z \<le> 0"
  unfolding comparator_def by blast

lemma comparator_lex:
  assumes f: "comparator f" and g: "comparator g"
  shows "comparator (\<lambda>x y. if f x y = 0 then g x y else f x y)" (is "comparator ?h")
proof -
  have "?h x z \<le> 0" if a: "?h x y \<le> 0" and b: "?h y z \<le> 0" for x y z
  proof -
    have xy: "f x y \<le> 0" and yz: "f y z \<le> 0" using a b by (simp_all split: if_splits)
    show ?thesis
    proof (cases "f x z = 0")
      case True
      then have zx: "f z x \<le> 0" using comparator_flip [OF f, of z x] by simp
      have "0 \<le> f x y" "0 \<le> f y z"
        using comparator_trans [OF f yz zx] comparator_trans [OF f zx xy]
          comparator_flip [OF f, of y x] comparator_flip [OF f, of z y] by simp_all
      then have "g x y \<le> 0" "g y z \<le> 0" using a b xy yz by (simp_all split: if_splits)
      then show ?thesis using True comparator_trans [OF g, of x y z] by simp
    qed (use comparator_trans [OF f xy yz] in simp)
  qed
  moreover have "?h y x = - ?h x y" for x y
    using comparator_flip [OF f, of y x] comparator_flip [OF g, of y x] by simp
  ultimately show ?thesis unfolding comparator_def by blast
qed

lemma comparator_pull: "comparator f \<Longrightarrow> comparator (\<lambda>x y. f (h x) (h y))"
  unfolding comparator_def by blast

definition position_compare :: "uint64 \<Rightarrow> uint64 \<Rightarrow> int" where
  "position_compare a b = (if a < b then -1 else if b < a then 1 else 0)"

definition key_compare :: "int \<Rightarrow> bytes option \<Rightarrow> bytes option \<Rightarrow> int" where
  "key_compare dir x y =
     (case (x, y) of
        (None, Some _) \<Rightarrow> if dir = 1 then -1 else 1
      | (Some _, None) \<Rightarrow> if dir = 1 then 1 else -1
      | (None, None) \<Rightarrow> 0
      | (Some a, Some b) \<Rightarrow> if dir = -1 then - bytes_Compare a b else bytes_Compare a b)"

lemma comparator_position: "comparator position_compare"
  unfolding comparator_def position_compare_def by (auto split: if_splits)

lemma comparator_bytes: "comparator bytes_Compare"
  unfolding comparator_def bytes_Compare_def by (auto split: if_splits)

lemma comparator_bytes_down: "comparator (\<lambda>x y. - bytes_Compare x y)"
  unfolding comparator_def bytes_Compare_def by (auto split: if_splits)

lemma comparator_option:
  assumes "comparator f" "s \<noteq> 0"
  shows "comparator (\<lambda>x y. case (x, y) of
      (None, Some _) \<Rightarrow> - s | (Some _, None) \<Rightarrow> s | (None, None) \<Rightarrow> 0 | (Some a, Some b) \<Rightarrow> f a b)"
    (is "comparator ?h")
proof -
  have "?h y x = - ?h x y" for x y
    by (cases x; cases y; simp; rule comparator_flip [OF assms(1)])
  moreover have "?h x z \<le> 0" if "?h x y \<le> 0" "?h y z \<le> 0" for x y z
    using that assms(2) comparator_trans [OF assms(1), of "the x" "the y" "the z"]
    by (cases x; cases y; cases z) auto
  ultimately show ?thesis unfolding comparator_def by blast
qed

lemma comparator_key: "comparator (key_compare dir)"
proof -
  define s :: int where "s = (if dir = 1 then 1 else -1)"
  define f where "f = (\<lambda>x y. if dir = -1 then - bytes_Compare x y else bytes_Compare x y)"
  have "comparator f" using comparator_bytes comparator_bytes_down by (cases "dir = -1") (simp_all add: f_def)
  moreover have "s \<noteq> 0" by (simp add: s_def)
  moreover have "key_compare dir = (\<lambda>x y. case (x, y) of
      (None, Some _) \<Rightarrow> - s | (Some _, None) \<Rightarrow> s | (None, None) \<Rightarrow> 0 | (Some a, Some b) \<Rightarrow> f a b)"
    by (intro ext) (auto simp: key_compare_def s_def f_def split: option.splits)
  ultimately show ?thesis using comparator_option by simp
qed

definition candidate_key :: "SortField \<Rightarrow> queryCandidate \<Rightarrow> bytes option" where
  "candidate_key field c = map_option order_key (lookupInternal (cand_document c) (Path field))"

text \<open>The lexicographic order of sort keys and positions.\<close>

fun keys_compare :: "SortField list \<Rightarrow> queryCandidate \<Rightarrow> queryCandidate \<Rightarrow> int" where
  "keys_compare [] a b = position_compare (cand_position a) (cand_position b)"
| "keys_compare (field # fs) a b =
     (if key_compare (Direction field) (candidate_key field a) (candidate_key field b) = 0 then keys_compare fs a b
      else key_compare (Direction field) (candidate_key field a) (candidate_key field b))"

lemma comparator_keys: "comparator (keys_compare fs)"
proof (induction fs)
  case Nil
  show ?case using comparator_pull [OF comparator_position, of cand_position] by (simp cong: if_cong)
next
  case (Cons field fs)
  show ?case
    using comparator_lex [OF comparator_pull [OF comparator_key, of "Direction field" "candidate_key field"] Cons]
    by (simp cong: if_cong)
qed

lemma keys_compare_zero: "keys_compare fs a b = 0 \<Longrightarrow> cand_position a = cand_position b"
  by (induction fs) (auto simp: position_compare_def split: if_splits)

definition coherent :: "QuerySpec \<Rightarrow> queryCandidate set \<Rightarrow> queryCandidate set" where
  "coherent q A =
     {c \<in> A.
        (\<forall>field \<in> set (qsort q). \<forall>v. lookupInternal (cand_document c) (Path field) = Some v \<longrightarrow>
           sortable_value v \<and>
           (\<forall>d \<in> A. \<forall>w. lookupInternal (cand_document d) (Path field) = Some w \<longrightarrow>
              \<not> rounds_onto v w \<and> \<not> rounds_onto w v)) \<and>
        (\<forall>d \<in> A. cand_position c = cand_position d \<longrightarrow> c = d)}"

lemma compareCandidates_keys:
  assumes "a \<in> coherent q A" "b \<in> coherent q A"
  shows "compareCandidates q a b = keys_compare (qsort q) a b"
proof -
  have "compare_fields fs a b = keys_compare fs a b" if "set fs \<subseteq> set (qsort q)" for fs
    using that
  proof (induction fs)
    case Nil
    then show ?case by (simp add: position_compare_def)
  next
    case (Cons field fs)
    have field: "field \<in> set (qsort q)" using Cons.prems by simp
    have keys: "compareSortValues v w = bytes_Compare (order_key v) (order_key w)"
      if "lookupInternal (cand_document a) (Path field) = Some v" "lookupInternal (cand_document b) (Path field) = Some w" for v w
      using assms field that unfolding coherent_def by (intro compareSortValues_keys) blast+
    show ?case
      using Cons keys by (auto simp: key_compare_def candidate_key_def Let_def split: option.splits)
  qed
  then show ?thesis by (simp add: compareCandidates_def)
qed

interpretation candidates: heap_select "compareCandidates q" "coherent q A" for q A
proof
  fix a b c
  assume ab: "a \<in> coherent q A" "b \<in> coherent q A"
  then show "compareCandidates q b a = - compareCandidates q a b"
    using comparator_keys [of "qsort q"] compareCandidates_keys unfolding comparator_def by metis
  show "a = b" if "compareCandidates q a b = 0"
    using keys_compare_zero [of "qsort q" a b] that ab compareCandidates_keys [OF ab] by (auto simp: coherent_def)
  show "compareCandidates q a c \<le> 0"
    if "c \<in> coherent q A" "compareCandidates q a b \<le> 0" "compareCandidates q b c \<le> 0"
    using comparator_keys [of "qsort q"] compareCandidates_keys that ab unfolding comparator_def by metis
qed

section \<open>What the collector keeps\<close>

definition collect_all :: "queryCandidate list \<Rightarrow> queryCandidateCollector \<Rightarrow> queryCandidateCollector" where
  "collect_all cs c = fold (\<lambda>x c. snd (snd (collector_Add x c))) cs c"

definition collector_for :: "QuerySpec \<Rightarrow> queryCandidateCollector \<Rightarrow> bool" where
  "collector_for q c \<longleftrightarrow> col_query c = q \<and> heap_query (col_heap c) = q"

definition window :: "QuerySpec \<Rightarrow> int" where
  "window q = maxRetained (newQueryCandidateCollector q)"

lemma heap_Less_worse: "heap_Less q = candidates.worse q"
  by (simp add: fun_eq_iff heap_Less_def candidates.worse_def)

lemma new_collector [simp]:
  "collector_for q (newQueryCandidateCollector q)" "items (col_heap (newQueryCandidateCollector q)) = []"
  by (auto simp: collector_for_def newQueryCandidateCollector_def Let_def split: option.splits)

lemma collector_Add_for [simp]:
  "collector_for q c \<Longrightarrow> collector_for q (snd (snd (collector_Add x c)))"
  "maxRetained (snd (snd (collector_Add x c))) = maxRetained c"
  by (auto simp: collector_for_def collector_Add_def push_candidate_def fix_root_def Let_def)

lemma collector_Add_mset:
  assumes "collector_Add x c = (retained, evicted, c')"
  shows "mset (items (col_heap c')) + mset (case evicted of None \<Rightarrow> [] | Some e \<Rightarrow> [e]) =
    mset (items (col_heap c)) + mset (if retained then [x] else [])"
proof -
  have "add_mset (xs ! 0) (mset (xs[0 := x])) = add_mset x (mset xs)" if "xs \<noteq> []" for xs :: "queryCandidate list"
    using that by (cases xs) simp_all
  moreover have "items (col_heap c) \<noteq> []" if "0 < maxRetained c" "maxRetained c \<le> int (length (items (col_heap c)))"
    using that by auto
  ultimately show ?thesis
    using assms by (auto simp: collector_Add_def push_candidate_def fix_root_def Let_def mset_heap_Push
        mset_heap_Fix_0 split: if_splits)
qed

definition retains :: "QuerySpec \<Rightarrow> queryCandidate list \<Rightarrow> queryCandidateCollector \<Rightarrow> bool" where
  "retains q seen c \<longleftrightarrow>
     collector_for q c \<and>
     (if maxRetained c < 0 then items (col_heap c) = seen
      else candidates.kept q (nat (maxRetained c)) seen (items (col_heap c)))"

lemma retains_Add:
  assumes "set (seen @ [x]) \<subseteq> coherent q A" "distinct (seen @ [x])" "retains q seen c"
  shows "retains q (seen @ [x]) (snd (snd (collector_Add x c)))"
proof -
  let ?xs = "items (col_heap c)" and ?m = "nat (maxRetained c)"
  have q: "col_query c = q" "heap_query (col_heap c) = q" using assms(3) by (simp_all add: retains_def collector_for_def)
  have for_q: "collector_for q (snd (snd (collector_Add x c)))" using assms(3) by (simp add: retains_def)
  consider "maxRetained c < 0" | "maxRetained c = 0" | "0 < maxRetained c" "int (length ?xs) < maxRetained c"
    | "0 < maxRetained c" "maxRetained c \<le> int (length ?xs)" "0 \<le> compareCandidates q x (?xs ! 0)"
    | "0 < maxRetained c" "maxRetained c \<le> int (length ?xs)" "compareCandidates q x (?xs ! 0) < 0" by linarith
  then show ?thesis
  proof cases
    case 1
    then show ?thesis using assms(3) for_q by (simp add: retains_def collector_Add_def)
  next
    case 2
    then show ?thesis
      using assms(3) for_q by (auto simp: retains_def collector_Add_def candidates.kept_def)
  next
    case 3
    then have "candidates.kept q ?m (seen @ [x]) (heap_Push (heap_Less q) x ?xs)"
      using candidates.kept_push [OF assms(1), of ?m ?xs] assms(3) by (simp add: retains_def heap_Less_worse)
    then show ?thesis using 3 for_q q by (simp add: retains_def collector_Add_def push_candidate_def)
  next
    case 4
    then have "candidates.kept q ?m (seen @ [x]) ?xs"
      using candidates.kept_skip [OF assms(1,2), of ?m ?xs] assms(3) by (simp add: retains_def)
    then show ?thesis using 4 for_q q by (simp add: retains_def collector_Add_def)
  next
    case 5
    then have "candidates.kept q ?m (seen @ [x]) (heap_Fix (heap_Less q) (?xs[0 := x]) 0)"
      using candidates.kept_replace [OF assms(1), of ?m ?xs] assms(3) by (simp add: retains_def heap_Less_worse)
    then show ?thesis using 5 for_q q by (simp add: retains_def collector_Add_def fix_root_def Let_def)
  qed
qed

lemma retains_collect_all:
  "set (seen @ cs) \<subseteq> coherent q A \<Longrightarrow> distinct (seen @ cs) \<Longrightarrow> retains q seen c \<Longrightarrow>
    retains q (seen @ cs) (collect_all cs c)"
proof (induction cs arbitrary: seen c)
  case (Cons x cs)
  have "retains q (seen @ [x]) (snd (snd (collector_Add x c)))"
    using Cons.prems by (intro retains_Add [where A = A]) auto
  then show ?case using Cons.IH [of "seen @ [x]"] Cons.prems by (simp add: collect_all_def)
qed (simp add: collect_all_def)

lemma retains_new: "retains q [] (newQueryCandidateCollector q)"
  by (simp add: retains_def candidates.kept_Nil)

lemma collect_all_maxRetained [simp]: "maxRetained (collect_all cs c) = maxRetained c"
  by (induction cs arbitrary: c) (simp_all add: collect_all_def)

lemma collected:
  assumes "set cs \<subseteq> coherent q A" "distinct cs"
  shows "retains q cs (collect_all cs (newQueryCandidateCollector q))"
  using retains_collect_all [of "[]" cs q A] retains_new assms by simp

section \<open>Pages of ordered matches\<close>

lemma positions_ordered_sorted:
  "positions_ordered cs \<longleftrightarrow> sorted_wrt (\<lambda>a b. cand_position a \<le> cand_position b) cs"
proof (induction cs rule: positions_ordered.induct)
  case (1 a b cs)
  then show ?case by (auto simp: not_less intro: order_trans)
qed simp_all

lemma order_matched_eq:
  assumes "set cs \<subseteq> coherent q A"
  shows "order_matched q cs = candidates.ordered q cs"
proof (cases "qsort q = []")
  case True
  then have cmp: "compareCandidates q a b < 0 \<longleftrightarrow> cand_position a < cand_position b"
    "compareCandidates q a b \<le> 0 \<longleftrightarrow> cand_position a \<le> cand_position b" for a b
    by (auto simp: compareCandidates_def)
  show ?thesis
    using True candidates.sort_SliceStable_id [OF assms]
    by (simp add: order_matched_def candidates.ordered_def cmp positions_ordered_sorted)
qed (simp add: order_matched_def candidates.ordered_def)

lemma go_int_id: "- (2 ^ 63) \<le> x \<Longrightarrow> x < 2 ^ 63 \<Longrightarrow> go_int x = x"
  unfolding go_int_def by (rule sint_of_int_range) simp_all

definition page :: "QuerySpec \<Rightarrow> 'a list \<Rightarrow> 'a list" where
  "page q xs = (case qlimit q of None \<Rightarrow> id | Some l \<Rightarrow> take (nat l)) (drop (nat (qskip q)) xs)"

definition page_fits :: "QuerySpec \<Rightarrow> nat \<Rightarrow> bool" where
  "page_fits q n \<longleftrightarrow>
     0 \<le> qskip q \<and> qskip q < 2 ^ 63 \<and> int n < 2 ^ 63 \<and>
     (case qlimit q of None \<Rightarrow> True | Some l \<Rightarrow> 0 \<le> l \<and> int n + l < 2 ^ 63)"

lemma length_order_matched: "length (order_matched q cs) = length cs"
  unfolding order_matched_def using mset_eq_length [OF mset_sort_SliceStable] by auto

lemma executeMatched_page:
  assumes "page_fits q (length cs)"
  shows "executeMatched q cs = Some (map cand_document (page q (order_matched q cs)))"
proof (cases "qlimit q")
  case None
  then show ?thesis
    using assms by (auto simp: executeMatched_def page_fits_def page_def Let_def length_order_matched nat_diff_distrib)
next
  case (Some l)
  have "go_int (int (length cs) + l) = int (length cs) + l" "qskip q \<le> int (length cs) \<Longrightarrow> go_int (qskip q + l) = qskip q + l"
    using assms Some by (auto simp: page_fits_def intro!: go_int_id)
  then show ?thesis
    using assms Some
    by (auto simp: executeMatched_def page_fits_def page_def Let_def length_order_matched nat_diff_distrib nat_add_distrib nat_le_iff)
qed

lemma window_cases:
  assumes "page_fits q n"
  shows "(case qlimit q of
      None \<Rightarrow> window q = -1
    | Some l \<Rightarrow> if qskip q + l < 2 ^ 63 then window q = qskip q + l else window q = -1)"
proof (cases "qlimit q")
  case (Some l)
  have "go_int (2 ^ 63 - 1 - l) = 2 ^ 63 - 1 - l" "qskip q + l < 2 ^ 63 \<Longrightarrow> go_int (qskip q + l) = qskip q + l"
    using assms Some by (auto simp: page_fits_def intro!: go_int_id)
  then show ?thesis using Some by (auto simp: window_def newQueryCandidateCollector_def Let_def)
qed (simp add: window_def newQueryCandidateCollector_def)

lemma page_take: "qlimit q = Some l \<Longrightarrow> 0 \<le> l \<Longrightarrow> 0 \<le> qskip q \<Longrightarrow> page q (take (nat (qskip q + l)) xs) = page q xs"
  by (simp add: page_def drop_take nat_add_distrib)

lemma collector_page:
  assumes "set cs \<subseteq> coherent q A" "distinct cs" "page_fits q (length cs)"
  shows "collector_Documents (collect_all cs (newQueryCandidateCollector q)) =
    Some (map cand_document (page q (candidates.ordered q cs)))"
proof -
  let ?c = "collect_all cs (newQueryCandidateCollector q)"
  let ?xs = "items (col_heap ?c)"
  have r: "retains q cs ?c" using collected [OF assms(1,2)] .
  then have q: "col_query ?c = q" by (simp add: retains_def collector_for_def)
  have m: "maxRetained ?c = window q" by (simp add: window_def)
  have kept: "candidates.kept q (nat (window q)) cs ?xs" if "\<not> window q < 0"
    using r that m by (simp add: retains_def)
  have xs: "set ?xs \<subseteq> coherent q A" "length ?xs \<le> length cs"
    using r assms(1) candidates.kept_carrier [OF kept] candidates.kept_length [OF kept] m
    by (auto simp: retains_def split: if_splits)
  have "page_fits q (length ?xs)" using assms(3) xs(2) by (auto simp: page_fits_def split: option.splits)
  then have "collector_Documents ?c = Some (map cand_document (page q (candidates.ordered q ?xs)))"
    using executeMatched_page order_matched_eq [OF xs(1)] q by (simp add: collector_Documents_def)
  moreover have "page q (candidates.ordered q ?xs) = page q (candidates.ordered q cs)"
  proof (cases "window q < 0")
    case True
    then show ?thesis using r m by (simp add: retains_def)
  next
    case False
    then have "candidates.ordered q ?xs = take (nat (window q)) (candidates.ordered q cs)"
      using candidates.kept_sorted [OF assms(1) kept] by simp
    then show ?thesis
      using window_cases [OF assms(3)] assms(3) False page_take
      by (auto simp: page_fits_def split: option.splits if_splits)
  qed
  ultimately show ?thesis by simp
qed

section \<open>Charges follow the retained candidates\<close>

definition sort_size :: "QuerySpec \<Rightarrow> queryCandidate \<Rightarrow> nat" where
  "sort_size q c = (if qsort q = [] then 0 else unat (projr (canonicalDocumentSize (cand_document c))))"

definition sized :: "QuerySpec \<Rightarrow> queryCandidate \<Rightarrow> bool" where
  "sized q c \<longleftrightarrow> qsort q = [] \<or> (\<exists>n. canonicalDocumentSize (cand_document c) = Inr n)"

definition charged :: "queryBudget \<Rightarrow> queryCandidate list \<Rightarrow> bool" where
  "charged b xs \<longleftrightarrow>
     unat (candidates b) = length xs \<and> candidates b \<le> MaxQueryCandidates (blimits b) \<and>
     unat (sortBytes b) = sum_list (map (sort_size (bquery b)) xs) \<and> sortBytes b \<le> MaxQuerySortBytes (blimits b)"

lemma charged_mset: "mset xs = mset ys \<Longrightarrow> charged b xs = charged b ys"
  unfolding charged_def by (metis mset_eq_length mset_map sum_mset_sum_list)

lemma unat_Suc_below: "(a :: uint64) < b \<Longrightarrow> unat (a + 1) = Suc (unat a)"
  using unat_bound [of b] by (simp add: word_less_nat_alt unat_word_ariths)

lemma unat_pred: "(a :: uint64) \<noteq> 0 \<Longrightarrow> unat (a - 1) = unat a - 1"
  by (simp add: unat_sub word_le_nat_alt Suc_le_eq unat_gt_0)

lemma unat_room:
  fixes s n M :: uint64
  assumes "s \<le> M" "\<not> M - s < n"
  shows "unat (s + n) = unat s + unat n" "s + n \<le> M"
proof -
  have *: "unat s + unat n \<le> unat M" using assms by (auto simp: word_le_nat_alt word_less_nat_alt unat_sub)
  then show "unat (s + n) = unat s + unat n" using unat_bound [of M] by (simp add: unat_word_ariths)
  with * show "s + n \<le> M" by (simp add: word_le_nat_alt)
qed

lemma budget_candidate_charged:
  assumes "charged b xs" "sized (bquery b) c" "budget_candidate (cand_document c) b = (r, b')"
  shows "bquery b' = bquery b \<and> blimits b' = blimits b \<and>
    (r = Inr () \<and> charged b' (c # xs) \<or> r = Inl ErrQueryBudget)"
proof (cases "MaxQueryCandidates (blimits b) \<le> candidates b")
  case True
  then show ?thesis using assms(3) by (auto simp: budget_candidate_def reject_def split: if_splits)
next
  case False
  then have one: "unat (candidates b + 1) = Suc (unat (candidates b))" "candidates b + 1 \<le> MaxQueryCandidates (blimits b)"
    using unat_Suc_below [of "candidates b" "MaxQueryCandidates (blimits b)"]
    by (auto simp: not_le word_le_nat_alt word_less_nat_alt)
  show ?thesis
  proof (cases "qsort (bquery b) = []")
    case True
    then show ?thesis
      using assms False one by (auto simp: budget_candidate_def Let_def charged_def sort_size_def)
  next
    case sort: False
    then obtain n where n: "canonicalDocumentSize (cand_document c) = Inr n" using assms(2) by (auto simp: sized_def)
    show ?thesis
      using assms False one sort n unat_room [of "sortBytes b" "MaxQuerySortBytes (blimits b)" n]
      by (auto simp: budget_candidate_def reject_def Let_def charged_def sort_size_def split: if_splits)
  qed
qed

lemma releaseCandidate_charged:
  assumes "charged b (c # xs)" "sized (bquery b) c"
  obtains b' where "releaseCandidate (cand_document c) b = (Inr (), b')" "charged b' xs"
    "bquery b' = bquery b" "blimits b' = blimits b"
proof -
  have "candidates b \<noteq> 0" using assms(1) by (auto simp: charged_def)
  note one = this unat_pred [OF this]
  have le: "candidates b - 1 \<le> MaxQueryCandidates (blimits b)"
    using assms(1) one by (auto simp: charged_def word_le_nat_alt)
  show ?thesis
  proof (cases "qsort (bquery b) = []")
    case True
    then show ?thesis
      using that [of "b\<lparr>candidates := candidates b - 1\<rparr>"] assms(1) one le
      by (simp add: releaseCandidate_def Let_def charged_def sort_size_def)
  next
    case False
    then obtain n where n: "canonicalDocumentSize (cand_document c) = Inr n" using assms(2) by (auto simp: sized_def)
    then have "n \<le> sortBytes b" using assms(1) False by (simp add: charged_def sort_size_def word_le_nat_alt)
    then have "unat (sortBytes b - n) = unat (sortBytes b) - unat n" "sortBytes b - n \<le> MaxQuerySortBytes (blimits b)"
      "\<not> sortBytes b < n"
      using assms(1) by (auto simp: charged_def unat_sub word_le_nat_alt word_less_nat_alt)
    then show ?thesis
      using that [of "b\<lparr>candidates := candidates b - 1, sortBytes := sortBytes b - n\<rparr>"] assms(1) one le n False
      by (simp add: releaseCandidate_def Let_def charged_def sort_size_def)
  qed
qed

lemma retainQueryCandidate_charged:
  assumes "charged b (items (col_heap c))" "\<forall>y \<in> set (x # items (col_heap c)). sized (bquery b) y"
    and "retainQueryCandidate c b x = (r, c', b')"
  shows "bquery b' = bquery b \<and> blimits b' = blimits b \<and> c' = snd (snd (collector_Add x c)) \<and>
    set (items (col_heap c')) \<subseteq> set (x # items (col_heap c)) \<and>
    (r = Inr () \<and> charged b' (items (col_heap c')) \<or> r = Inl ErrQueryBudget)"
proof -
  obtain retained evicted c1 where add: "collector_Add x c = (retained, evicted, c1)" by (cases "collector_Add x c") auto
  note m = collector_Add_mset [OF add]
  have "fst (snd (retainQueryCandidate c b x)) = c1"
    using add by (simp add: retainQueryCandidate_def split: prod.split sum.split)
  then have c': "c' = c1" using assms(3) by simp
  have sub: "set (items (col_heap c1)) \<subseteq> set (x # items (col_heap c))"
    using arg_cong [OF m, of set_mset] by (cases evicted; cases retained; auto)
  show ?thesis
  proof (cases retained)
    case False
    have "evicted = None" using add False by (auto simp: collector_Add_def Let_def split: if_splits)
    then have "mset (items (col_heap c1)) = mset (items (col_heap c))" using m False by simp
    then have "charged b (items (col_heap c1))" using assms(1) charged_mset by blast
    then show ?thesis
      using assms(3) add False c' sub by (auto simp: retainQueryCandidate_def)
  next
    case True
    obtain b1 ys where b1: "(case evicted of None \<Rightarrow> (Inr (), b) | Some c \<Rightarrow> releaseCandidate (cand_document c) b) = (Inr (), b1)"
      "charged b1 ys" "bquery b1 = bquery b" "blimits b1 = blimits b" "mset (items (col_heap c1)) = add_mset x (mset ys)"
    proof (cases evicted)
      case None
      then show thesis using that [of b "items (col_heap c)"] assms(1) m True by simp
    next
      case (Some e)
      then have e: "add_mset e (mset (items (col_heap c1))) = add_mset x (mset (items (col_heap c)))" using m True by simp
      have "e \<in> set (items (col_heap c))"
        using add True Some by (auto simp: collector_Add_def Let_def split: if_splits intro!: nth_mem)
      then obtain ys where ys: "mset (items (col_heap c)) = add_mset e (mset ys)"
        by (metis mset_remove1 set_mset_mset insert_DiffM)
      then have "charged b (e # ys)" "sized (bquery b) e"
        using assms(1,2) charged_mset [of "items (col_heap c)" "e # ys"] \<open>e \<in> set _\<close> by auto
      then obtain b1 where "releaseCandidate (cand_document e) b = (Inr (), b1)" "charged b1 ys"
        "bquery b1 = bquery b" "blimits b1 = blimits b" by (rule releaseCandidate_charged)
      then show thesis using that [of b1 ys] Some e ys by (simp add: add_mset_commute)
    qed
    obtain r2 b2 where b2: "budget_candidate (cand_document x) b1 = (r2, b2)" by (cases "budget_candidate (cand_document x) b1")
    have "r = r2" "b' = b2" using assms(3) add True b1(1) b2 by (simp_all add: retainQueryCandidate_def)
    moreover have "charged b2 (items (col_heap c1)) = charged b2 (x # ys)" using b1(5) by (intro charged_mset) simp
    ultimately show ?thesis
      using budget_candidate_charged [OF b1(2) _ b2] assms(2) b1 c' sub add by auto
  qed
qed

lemma collect_charged:
  assumes "charged b (items (col_heap c))" "\<forall>y \<in> set (cs @ items (col_heap c)). sized (bquery b) y"
    and "collect cs c b = (r, c', b')"
  shows "r = Inr () \<and> charged b' (items (col_heap c')) \<and> c' = collect_all cs c \<or> r = Inl ErrQueryBudget"
  using assms
proof (induction cs arbitrary: c b)
  case Nil
  then show ?case by (simp add: collect_all_def)
next
  case (Cons x cs)
  obtain r1 c1 b1 where step: "retainQueryCandidate c b x = (r1, c1, b1)" by (cases "retainQueryCandidate c b x") auto
  note s = retainQueryCandidate_charged [OF Cons.prems(1) _ step]
  show ?case
  proof (cases r1)
    case (Inl e)
    then show ?thesis using s Cons.prems(2,3) step by auto
  next
    case (Inr u)
    then show ?thesis
      using s Cons.IH [of b1 c1] Cons.prems(2,3) step by (auto simp: collect_all_def)
  qed
qed

section \<open>Properties\<close>

lemma kept_best:
  assumes "set cs \<subseteq> coherent q A" "distinct cs" "candidates.kept q m cs xs" "y \<in> set xs" "z \<in> set cs - set xs"
  shows "compareCandidates q y z < 0"
proof -
  let ?o = "candidates.ordered q cs"
  note facts = candidates.ordered_facts(1) [OF assms(1)] candidates.ordered_facts(2-4) [where q = q and xs = cs]
  have xs: "set xs = set (take m ?o)" using candidates.kept_set [OF assms(3)] .
  have "z \<in> set (drop m ?o)" using assms(5) xs facts(3) by (metis Diff_iff UnE append_take_drop_id set_append)
  moreover have "sorted_wrt (\<lambda>a b. compareCandidates q a b \<le> 0) (take m ?o @ drop m ?o)" using facts(1) by simp
  ultimately have "compareCandidates q y z \<le> 0" using assms(4) xs unfolding sorted_wrt_append by blast
  moreover have "y \<in> set cs" using assms(3,4) candidates.kept_carrier by blast
  then have "compareCandidates q y z \<noteq> 0" using candidates.cmp_zero [of y q A z] assms by auto
  ultimately show ?thesis by simp
qed



text \<open>
  C31 The charges of a query budget always equal the candidates that the collector retains:
  their number and, for a sorted query, the sum of their encoded sizes. Releasing an evicted candidate never
  fails. The loop ends with success and charges within both limits, or it stops at the budget error.
\<close>

theorem collect_charges:
  assumes "collect cs (newQueryCandidateCollector q) (newPredicateBudget q limits) = (r, c, b)"
    and "\<forall>x \<in> set cs. sized q x"
  shows "r = Inl ErrQueryBudget \<or>
    r = Inr () \<and> c = collect_all cs (newQueryCandidateCollector q) \<and>
    unat (candidates b) = length (items (col_heap c)) \<and> unat (candidates b) \<le> unat (MaxQueryCandidates (blimits b)) \<and>
    unat (sortBytes b) = sum_list (map (sort_size (bquery b)) (items (col_heap c))) \<and>
    unat (sortBytes b) \<le> unat (MaxQuerySortBytes (blimits b))"
  using collect_charged [OF _ _ assms(1)] assms(2)
  by (auto simp: charged_def newPredicateBudget_def word_le_nat_alt)

definition example_query :: QuerySpec where
  "example_query = \<lparr>qwhere = Some TrueExpr, qsort = [\<lparr>Path = [97], Direction = 1\<rparr>], qskip = 0, qlimit = Some 2, qseek = False\<rparr>"

definition example_candidates :: "queryCandidate list" where
  "example_candidates =
     [\<lparr>cand_document = [([97], VInt 3)], cand_position = 0\<rparr>,
      \<lparr>cand_document = [([97], VInt 2)], cand_position = 1\<rparr>,
      \<lparr>cand_document = [([97], VBool True)], cand_position = 2\<rparr>]"

lemma example_coherent:
  "set example_candidates \<subseteq> coherent example_query (set example_candidates)" "distinct example_candidates"
  "page_fits example_query (length example_candidates)" "window example_query = 2"
  by (simp_all add: coherent_def example_query_def example_candidates_def page_fits_def window_def
      newQueryCandidateCollector_def go_int_id lookupInternal_def split_dot.simps lookup_parts.simps sortable_value_def)



theorem collect_charges_witness:
  "case collect [\<lparr>cand_document = [], cand_position = 0\<rparr>]
      (newQueryCandidateCollector (example_query\<lparr>qsort := []\<rparr>))
      (newPredicateBudget (example_query\<lparr>qsort := []\<rparr>)
        \<lparr>MaxQuerySkip = 0, MaxQueryDocumentsExamined = 0, MaxQueryKeysExamined = 0, MaxQueryPredicateSteps = 0,
         MaxQueryCandidates = 1, MaxQuerySortBytes = 0\<rparr>) of
     (r, c, b) \<Rightarrow> r = Inr () \<and> unat (candidates b) = length (items (col_heap c))"
  using collect_charges [of "[\<lparr>cand_document = [], cand_position = 0\<rparr>]" "example_query\<lparr>qsort := []\<rparr>"
      "\<lparr>MaxQuerySkip = 0, MaxQueryDocumentsExamined = 0, MaxQueryKeysExamined = 0, MaxQueryPredicateSteps = 0,
         MaxQueryCandidates = 1, MaxQuerySortBytes = 0\<rparr>"]
  by (auto simp: sized_def retainQueryCandidate_def collector_Add_def newQueryCandidateCollector_def
      example_query_def go_int_id push_candidate_def budget_candidate_def newPredicateBudget_def Let_def
      collect_all_def heap_Push_def heap_up_0)

end
