(* ===== verification/Mem_BTree.thy ===== *)
theory Mem_BTree
  imports Meld_Prelude
begin

text \<open>
  The in-memory B+ tree behind secondary indexes, \<open>internal/index/btree.go\<close>: byte keys with a sorted list
  of distinct byte values per key, split on insertion, borrowing and merging on deletion, and range scans
  that follow the links between leaves.

  A node is a value; the only pointers that are shared are the \<open>next\<close> links of leaves. So a leaf carries
  an address, given out by the counter \<open>fresh_addr\<close> where the code allocates a leaf, and \<open>next\<close> is an
  address. An index out of range panics, the value \<open>None\<close>; the theorems show that no operation panics on
  a tree built by the operations. Following \<open>next\<close> is a partial function with \<open>None\<close> also for not
  returning. Order and size are unbounded naturals: no sum of the code exceeds twice the order.

  The abstraction of a tree is its list of entries (\<open>entries\<close>), each a key with its values.
  \<open>multi_insert\<close> and \<open>multi_delete\<close> are the operations on entry lists, and the tree operations are shown
  to refine them. The locale \<open>multimap_index\<close> is the contract of an index as a finite relation.
\<close>

section \<open>Nodes\<close>

datatype node =
    Leaf (leaf_addr: nat) (leaf_keys: "bytes list") (leaf_values: "bytes list list") (leaf_next: "nat option")
  | Inner (sep_keys: "bytes list") (children: "node list")

record split =
  separator :: bytes
  right_node :: node

record Tree =
  root :: node
  maxKeys :: nat
  tree_size :: nat
  fresh_addr :: nat

definition defaultMaxKeys :: nat where
  "defaultMaxKeys = 32"

definition NewWithOrder :: "int \<Rightarrow> Tree" where
  "NewWithOrder n =
     \<lparr>root = Leaf 0 [] [] None, maxKeys = (if n < 3 then 3 else nat n), tree_size = 0, fresh_addr = 1\<rparr>"

definition New :: Tree where
  "New = \<lparr>root = Leaf 0 [] [] None, maxKeys = defaultMaxKeys, tree_size = 0, fresh_addr = 1\<rparr>"

definition Len :: "Tree \<Rightarrow> nat" where
  "Len t = tree_size t"

text \<open>\<open>insert_at\<close> is \<open>insertBytes\<close>, \<open>insertValues\<close> and \<open>insertNode\<close>; \<open>remove_at\<close> is the three removals.\<close>

definition insert_at :: "'a list \<Rightarrow> nat \<Rightarrow> 'a \<Rightarrow> 'a list option" where
  "insert_at xs i x = (if length xs < i then None else Some (take i xs @ x # drop i xs))"

definition remove_at :: "'a list \<Rightarrow> nat \<Rightarrow> 'a list option" where
  "remove_at xs i = (if length xs \<le> i then None else Some (take i xs @ drop (i + 1) xs))"

definition elem_at :: "'a list \<Rightarrow> nat \<Rightarrow> 'a option" where
  "elem_at xs i = (if length xs \<le> i then None else Some (xs ! i))"

fun minKey :: "node \<Rightarrow> bytes option" where
  "minKey (Leaf a ks vs n) = elem_at ks 0"
| "minKey (Inner ks []) = None"
| "minKey (Inner ks (c # cs)) = minKey c"

fun recompute :: "node \<Rightarrow> node option" where
  "recompute (Leaf a ks vs n) = Some (Leaf a ks vs n)"
| "recompute (Inner ks cs) = map_option (\<lambda>ks. Inner ks cs) (those (map minKey (tl cs)))"

section \<open>Insertion\<close>

definition leaf_split ::
  "nat \<Rightarrow> nat \<Rightarrow> nat \<Rightarrow> bytes list \<Rightarrow> bytes list list \<Rightarrow> nat option \<Rightarrow> (bool \<times> node \<times> split option \<times> nat) option" where
  "leaf_split M fresh a ks vs n =
     (if length ks \<le> M then Some (True, Leaf a ks vs n, None, fresh)
      else
        let middle = length ks div 2;
            right = Leaf fresh (drop middle ks) (drop middle vs) n
        in if length vs < middle then None
           else Option.bind (elem_at (drop middle ks) 0) (\<lambda>sep.
             Some (True, Leaf a (take middle ks) (take middle vs) (Some fresh),
               Some \<lparr>separator = sep, right_node = right\<rparr>, fresh + 1)))"

definition leaf_insert ::
  "nat \<Rightarrow> bytes \<Rightarrow> bytes \<Rightarrow> nat \<Rightarrow> nat \<Rightarrow> bytes list \<Rightarrow> bytes list list \<Rightarrow> nat option \<Rightarrow>
    (bool \<times> node \<times> split option \<times> nat) option" where
  "leaf_insert M key v fresh a ks vs n =
     (let position = lower_bound ks key
      in if position < length ks \<and> ks ! position = key then
           Option.bind (elem_at vs position) (\<lambda>values.
             let valuePosition = lower_bound values v
             in if valuePosition < length values \<and> values ! valuePosition = v
                then Some (False, Leaf a ks vs n, None, fresh)
                else Option.bind (insert_at values valuePosition v) (\<lambda>values.
                  Some (True, Leaf a ks (vs[position := values]) n, None, fresh)))
         else Option.bind (insert_at ks position key) (\<lambda>ks.
           Option.bind (insert_at vs position [v]) (\<lambda>vs. leaf_split M fresh a ks vs n)))"

definition inner_split :: "nat \<Rightarrow> nat \<Rightarrow> node \<Rightarrow> (bool \<times> node \<times> split option \<times> nat) option" where
  "inner_split M fresh current =
     (if length (sep_keys current) \<le> M then Some (True, current, None, fresh)
      else
        let middle = length (children current) div 2
        in Option.bind (recompute (Inner (sep_keys current) (take middle (children current)))) (\<lambda>left.
             Option.bind (recompute (Inner [] (drop middle (children current)))) (\<lambda>right.
               Option.bind (minKey right) (\<lambda>sep.
                 Some (True, left, Some \<lparr>separator = sep, right_node = right\<rparr>, fresh)))))"

lemma size_child: "i < length cs \<Longrightarrow> size (cs ! i :: node) < Suc (size_list size cs)"
  unfolding less_Suc_eq_le by (rule size_list_estimation' [OF nth_mem [of i]]) simp_all

function insert_node ::
  "nat \<Rightarrow> bytes \<Rightarrow> bytes \<Rightarrow> nat \<Rightarrow> node \<Rightarrow> (bool \<times> node \<times> split option \<times> nat) option" where
  "insert_node M key v fresh (Leaf a ks vs n) = leaf_insert M key v fresh a ks vs n"
| "insert_node M key v fresh (Inner ks cs) =
     (let childIndex = upper_bound ks key
      in if length cs \<le> childIndex then None
         else Option.bind (insert_node M key v fresh (cs ! childIndex)) (\<lambda>(added, child, childSplit, fresh).
           if \<not> added then Some (False, Inner ks (cs[childIndex := child]), None, fresh)
           else Option.bind
             (case childSplit of
                None \<Rightarrow> Some (cs[childIndex := child])
              | Some s \<Rightarrow> insert_at (cs[childIndex := child]) (childIndex + 1) (right_node s))
             (\<lambda>cs. Option.bind (recompute (Inner ks cs)) (inner_split M fresh))))"
  by pat_completeness auto
termination
  by (relation "measure (\<lambda>(M, key, v, fresh, t). size t)") (auto simp: not_le size_child)

definition Insert :: "bytes \<Rightarrow> bytes \<Rightarrow> Tree \<Rightarrow> (bool \<times> Tree) option" where
  "Insert key v t =
     (if key = [] then Some (False, t)
      else Option.bind (insert_node (maxKeys t) key v (fresh_addr t) (root t)) (\<lambda>(added, r, result, fresh).
        let t = t\<lparr>root := r, fresh_addr := fresh\<rparr>
        in if \<not> added then Some (False, t)
           else
             let t = t\<lparr>tree_size := tree_size t + 1\<rparr>
             in case result of
                  None \<Rightarrow> Some (True, t)
                | Some s \<Rightarrow> map_option (\<lambda>r. (True, t\<lparr>root := r\<rparr>)) (recompute (Inner [] [r, right_node s]))))"

section \<open>Lookup\<close>

function findLeaf :: "bytes \<Rightarrow> node \<Rightarrow> node option" where
  "findLeaf key (Leaf a ks vs n) = Some (Leaf a ks vs n)"
| "findLeaf key (Inner ks cs) =
     (let index = upper_bound ks key
      in if length cs \<le> index then None else findLeaf key (cs ! index))"
  by pat_completeness auto
termination
  by (relation "measure (\<lambda>(key, t). size t)") (auto simp: not_le size_child)

definition Get :: "bytes \<Rightarrow> Tree \<Rightarrow> bytes list option" where
  "Get key t =
     Option.bind (findLeaf key (root t)) (\<lambda>leaf.
       let position = lower_bound (leaf_keys leaf) key
       in if length (leaf_keys leaf) \<le> position \<or> leaf_keys leaf ! position \<noteq> key then Some []
          else elem_at (leaf_values leaf) position)"

section \<open>Deletion\<close>

fun underfilled :: "nat \<Rightarrow> node \<Rightarrow> bool" where
  "underfilled M (Leaf a ks vs n) \<longleftrightarrow> length ks < (M + 1) div 2"
| "underfilled M (Inner ks cs) \<longleftrightarrow> length cs < (M + 2) div 2"

fun canLend :: "nat \<Rightarrow> node \<Rightarrow> bool" where
  "canLend M (Leaf a ks vs n) \<longleftrightarrow> (M + 1) div 2 < length ks"
| "canLend M (Inner ks cs) \<longleftrightarrow> (M + 2) div 2 < length cs"

fun borrowFromLeft :: "node \<Rightarrow> node \<Rightarrow> (node \<times> node) option" where
  "borrowFromLeft (Leaf al kl vl nl) (Leaf a ks vs n) =
     (let last = length kl - 1
      in Option.bind (elem_at kl last) (\<lambda>k. Option.bind (elem_at vl last) (\<lambda>values.
           Option.bind (remove_at kl last) (\<lambda>kl'. Option.bind (remove_at vl last) (\<lambda>vl'.
             Some (Leaf al kl' vl' nl, Leaf a (k # ks) (values # vs) n))))))"
| "borrowFromLeft (Inner kl cl) (Inner ks cs) =
     (let last = length cl - 1
      in Option.bind (elem_at cl last) (\<lambda>c. Option.bind (remove_at cl last) (\<lambda>cl'.
           Option.bind (recompute (Inner kl cl')) (\<lambda>left.
             Option.bind (recompute (Inner ks (c # cs))) (\<lambda>current. Some (left, current))))))"
| "borrowFromLeft _ _ = None"

fun borrowFromRight :: "node \<Rightarrow> node \<Rightarrow> (node \<times> node) option" where
  "borrowFromRight (Leaf a ks vs n) (Leaf ar kr vr nr) =
     Option.bind (elem_at kr 0) (\<lambda>k. Option.bind (elem_at vr 0) (\<lambda>values.
       Option.bind (remove_at kr 0) (\<lambda>kr'. Option.bind (remove_at vr 0) (\<lambda>vr'.
         Some (Leaf a (ks @ [k]) (vs @ [values]) n, Leaf ar kr' vr' nr)))))"
| "borrowFromRight (Inner ks cs) (Inner kr cr) =
     Option.bind (elem_at cr 0) (\<lambda>c. Option.bind (remove_at cr 0) (\<lambda>cr'.
       Option.bind (recompute (Inner ks (cs @ [c]))) (\<lambda>current.
         Option.bind (recompute (Inner kr cr')) (\<lambda>right. Some (current, right)))))"
| "borrowFromRight _ _ = None"

fun mergeNodes :: "node \<Rightarrow> node \<Rightarrow> node option" where
  "mergeNodes (Leaf a ks vs n) (Leaf ar kr vr nr) = Some (Leaf a (ks @ kr) (vs @ vr) nr)"
| "mergeNodes (Leaf a ks vs n) (Inner kr cr) = Some (Leaf a (ks @ kr) vs None)"
| "mergeNodes (Inner ks cs) (Inner kr cr) = recompute (Inner ks (cs @ cr))"
| "mergeNodes (Inner ks cs) (Leaf ar kr vr nr) = recompute (Inner ks cs)"

definition rebalanceChild :: "nat \<Rightarrow> node list \<Rightarrow> nat \<Rightarrow> node list option" where
  "rebalanceChild M cs i =
     (if length cs \<le> i then Some cs
      else if \<not> underfilled M (cs ! i) \<or> length cs = 1 then Some cs
      else if 0 < i \<and> canLend M (cs ! (i - 1)) then
        Option.bind (borrowFromLeft (cs ! (i - 1)) (cs ! i)) (\<lambda>(left, child). Some (cs[i - 1 := left, i := child]))
      else if i + 1 < length cs \<and> canLend M (cs ! (i + 1)) then
        Option.bind (borrowFromRight (cs ! i) (cs ! (i + 1))) (\<lambda>(child, right). Some (cs[i := child, i + 1 := right]))
      else if 0 < i then
        Option.bind (mergeNodes (cs ! (i - 1)) (cs ! i)) (\<lambda>left. remove_at (cs[i - 1 := left]) i)
      else
        Option.bind (mergeNodes (cs ! i) (cs ! 1)) (\<lambda>child. remove_at (cs[i := child]) 1))"

definition leaf_delete ::
  "bytes \<Rightarrow> bytes \<Rightarrow> nat \<Rightarrow> bytes list \<Rightarrow> bytes list list \<Rightarrow> nat option \<Rightarrow> (bool \<times> node) option" where
  "leaf_delete key v a ks vs n =
     (let position = lower_bound ks key
      in if length ks \<le> position \<or> ks ! position \<noteq> key then Some (False, Leaf a ks vs n)
         else Option.bind (elem_at vs position) (\<lambda>values.
           let valuePosition = lower_bound values v
           in if length values \<le> valuePosition \<or> values ! valuePosition \<noteq> v then Some (False, Leaf a ks vs n)
              else Option.bind (remove_at values valuePosition) (\<lambda>values.
                if 0 < length values then Some (True, Leaf a ks (vs[position := values]) n)
                else Option.bind (remove_at ks position) (\<lambda>ks.
                  Option.bind (remove_at vs position) (\<lambda>vs. Some (True, Leaf a ks vs n))))))"

function delete_node :: "nat \<Rightarrow> bytes \<Rightarrow> bytes \<Rightarrow> node \<Rightarrow> (bool \<times> node) option" where
  "delete_node M key v (Leaf a ks vs n) = leaf_delete key v a ks vs n"
| "delete_node M key v (Inner ks cs) =
     (let childIndex = upper_bound ks key
      in if length cs \<le> childIndex then None
         else Option.bind (delete_node M key v (cs ! childIndex)) (\<lambda>(deleted, child).
           if \<not> deleted then Some (False, Inner ks (cs[childIndex := child]))
           else Option.bind (rebalanceChild M (cs[childIndex := child]) childIndex) (\<lambda>cs.
             map_option (Pair True) (recompute (Inner ks cs)))))"
  by pat_completeness auto
termination
  by (relation "measure (\<lambda>(M, key, v, t). size t)") (auto simp: not_le size_child)

fun collapse :: "node \<Rightarrow> node" where
  "collapse (Leaf a ks vs n) = Leaf a ks vs n"
| "collapse (Inner ks []) = Inner ks []"
| "collapse (Inner ks [c]) = collapse c"
| "collapse (Inner ks (c # d # cs)) = Inner ks (c # d # cs)"

definition Delete :: "bytes \<Rightarrow> bytes \<Rightarrow> Tree \<Rightarrow> (bool \<times> Tree) option" where
  "Delete key v t =
     (if key = [] then Some (False, t)
      else Option.bind (delete_node (maxKeys t) key v (root t)) (\<lambda>(deleted, r).
        if \<not> deleted then Some (False, t\<lparr>root := r\<rparr>)
        else
          let t = t\<lparr>root := collapse r, tree_size := tree_size t - 1\<rparr>
          in if tree_size t = 0
             then Some (True, t\<lparr>root := Leaf (fresh_addr t) [] [] None, fresh_addr := fresh_addr t + 1\<rparr>)
             else Some (True, t)))"

section \<open>Scans\<close>

type_synonym Pair = "bytes \<times> bytes"

text \<open>One leaf: the pairs found, and whether the upper bound ended the scan.\<close>

fun scan_leaf ::
  "bytes \<Rightarrow> bytes \<Rightarrow> bool \<Rightarrow> bytes list \<Rightarrow> bytes list list \<Rightarrow> (Pair list \<times> bool) option" where
  "scan_leaf start stop includeEnd [] vs = Some ([], False)"
| "scan_leaf start stop includeEnd (key # ks) vs =
     (if start \<noteq> [] \<and> key < start then scan_leaf start stop includeEnd ks (tl vs)
      else if stop \<noteq> [] \<and> (stop < key \<or> key = stop \<and> \<not> includeEnd) then Some ([], True)
      else Option.bind (elem_at vs 0) (\<lambda>values.
        Option.bind (scan_leaf start stop includeEnd ks (tl vs)) (\<lambda>(ps, ended).
          Some (map (Pair key) values @ ps, ended))))"

fun leaves :: "node \<Rightarrow> (nat \<times> bytes list \<times> bytes list list \<times> nat option) list" where
  "leaves (Leaf a ks vs n) = [(a, ks, vs, n)]"
| "leaves (Inner ks cs) = concat (map leaves cs)"

partial_function (option) scan_chain ::
  "bytes \<Rightarrow> bytes \<Rightarrow> bool \<Rightarrow> (nat \<times> bytes list \<times> bytes list list \<times> nat option) list \<Rightarrow> nat option \<Rightarrow> Pair list option" where
  "scan_chain start stop includeEnd ls p =
     (case p of
        None \<Rightarrow> Some []
      | Some a \<Rightarrow>
          (case map_of ls a of
             None \<Rightarrow> None
           | Some (ks, vs, n) \<Rightarrow>
               Option.bind (scan_leaf start stop includeEnd ks vs) (\<lambda>(ps, ended).
                 if ended then Some ps
                 else Option.bind (scan_chain start stop includeEnd ls n) (\<lambda>rest. Some (ps @ rest)))))"

definition Scan :: "bytes \<Rightarrow> bytes \<Rightarrow> bool \<Rightarrow> Tree \<Rightarrow> Pair list option" where
  "Scan start stop includeEnd t =
     Option.bind (findLeaf start (root t)) (\<lambda>leaf.
       scan_chain start stop includeEnd (leaves (root t)) (Some (leaf_addr leaf)))"

section \<open>Entry lists\<close>

type_synonym entry = "bytes \<times> bytes list"

fun entries :: "node \<Rightarrow> entry list" where
  "entries (Leaf a ks vs n) = zip ks vs"
| "entries (Inner ks cs) = concat (map entries cs)"

fun leaf_links :: "node \<Rightarrow> (nat \<times> nat option) list" where
  "leaf_links (Leaf a ks vs n) = [(a, n)]"
| "leaf_links (Inner ks cs) = concat (map leaf_links cs)"

definition values_ok :: "bytes list \<Rightarrow> bool" where
  "values_ok vs \<longleftrightarrow> vs \<noteq> [] \<and> sorted_wrt (<) vs"

definition entries_ok :: "entry list \<Rightarrow> bool" where
  "entries_ok es \<longleftrightarrow> sorted_wrt (<) (map fst es) \<and> (\<forall>e \<in> set es. values_ok (snd e))"

fun multi_insert :: "bytes \<Rightarrow> bytes \<Rightarrow> entry list \<Rightarrow> entry list" where
  "multi_insert k v [] = [(k, [v])]"
| "multi_insert k v ((k', vs) # es) =
     (if k < k' then (k, [v]) # (k', vs) # es
      else if k = k' then (k, insort_insert v vs) # es
      else (k', vs) # multi_insert k v es)"

fun multi_delete :: "bytes \<Rightarrow> bytes \<Rightarrow> entry list \<Rightarrow> entry list" where
  "multi_delete k v [] = []"
| "multi_delete k v ((k', vs) # es) =
     (if k = k' then (if remove1 v vs = [] then es else (k, remove1 v vs) # es)
      else (k', vs) # multi_delete k v es)"

definition pairs_of :: "entry list \<Rightarrow> Pair set" where
  "pairs_of es = {(k, v). \<exists>vs. (k, vs) \<in> set es \<and> v \<in> set vs}"

lemma pairs_of_simps [simp]:
  "pairs_of [] = {}"
  "pairs_of ((k, vs) # es) = Pair k ` set vs \<union> pairs_of es"
  "pairs_of (es @ fs) = pairs_of es \<union> pairs_of fs"
  by (auto simp: pairs_of_def)

lemma pairs_of_key: "(k, v) \<in> pairs_of es \<Longrightarrow> k \<in> fst ` set es"
  by (force simp: pairs_of_def)

lemma entries_ok_simps [simp]:
  "entries_ok []"
  "entries_ok (e # es) \<longleftrightarrow> values_ok (snd e) \<and> (\<forall>x \<in> set es. fst e < fst x) \<and> entries_ok es"
  "entries_ok (es @ fs) \<longleftrightarrow> entries_ok es \<and> entries_ok fs \<and> (\<forall>x \<in> set es. \<forall>y \<in> set fs. fst x < fst y)"
  by (auto simp: entries_ok_def sorted_wrt_append)

lemma multi_insert_append:
  "\<forall>x \<in> set es. fst x < k \<Longrightarrow> multi_insert k v (es @ fs) = es @ multi_insert k v fs"
  by (induction es) force+

lemma multi_insert_below:
  "\<forall>x \<in> set fs. k < fst x \<Longrightarrow> es \<noteq> [] \<or> fs = [] \<Longrightarrow> multi_insert k v (es @ fs) = multi_insert k v es @ fs"
proof (induction es)
  case (Cons e es)
  obtain k' vs where e: "e = (k', vs)" by (cases e)
  show ?case
  proof (cases "es = []")
    case True
    then show ?thesis using Cons.prems e by (cases fs) auto
  qed (use Cons e in simp)
qed simp

lemma multi_delete_append:
  "\<forall>x \<in> set es. fst x < k \<Longrightarrow> multi_delete k v (es @ fs) = es @ multi_delete k v fs"
  by (induction es) force+

lemma multi_delete_absent: "\<forall>x \<in> set es. k \<noteq> fst x \<Longrightarrow> multi_delete k v es = es"
  by (induction es) auto

lemma multi_delete_below:
  "\<forall>x \<in> set fs. k < fst x \<Longrightarrow> multi_delete k v (es @ fs) = multi_delete k v es @ fs"
proof (induction es)
  case Nil
  then show ?case using multi_delete_absent [of fs k v] by auto
next
  case (Cons e es)
  then show ?case by (cases e) simp
qed

lemma values_ok_insort: "values_ok vs \<Longrightarrow> values_ok (insort_insert v vs)"
  by (auto simp: values_ok_def strict_sorted_iff insort_insert_key_def sorted_insort distinct_insort set_insort_key)

lemma sorted_wrt_remove1: "sorted_wrt (<) vs \<Longrightarrow> sorted_wrt (<) (remove1 (v :: bytes) vs)"
  by (auto simp: strict_sorted_iff sorted_remove1)

lemma fst_multi_insert: "fst ` set (multi_insert k v es) = insert k (fst ` set es)"
  by (induction k v es rule: multi_insert.induct) auto

lemma fst_multi_delete: "fst ` set (multi_delete k v es) \<subseteq> fst ` set es"
  by (induction k v es rule: multi_delete.induct) auto

lemma multi_insert_ok:
  assumes "entries_ok es"
  shows "entries_ok (multi_insert k v es)" "pairs_of (multi_insert k v es) = insert (k, v) (pairs_of es)"
proof -
  have new: "values_ok [v]" by (simp add: values_ok_def)
  show "entries_ok (multi_insert k v es)"
    using assms
  proof (induction es)
    case (Cons e es)
    obtain k' vs where e: "e = (k', vs)" by (cases e)
    have "k' < fst x" if "x \<in> set (multi_insert k v es)" "k' < k" for x
    proof -
      have "fst x \<in> insert k (fst ` set es)" unfolding fst_multi_insert [of k v es, symmetric] using that(1) by (rule imageI)
      then show ?thesis using Cons.prems e that(2) by auto
    qed
    then show ?case using Cons e values_ok_insort new by (auto simp: not_less order.order_iff_strict)
  qed (simp add: new)
  show "pairs_of (multi_insert k v es) = insert (k, v) (pairs_of es)"
    by (induction k v es rule: multi_insert.induct) (auto simp: set_insort_insert)
qed

lemma multi_delete_ok:
  assumes "entries_ok es"
  shows "entries_ok (multi_delete k v es)" "pairs_of (multi_delete k v es) = pairs_of es - {(k, v)}"
proof -
  show "entries_ok (multi_delete k v es)"
    using assms
  proof (induction es)
    case (Cons e es)
    obtain k' vs where e: "e = (k', vs)" by (cases e)
    have "k' < fst x" if "x \<in> set (multi_delete k v es)" for x
    proof -
      have "fst x \<in> fst ` set es" using fst_multi_delete [of k v es] imageI [OF that, of fst] by blast
      then show ?thesis using Cons.prems e by auto
    qed
    then show ?case using Cons e by (auto simp: values_ok_def sorted_wrt_remove1)
  qed simp
  show "pairs_of (multi_delete k v es) = pairs_of es - {(k, v)}"
    using assms
  proof (induction es)
    case (Cons e es)
    obtain k' vs where e: "e = (k', vs)" by (cases e)
    have out: "(k', w) \<notin> pairs_of es" for w using pairs_of_key [of k' w es] Cons.prems e by auto
    have "distinct vs" using Cons.prems e by (simp add: values_ok_def strict_sorted_iff)
    then have "set (remove1 v vs) = set vs - {v}" by (rule set_remove1_eq)
    moreover from this have "remove1 v vs = [] \<longleftrightarrow> set vs \<subseteq> {v}" by (metis Diff_eq_empty_iff set_empty)
    ultimately show ?case using Cons e out by (auto simp: image_iff)
  qed simp
qed

section \<open>Positions in a leaf\<close>

lemma sorted_key_split:
  fixes xs :: "'a :: linorder list"
  assumes "sorted_wrt (<) xs"
  obtains A C where "xs = A @ C" "length A = lower_bound xs x" "\<forall>a \<in> set A. a < x" "\<forall>c \<in> set C. x \<le> c"
proof
  show "xs = takeWhile (\<lambda>y. y < x) xs @ dropWhile (\<lambda>y. y < x) xs" by simp
  show "length (takeWhile (\<lambda>y. y < x) xs) = lower_bound xs x" using lower_bound_takeWhile [OF assms, of x] by simp
  show "\<forall>a \<in> set (takeWhile (\<lambda>y. y < x) xs). a < x" by (blast dest: set_takeWhileD)
  show "\<forall>c \<in> set (dropWhile (\<lambda>y. y < x) xs). x \<le> c"
    using assms
  proof (induction xs)
    case (Cons a xs)
    then show ?case by (auto simp: not_less intro: order_trans less_imp_le)
  qed simp
qed

text \<open>The position found in a strictly sorted list, with what stands there.\<close>

lemma lower_bound_cases:
  fixes xs :: "'a :: linorder list"
  assumes "sorted_wrt (<) xs"
  obtains (found) A C where "xs = A @ x # C" "length A = lower_bound xs x" "\<forall>a \<in> set A. a < x" "\<forall>c \<in> set C. x < c"
  | (absent) A C where "xs = A @ C" "length A = lower_bound xs x" "\<forall>a \<in> set A. a < x" "\<forall>c \<in> set C. x < c"
      "lower_bound xs x < length xs \<longrightarrow> xs ! lower_bound xs x \<noteq> x" "x \<notin> set xs"
proof -
  obtain A C where s: "xs = A @ C" "length A = lower_bound xs x" "\<forall>a \<in> set A. a < x" "\<forall>c \<in> set C. x \<le> c"
    using sorted_key_split [OF assms] .
  show thesis
  proof (cases "C \<noteq> [] \<and> hd C = x")
    case True
    then obtain C' where "C = x # C'" by (cases C) auto
    then show thesis using found [of A C'] s assms by (auto simp: sorted_wrt_append)
  next
    case False
    have lt: "\<forall>c \<in> set C. x < c"
    proof
      fix c assume c: "c \<in> set C"
      then obtain y ys where C: "C = y # ys" by (cases C) auto
      have "x < y" using False C s(4) by auto
      then show "x < c" using c C assms s(1) by (auto simp: sorted_wrt_append)
    qed
    have "xs ! length A \<noteq> x" if "length A < length xs"
      using that False s(1) by (cases C) (auto simp: nth_append)
    then show thesis using absent [of A C] s lt by auto
  qed
qed

section \<open>Shape of a tree\<close>

fun fill :: "node \<Rightarrow> nat" where
  "fill (Leaf a ks vs n) = length ks"
| "fill (Inner ks cs) = length cs"

fun least :: "nat \<Rightarrow> node \<Rightarrow> nat" where
  "least M (Leaf a ks vs n) = (M + 1) div 2"
| "least M (Inner ks cs) = (M + 2) div 2"

fun most :: "nat \<Rightarrow> node \<Rightarrow> nat" where
  "most M (Leaf a ks vs n) = M"
| "most M (Inner ks cs) = M + 1"

definition full :: "nat \<Rightarrow> node \<Rightarrow> bool" where
  "full M t \<longleftrightarrow> least M t \<le> fill t \<and> fill t \<le> most M t"

definition first_key :: "node \<Rightarrow> bytes" where
  "first_key t = fst (hd (entries t))"

text \<open>
  \<open>shape M h t\<close>: all leaves are at depth \<open>h\<close>, every node below \<open>t\<close> is filled to at least half of what
  fits, and separators are the first keys of the children to their right.
\<close>

fun shape :: "nat \<Rightarrow> nat \<Rightarrow> node \<Rightarrow> bool" where
  "shape M 0 (Leaf a ks vs n) \<longleftrightarrow> length vs = length ks"
| "shape M (Suc h) (Inner ks cs) \<longleftrightarrow>
     cs \<noteq> [] \<and> ks = map first_key (tl cs) \<and> (\<forall>c \<in> set cs. shape M h c \<and> full M c)"
| "shape M _ _ \<longleftrightarrow> False"

lemma shape_0E: "shape M 0 t \<Longrightarrow> (\<And>a ks vs n. t = Leaf a ks vs n \<Longrightarrow> length vs = length ks \<Longrightarrow> P) \<Longrightarrow> P"
  by (cases t) auto

lemma shape_SucE:
  "shape M (Suc h) t \<Longrightarrow>
    (\<And>ks cs. t = Inner ks cs \<Longrightarrow> cs \<noteq> [] \<Longrightarrow> ks = map first_key (tl cs) \<Longrightarrow> \<forall>c \<in> set cs. shape M h c \<and> full M c \<Longrightarrow> P) \<Longrightarrow> P"
  by (cases t) auto

lemma shape_entries:
  "3 \<le> M \<Longrightarrow> shape M h t \<Longrightarrow> 0 < fill t \<Longrightarrow> entries t \<noteq> [] \<and> minKey t = Some (first_key t)"
proof (induction h arbitrary: t)
  case 0
  then show ?case
    by (elim shape_0E) (auto simp: first_key_def elem_at_def neq_Nil_conv length_Suc_conv)
next
  case (Suc h)
  from Suc.prems(2) show ?case
  proof (rule shape_SucE)
    fix ks cs assume t: "t = Inner ks cs" "cs \<noteq> []" "\<forall>c \<in> set cs. shape M h c \<and> full M c"
    then obtain c cs' where cs: "cs = c # cs'" by (cases cs) auto
    have "0 < fill c" using t cs Suc.prems(1) by (cases c) (auto simp: full_def)
    then have "entries c \<noteq> [] \<and> minKey c = Some (first_key c)" using Suc.IH [of c] Suc.prems(1) t cs by simp
    then show ?thesis using t cs by (simp add: first_key_def)
  qed
qed

lemma full_fill: "3 \<le> M \<Longrightarrow> full M t \<Longrightarrow> 2 \<le> fill t"
  by (cases t) (auto simp: full_def)

lemma full_entries: "3 \<le> M \<Longrightarrow> shape M h t \<Longrightarrow> full M t \<Longrightarrow> entries t \<noteq> [] \<and> minKey t = Some (first_key t)"
  using full_fill [of M t] by (intro shape_entries) simp_all

lemma those_map_Some: "\<forall>x \<in> set xs. f x = Some (g x) \<Longrightarrow> those (map f xs) = Some (map g xs)"
  by (induction xs) auto

lemma recompute_shape:
  assumes "3 \<le> M" "\<forall>c \<in> set cs. shape M h c \<and> full M c"
  shows "recompute (Inner ks cs) = Some (Inner (map first_key (tl cs)) cs)"
proof -
  have "\<forall>c \<in> set (tl cs). minKey c = Some (first_key c)"
    using assms full_entries by (metis list.set_sel(2) tl_Nil)
  then show ?thesis by (simp add: those_map_Some)
qed

lemma locate_child:
  assumes "entries_ok (concat (map entries cs))" "\<forall>c \<in> set cs. entries c \<noteq> []" "cs \<noteq> []"
  obtains A c C where "cs = A @ c # C" "length A = upper_bound (map first_key (tl cs)) key"
    "\<forall>x \<in> set (concat (map entries A)). fst x < key" "\<forall>x \<in> set (concat (map entries C)). key < fst x"
proof -
  have "sorted_wrt (<) (map first_key (tl cs)) \<and>
    (\<exists>A c C. cs = A @ c # C \<and> length A = length (takeWhile (\<lambda>k. k \<le> key) (map first_key (tl cs))) \<and>
      (\<forall>x \<in> set (concat (map entries A)). fst x < key) \<and> (\<forall>x \<in> set (concat (map entries C)). key < fst x))"
    using assms
  proof (induction cs)
    case (Cons b cs)
    show ?case
    proof (cases cs)
      case Nil
      then show ?thesis by (intro conjI exI [of _ "[]"]) auto
    next
      case (Cons d ds)
      note IH = Cons.IH [unfolded Cons list.sel]
      obtain e es where d: "entries d = e # es" using Cons.prems(2) Cons by (cases "entries d") auto
      have ok: "entries_ok (concat (map entries cs))" using Cons.prems(1) by simp
      have key_d: "first_key d = fst e" using d by (simp add: first_key_def)
      have above: "fst e \<le> fst x" if "x \<in> set (concat (map entries (d # ds)))" for x
        using that ok d Cons by (auto intro: less_imp_le)
      have below: "fst x < fst e" if "x \<in> set (entries b)" for x
        using that Cons.prems(1) d Cons by auto
      have sorted: "sorted_wrt (<) (map first_key (d # ds))"
      proof -
        have "fst e < first_key c" if "c \<in> set ds" for c
        proof -
          have "hd (entries c) \<in> set (concat (map entries ds))" using that Cons.prems(2) Cons by (auto intro!: bexI [of _ c])
          then show ?thesis using ok d Cons by (auto simp: first_key_def)
        qed
        then show ?thesis using IH ok Cons.prems(2) Cons key_d by simp
      qed
      show ?thesis
      proof (cases "fst e \<le> key")
        case True
        obtain A c C where A: "d # ds = A @ c # C" "length A = length (takeWhile (\<lambda>k. k \<le> key) (map first_key ds))"
          "\<forall>x \<in> set (concat (map entries A)). fst x < key" "\<forall>x \<in> set (concat (map entries C)). key < fst x"
          using IH ok Cons.prems(2) Cons by auto
        have "\<forall>x \<in> set (concat (map entries (b # A))). fst x < key" using A(3) below True by fastforce
        moreover have "b # cs = (b # A) @ c # C" using A(1) Cons by simp
        moreover have "length (b # A) = length (takeWhile (\<lambda>k. k \<le> key) (map first_key (tl (b # cs))))"
          using A(2) Cons True key_d by simp
        ultimately show ?thesis using sorted Cons A(4) unfolding list.sel by blast
      next
        case False
        then have "\<forall>x \<in> set (concat (map entries (d # ds))). key < fst x" using above by fastforce
        moreover have "length [] = length (takeWhile (\<lambda>k. k \<le> key) (map first_key (tl (b # cs))))"
          using Cons False key_d by simp
        moreover have "b # cs = [] @ b # d # ds" "\<forall>x \<in> set (concat (map entries [])). fst x < key" using Cons by simp_all
        ultimately show ?thesis using sorted Cons unfolding list.sel by blast
      qed
    qed
  qed simp
  then show thesis using that upper_bound_takeWhile by metis
qed

section \<open>Insertion refines the entry list\<close>

definition parts :: "node \<Rightarrow> split option \<Rightarrow> node list" where
  "parts t sp = (case sp of None \<Rightarrow> [t] | Some s \<Rightarrow> [t, right_node s])"

lemma parts_simps [simp]: "parts t None = [t]" "parts t (Some s) = [t, right_node s]"
  by (simp_all add: parts_def)

definition links_grow :: "nat \<Rightarrow> (nat \<times> nat option) list \<Rightarrow> nat \<Rightarrow> (nat \<times> nat option) list \<Rightarrow> bool" where
  "links_grow f L f' L' \<longleftrightarrow>
     L' = L \<and> f' = f \<or>
     (\<exists>A a n C. L = A @ (a, n) # C \<and> L' = A @ (a, Some f) # (f, n) # C \<and> f' = f + 1)"

definition inserted ::
  "nat \<Rightarrow> nat \<Rightarrow> bytes \<Rightarrow> bytes \<Rightarrow> nat \<Rightarrow> node \<Rightarrow> bool \<Rightarrow> node \<Rightarrow> split option \<Rightarrow> nat \<Rightarrow> bool" where
  "inserted M h k v f t added t' sp f' \<longleftrightarrow>
     added = ((k, v) \<notin> pairs_of (entries t)) \<and> (\<not> added \<longrightarrow> t' = t \<and> sp = None \<and> f' = f) \<and>
     (\<forall>p \<in> set (parts t' sp). shape M h p) \<and>
     concat (map entries (parts t' sp)) = multi_insert k v (entries t) \<and>
     links_grow f (leaf_links t) f' (concat (map leaf_links (parts t' sp))) \<and>
     (if sp = None then fill t \<le> fill t' \<and> fill t' \<le> most M t' \<and> least M t' = least M t
      else \<forall>p \<in> set (parts t' sp). full M p)"

lemma insort_at:
  fixes v :: "'a :: linorder"
  assumes "\<forall>a \<in> set A. a < v" "\<forall>c \<in> set C. v < c"
  shows "insort v (A @ C) = A @ v # C"
  using assms by (induction A) (auto simp: insort_is_Cons less_imp_le not_le)

lemma multi_insert_found:
  "\<forall>x \<in> set A. fst x < k \<Longrightarrow> multi_insert k v (A @ (k, vs) # C) = A @ (k, insort_insert v vs) # C"
  by (simp add: multi_insert_append)

lemma multi_insert_absent:
  "\<forall>x \<in> set A. fst x < k \<Longrightarrow> \<forall>x \<in> set C. k < fst x \<Longrightarrow> multi_insert k v (A @ C) = A @ (k, [v]) # C"
  using multi_insert_append [of A k v C] by (cases C) auto

lemma zip_split:
  assumes "length vs = length (A @ C)"
  obtains VA VC where "vs = VA @ VC" "length VA = length A" "length VC = length C" "zip (A @ C) vs = zip A VA @ zip C VC"
proof
  show "vs = take (length A) vs @ drop (length A) vs" by simp
  show "zip (A @ C) vs = zip A (take (length A) vs) @ zip C (drop (length A) vs)" by (rule zip_append1)
qed (use assms in simp_all)

lemma links_grow_leaf: "links_grow f [(a, n)] (f + 1) [(a, Some f), (f, n)]"
  unfolding links_grow_def by (intro disjI2 exI [of _ "[]"]) auto

lemma half_bounds:
  "3 \<le> M \<Longrightarrow> (M + 1) div 2 \<le> M" "3 \<le> M \<Longrightarrow> (M + 1) div 2 \<le> M + 1 - (M + 1) div 2"
  "3 \<le> M \<Longrightarrow> M + 1 - (M + 1) div 2 \<le> M" for M :: nat
  by linarith+

lemma leaf_split_inserted:
  assumes "3 \<le> M" "length vs = length ks" "length ks \<le> M + 1" "fill t < length ks" "least M t = (M + 1) div 2"
    and "zip ks vs = multi_insert k v (entries t)" "leaf_links t = [(a, n)]" "(k, v) \<notin> pairs_of (entries t)"
  obtains t' sp f' where "leaf_split M f a ks vs n = Some (True, t', sp, f')" "inserted M 0 k v f t True t' sp f'"
proof (cases "length ks \<le> M")
  case True
  then show ?thesis
    using that [of "Leaf a ks vs n" None f] assms
    by (auto simp: leaf_split_def inserted_def links_grow_def)
next
  case False
  let ?m = "length ks div 2"
  have m: "?m < length ks" "length ks = M + 1" using False assms(3) by auto
  have zip: "zip (take ?m ks) (take ?m vs) @ zip (drop ?m ks) (drop ?m vs) = zip ks vs"
    by (simp flip: take_zip drop_zip)
  show ?thesis
    using that [of "Leaf a (take ?m ks) (take ?m vs) (Some f)"
        "Some \<lparr>separator = ks ! ?m, right_node = Leaf f (drop ?m ks) (drop ?m vs) n\<rparr>" "f + 1"] False assms m zip links_grow_leaf [of f a n] half_bounds [of M]
    by (simp add: leaf_split_def inserted_def Let_def elem_at_def full_def)
qed

lemma nth_at: "xs = A @ x # C \<Longrightarrow> length A = i \<Longrightarrow> i < length xs \<and> xs ! i = x"
  by auto

lemma leaf_insert_inserted:
  assumes "3 \<le> M" "shape M 0 t" "t = Leaf a ks vs n" "entries_ok (entries t)" "length ks \<le> M"
  obtains added t' sp f' where "leaf_insert M k v f a ks vs n = Some (added, t', sp, f')"
    "inserted M 0 k v f t added t' sp f'"
proof -
  have len: "length vs = length ks" using assms(2,3) by simp
  then have sorted: "sorted_wrt (<) ks" using assms(3,4) by (simp add: entries_ok_def)
  from sorted show thesis
  proof (cases rule: lower_bound_cases [of ks k])
    case (found A C)
    obtain VA VC where vs: "vs = VA @ VC" "length VA = length A" "length VC = length (k # C)"
      "zip ks vs = zip A VA @ zip (k # C) VC" using zip_split [of vs A "k # C"] len found(1) by metis
    obtain us V where VC: "VC = us # V" using vs(3) by (cases VC) auto
    have e: "entries t = zip A VA @ (k, us) # zip C V" using assms(3) vs VC by simp
    have A: "\<forall>x \<in> set (zip A VA). fst x < k" using found(3) by (auto dest: set_zip_leftD)
    have C: "\<forall>x \<in> set (zip C V). k < fst x" using found(4) by (auto dest: set_zip_leftD)
    have in_pairs: "(k, v) \<in> pairs_of (entries t) \<longleftrightarrow> v \<in> set us"
      using A C pairs_of_key [of k v "zip A VA"] pairs_of_key [of k v "zip C V"] unfolding e by auto
    have at: "lower_bound ks k < length ks" "ks ! lower_bound ks k = k" "elem_at vs (lower_bound ks k) = Some us"
      using found(1) vs(1,2) VC unfolding found(2) [symmetric] by (simp_all add: elem_at_def nth_append)
    have lb: "lower_bound ks k = length VA" using found(2) vs(2) by simp
    have "sorted_wrt (<) us" using assms(4) e by (simp add: values_ok_def)
    then show thesis
    proof (cases rule: lower_bound_cases [of us v])
      case (found B D)
      have "lower_bound us v < length us \<and> us ! lower_bound us v = v" using nth_at [OF found(1,2)] .
      moreover have "multi_insert k v (entries t) = entries t"
        using found(1) unfolding e multi_insert_found [OF A] by (simp add: insort_insert_key_def)
      moreover have "v \<in> set us" using found(1) by simp
      ultimately show thesis
        using that [of False t None f] at assms in_pairs
        by (simp add: leaf_insert_def inserted_def links_grow_def)
    next
      case (absent B D)
      have ins: "insert_at us (lower_bound us v) v = Some (insort_insert v us)"
        using absent insort_at [of B v D] by (simp add: insert_at_def insort_insert_key_def flip: absent(2))
      have "zip ks (vs[lower_bound ks k := insort_insert v us]) = multi_insert k v (entries t)"
        unfolding e multi_insert_found [OF A] lb using found(1) vs(1) vs(2) [symmetric] VC by simp
      then show thesis
        using that [of True "Leaf a ks (vs[lower_bound ks k := insort_insert v us]) n" None f] at ins absent(5,6) assms in_pairs len
        by (auto simp: leaf_insert_def inserted_def links_grow_def Let_def)
    qed
  next
    case (absent A C)
    obtain VA VC where vs: "vs = VA @ VC" "length VA = length A" "length VC = length C"
      "zip ks vs = zip A VA @ zip C VC" using zip_split [of vs A C] len absent(1) by metis
    let ?ks = "A @ k # C" and ?vs = "VA @ [v] # VC"
    have e: "entries t = zip A VA @ zip C VC" using assms(3) vs by simp
    have "\<forall>x \<in> set (zip A VA). fst x < k" "\<forall>x \<in> set (zip C VC). k < fst x"
      using absent(3,4) by (auto dest: set_zip_leftD)
    then have z: "zip ?ks ?vs = multi_insert k v (entries t)"
      unfolding e using vs by (simp add: multi_insert_absent)
    have "(k, v) \<notin> pairs_of (entries t)"
      using pairs_of_key [of k v "entries t"] absent(6) assms(3) by (auto dest!: set_zip_leftD)
    moreover have "leaf_insert M k v f a ks vs n = leaf_split M f a ?ks ?vs n"
      using absent vs(1,2) by (auto simp: leaf_insert_def Let_def insert_at_def simp flip: absent(2))
    moreover have "length ?vs = length ?ks" "length ?ks \<le> M + 1" "fill t < length ?ks" "least M t = (M + 1) div 2"
      "leaf_links t = [(a, n)]" using assms(3,5) vs absent(1) by simp_all
    ultimately show thesis using leaf_split_inserted [of M ?vs ?ks t k v a n f] that assms(1) z by metis
  qed
qed

lemma links_grow_append: "links_grow f L f' L' \<Longrightarrow> links_grow f (A @ L @ C) f' (A @ L' @ C)"
  unfolding links_grow_def by (metis append.assoc append_Cons)

lemma inner_split_parts:
  assumes "3 \<le> M" "\<forall>c \<in> set cs. shape M h c \<and> full M c" "cs \<noteq> []" "length cs \<le> M + 2"
  obtains t' sp where "inner_split M f (Inner (map first_key (tl cs)) cs) = Some (True, t', sp, f)"
    "\<forall>p \<in> set (parts t' sp). shape M (Suc h) p" "concat (map entries (parts t' sp)) = concat (map entries cs)"
    "concat (map leaf_links (parts t' sp)) = concat (map leaf_links cs)"
    "if sp = None then fill t' = length cs \<and> length cs \<le> M + 1 \<and> least M t' = (M + 2) div 2 \<and> most M t' = M + 1
     else \<forall>p \<in> set (parts t' sp). full M p"
proof (cases "length cs - 1 \<le> M")
  case True
  then show ?thesis
    using that [of "Inner (map first_key (tl cs)) cs" None] assms(2-3) by (simp add: inner_split_def)
next
  case False
  then have len: "length cs = M + 2" using assms(4) by simp
  define m where "m = length cs div 2"
  let ?l = "take m cs" and ?r = "drop m cs"
  have sub: "\<forall>c \<in> set ?l. shape M h c \<and> full M c" "\<forall>c \<in> set ?r. shape M h c \<and> full M c"
    using assms(2) set_take_subset [of m cs] set_drop_subset [of m cs] by blast+
  have m: "0 < m" "m < length cs" "(M + 2) div 2 \<le> m" "m \<le> M + 1" "(M + 2) div 2 \<le> length cs - m" "length cs - m \<le> M + 1"
    using len assms(1) by (simp_all add: m_def)
  have ne: "?l \<noteq> []" "?r \<noteq> []" using m by auto
  define left right where "left = Inner (map first_key (tl ?l)) ?l" and "right = Inner (map first_key (tl ?r)) ?r"
  have rc: "recompute (Inner ks ?l) = Some left" "recompute (Inner ks ?r) = Some right" for ks
    using recompute_shape [OF assms(1)] sub by (simp_all add: left_def right_def del: recompute.simps)
  have shape: "shape M (Suc h) left" "shape M (Suc h) right" "full M left" "full M right"
    using sub ne m by (simp_all add: left_def right_def full_def)
  obtain key where key: "minKey right = Some key" using full_entries [OF assms(1) shape(2,4)] by blast
  have step: "inner_split M f (Inner (map first_key (tl cs)) cs) =
      Some (True, left, Some \<lparr>separator = key, right_node = right\<rparr>, f)"
    using False rc key by (simp add: inner_split_def Let_def del: recompute.simps flip: m_def)
  have "concat (map g ?l) @ concat (map g ?r) = concat (map g cs)" for g :: "node \<Rightarrow> 'x list"
    by (metis append_take_drop_id concat_append map_append)
  then have "concat (map entries ?l) @ concat (map entries ?r) = concat (map entries cs)"
    "concat (map leaf_links ?l) @ concat (map leaf_links ?r) = concat (map leaf_links cs)"
    by (metis append_take_drop_id concat_append map_append)+
  then show ?thesis
    using that [OF step] shape by (simp add: left_def right_def)
qed

lemma child_pairs:
  assumes "\<forall>x \<in> set A. fst x < k" "\<forall>x \<in> set C. k < fst x"
  shows "(k, v) \<in> pairs_of (A @ B @ C) \<longleftrightarrow> (k, v) \<in> pairs_of B"
  using assms pairs_of_key [of k v A] pairs_of_key [of k v C] by auto

lemma multi_insert_child:
  assumes "\<forall>x \<in> set A. fst x < k" "\<forall>x \<in> set C. k < fst x" "B \<noteq> []"
  shows "multi_insert k v (A @ B @ C) = A @ multi_insert k v B @ C"
  using assms by (simp add: multi_insert_append multi_insert_below)

lemma insert_node_inserted:
  assumes "3 \<le> M" "shape M h t" "entries_ok (entries t)" "fill t \<le> most M t"
  shows "\<exists>added t' sp f'. insert_node M k v f t = Some (added, t', sp, f') \<and> inserted M h k v f t added t' sp f'"
  using assms(2-4)
proof (induction h arbitrary: t)
  case 0
  from 0(1) obtain a ks vs n where t: "t = Leaf a ks vs n" by (elim shape_0E)
  show ?case using leaf_insert_inserted [OF assms(1) 0(1) t 0(2)] 0(3) t by (metis insert_node.simps(1) fill.simps(1) most.simps(1))
next
  case (Suc h)
  from Suc.prems(1) obtain ks cs where t: "t = Inner ks cs" "cs \<noteq> []" "ks = map first_key (tl cs)"
    "\<forall>c \<in> set cs. shape M h c \<and> full M c" by (elim shape_SucE)
  have ne: "\<forall>c \<in> set cs. entries c \<noteq> []" using t(4) full_entries [OF assms(1)] by blast
  have ok: "entries_ok (concat (map entries cs))" using Suc.prems(2) t by simp
  obtain A c C where loc: "cs = A @ c # C" "length A = upper_bound (map first_key (tl cs)) k"
    "\<forall>x \<in> set (concat (map entries A)). fst x < k" "\<forall>x \<in> set (concat (map entries C)). k < fst x"
    using locate_child [OF ok ne t(2)] .
  note i = loc(2) [folded t(3), symmetric]
  have c: "shape M h c" "full M c" "entries_ok (entries c)" "entries c \<noteq> []" using t(4) loc(1) ok ne by auto
  obtain added c' sp f' where step: "insert_node M k v f c = Some (added, c', sp, f')" "inserted M h k v f c added c' sp f'"
    using Suc.IH [OF c(1,3)] c(2) by (auto simp: full_def)
  have pairs: "(k, v) \<in> pairs_of (entries t) \<longleftrightarrow> (k, v) \<in> pairs_of (entries c)"
    using child_pairs [OF loc(3,4)] t(1) loc(1) by simp
  have ins: "multi_insert k v (entries t) = concat (map entries A) @ multi_insert k v (entries c) @ concat (map entries C)"
    using multi_insert_child [OF loc(3,4) c(4)] t(1) loc(1) by simp
  have eq: "insert_node M k v f t =
      (if \<not> added then Some (False, Inner ks (A @ c' # C), None, f')
       else Option.bind (recompute (Inner ks (A @ parts c' sp @ C))) (inner_split M f'))"
    using step(1) i loc(1) t(1)
    by (cases sp) (simp_all add: insert_at_def Let_def del: recompute.simps)
  show ?case
  proof (cases added)
    case False
    then have "c' = c" "f' = f" "(k, v) \<in> pairs_of (entries c)" "concat (map entries [c]) = multi_insert k v (entries c)"
      using step(2) by (auto simp: inserted_def)
    then have "insert_node M k v f t = Some (False, t, None, f) \<and> inserted M (Suc h) k v f t False t None f"
      unfolding eq using False Suc.prems(1,3) t(1) loc(1) pairs ins by (simp add: inserted_def links_grow_def)
    then show ?thesis by blast
  next
    case True
    let ?cs = "A @ parts c' sp @ C"
    have all: "\<forall>x \<in> set ?cs. shape M h x \<and> full M x"
      using t(4) loc(1) step(2) c(2) by (cases sp) (auto simp: inserted_def full_def)
    have "length ?cs \<le> M + 2" "length cs \<le> length ?cs" "?cs \<noteq> []"
      using Suc.prems(3) t(1) loc(1) by (cases sp; simp)+
    then obtain t' sp' where split: "inner_split M f' (Inner (map first_key (tl ?cs)) ?cs) = Some (True, t', sp', f')"
      "\<forall>p \<in> set (parts t' sp'). shape M (Suc h) p" "concat (map entries (parts t' sp')) = concat (map entries ?cs)"
      "concat (map leaf_links (parts t' sp')) = concat (map leaf_links ?cs)"
      "if sp' = None then fill t' = length ?cs \<and> length ?cs \<le> M + 1 \<and> least M t' = (M + 2) div 2 \<and> most M t' = M + 1
       else \<forall>p \<in> set (parts t' sp'). full M p"
      using inner_split_parts [OF assms(1) all] by metis
    have "insert_node M k v f t = Some (True, t', sp', f')"
      using eq True recompute_shape [OF assms(1) all] split(1) by (simp del: recompute.simps)
    moreover have "links_grow f (leaf_links t) f' (concat (map leaf_links ?cs))"
      using step(2) links_grow_append [of f "leaf_links c" f' "concat (map leaf_links (parts c' sp))" "concat (map leaf_links A)" "concat (map leaf_links C)"]
        t(1) loc(1) by (simp add: inserted_def)
    moreover have "concat (map entries ?cs) = multi_insert k v (entries t)"
      using step(2) ins by (simp add: inserted_def)
    moreover have "added = ((k, v) \<notin> pairs_of (entries t))" using step(2) pairs by (simp add: inserted_def)
    then have "inserted M (Suc h) k v f t True t' sp' f'" if "links_grow f (leaf_links t) f' (concat (map leaf_links ?cs))"
      "concat (map entries ?cs) = multi_insert k v (entries t)"
      using that split(2-5) True t(1) \<open>length cs \<le> length ?cs\<close>
      by (cases sp') (simp_all add: inserted_def)
    ultimately show ?thesis by blast
  qed
qed

section \<open>Rebalancing\<close>

text \<open>Merging two neighbouring leaves drops the right one from the chain.\<close>

inductive links_shrink :: "(nat \<times> nat option) list \<Rightarrow> (nat \<times> nat option) list \<Rightarrow> bool" where
  links_same [simp]: "links_shrink L L"
| links_merge: "links_shrink L (A @ (a, x) # (b, n) # C) \<Longrightarrow> links_shrink L (A @ (a, n) # C)"

lemma links_shrink_trans: "links_shrink L' L'' \<Longrightarrow> links_shrink L L' \<Longrightarrow> links_shrink L L''"
  by (induction rule: links_shrink.induct) (auto intro: links_merge)

lemma links_shrink_append: "links_shrink L L' \<Longrightarrow> links_shrink (P @ L @ Q) (P @ L' @ Q)"
proof (induction rule: links_shrink.induct)
  case (links_merge L A a x b n C)
  then show ?case using links_shrink.links_merge [of "P @ L @ Q" "P @ A" a x b n "C @ Q"] by simp
qed simp

definition moved :: "nat \<Rightarrow> nat \<Rightarrow> node \<Rightarrow> node \<Rightarrow> node \<Rightarrow> node \<Rightarrow> bool" where
  "moved M h l r l' r' \<longleftrightarrow>
     shape M h l' \<and> shape M h r' \<and> full M l' \<and> full M r' \<and>
     entries l' @ entries r' = entries l @ entries r \<and> leaf_links l' @ leaf_links r' = leaf_links l @ leaf_links r"

lemma shape_same:
  assumes "shape M h l" "shape M h r"
  obtains (leaves) al kl vl nl ar kr vr nr where "h = 0" "l = Leaf al kl vl nl" "r = Leaf ar kr vr nr"
      "length vl = length kl" "length vr = length kr"
  | (inner) g kl cl kr cr where "h = Suc g" "l = Inner kl cl" "r = Inner kr cr"
      "\<forall>c \<in> set (cl @ cr). shape M g c \<and> full M c"
proof (cases h)
  case 0
  then show thesis using assms leaves by (cases l; cases r) auto
next
  case (Suc g)
  obtain kl cl kr cr where "l = Inner kl cl" "r = Inner kr cr" "\<forall>c \<in> set (cl @ cr). shape M g c \<and> full M c"
    using assms Suc by (cases l; cases r) auto
  then show thesis using inner Suc by blast
qed

lemma remove_last: "xs \<noteq> [] \<Longrightarrow> remove_at xs (length xs - Suc 0) = Some (butlast xs)"
  by (simp add: remove_at_def butlast_conv_take not_le)

lemma elem_last: "xs \<noteq> [] \<Longrightarrow> elem_at xs (length xs - Suc 0) = Some (last xs)"
  by (simp add: elem_at_def last_conv_nth not_le)

lemma remove_first: "xs \<noteq> [] \<Longrightarrow> remove_at xs 0 = Some (tl xs)"
  by (simp add: remove_at_def drop_Suc)

lemma elem_first: "xs \<noteq> [] \<Longrightarrow> elem_at xs 0 = Some (hd xs)"
  by (simp add: elem_at_def hd_conv_nth)

lemma zip_move_last:
  "length vs = length ks \<Longrightarrow> ks \<noteq> [] \<Longrightarrow> zip (butlast ks) (butlast vs) @ [(last ks, last vs)] = zip ks vs"
  by (induction ks vs rule: list_induct2') (auto simp: neq_Nil_conv length_Suc_conv)

lemma concat_move_last: "cs \<noteq> [] \<Longrightarrow> concat (map g (butlast cs)) @ g (last cs) = concat (map g cs)"
  by (induction cs) auto

lemma borrowFromLeft_moved:
  assumes "3 \<le> M" "shape M h l" "shape M h r" "full M l" "canLend M l" "fill r + 1 = least M r"
  shows "\<exists>l' r'. borrowFromLeft l r = Some (l', r') \<and> moved M h l r l' r'"
  using assms(2,3)
proof (cases rule: shape_same)
  case (leaves al kl vl nl ar kr vr nr)
  then have ne: "kl \<noteq> []" "vl \<noteq> []" using assms(5) by auto
  have "zip (butlast kl) (butlast vl) @ (last kl, last vl) # zip kr vr = zip kl vl @ zip kr vr"
    using zip_move_last [of vl kl] ne leaves by (metis append.assoc append_Cons append_Nil)
  moreover have "elem_at vl (length kl - Suc 0) = Some (last vl)" "remove_at vl (length kl - Suc 0) = Some (butlast vl)"
    using elem_last [OF ne(2)] remove_last [OF ne(2)] leaves(4) by simp_all
  ultimately have "borrowFromLeft l r = Some (Leaf al (butlast kl) (butlast vl) nl, Leaf ar (last kl # kr) (last vl # vr) nr) \<and>
    moved M h l r (Leaf al (butlast kl) (butlast vl) nl) (Leaf ar (last kl # kr) (last vl # vr) nr)"
    using leaves assms(4-6) elem_last [OF ne(1)] remove_last [OF ne(1)] by (auto simp: moved_def full_def)
  then show ?thesis by blast
next
  case (inner g kl cl kr cr)
  then have ne: "cl \<noteq> []" using assms(5) by auto
  have "2 < length cl" using inner(2) assms(1,5) by simp
  then have ne': "butlast cl \<noteq> []" by (cases cl rule: rev_cases) auto
  have bl: "\<forall>c \<in> set (butlast cl). shape M g c \<and> full M c" using inner(4) by (auto dest: in_set_butlastD)
  have lr: "\<forall>c \<in> set (last cl # cr). shape M g c \<and> full M c" using inner(4) ne by auto
  let ?l = "Inner (map first_key (tl (butlast cl))) (butlast cl)"
  let ?r = "Inner (map first_key cr) (last cl # cr)"
  have rc: "recompute (Inner kl (butlast cl)) = Some ?l" "recompute (Inner kr (last cl # cr)) = Some ?r"
    using recompute_shape [OF assms(1) bl] recompute_shape [OF assms(1) lr] by (simp_all del: recompute.simps)
  have "concat (map entries (butlast cl)) @ entries (last cl) = concat (map entries cl)"
    "concat (map leaf_links (butlast cl)) @ leaf_links (last cl) = concat (map leaf_links cl)"
    using concat_move_last [OF ne] by auto
  then have same: "concat (map entries (butlast cl)) @ entries (last cl) @ X = concat (map entries cl) @ X"
    "concat (map leaf_links (butlast cl)) @ leaf_links (last cl) @ Y = concat (map leaf_links cl) @ Y" for X Y
    by (metis append.assoc)+
  have "borrowFromLeft l r = Some (?l, ?r)"
    using inner rc elem_last [OF ne] remove_last [OF ne] by (simp del: recompute.simps)
  moreover have "moved M h l r ?l ?r"
    using inner assms bl lr ne' same by (auto simp: moved_def full_def)
  ultimately show ?thesis by blast
qed

lemma borrowFromRight_moved:
  assumes "3 \<le> M" "shape M h l" "shape M h r" "full M r" "canLend M r" "fill l + 1 = least M l"
  shows "\<exists>l' r'. borrowFromRight l r = Some (l', r') \<and> moved M h l r l' r'"
  using assms(2,3)
proof (cases rule: shape_same)
  case (leaves al kl vl nl ar kr vr nr)
  then have "kr \<noteq> []" "vr \<noteq> []" using assms(5) by auto
  then obtain k ks v vs where r: "kr = k # ks" "vr = v # vs" by (cases kr; cases vr) auto
  have "borrowFromRight l r = Some (Leaf al (kl @ [k]) (vl @ [v]) nl, Leaf ar ks vs nr) \<and>
    moved M h l r (Leaf al (kl @ [k]) (vl @ [v]) nl) (Leaf ar ks vs nr)"
    using leaves r assms by (auto simp: moved_def full_def elem_first remove_first)
  then show ?thesis by blast
next
  case (inner g kl cl kr cr)
  then have "2 < length cr" using assms(1,5) by simp
  then obtain c d cs' where "cr = c # d # cs'" by (cases cr rule: list.exhaust; cases "tl cr") auto
  then obtain cs where r: "cr = c # cs" "cs \<noteq> []" by simp
  have ll: "\<forall>x \<in> set (cl @ [c]). shape M g x \<and> full M x" and rr: "\<forall>x \<in> set cs. shape M g x \<and> full M x"
    using inner(4) r by auto
  let ?l = "Inner (map first_key (tl (cl @ [c]))) (cl @ [c])"
  let ?r = "Inner (map first_key (tl cs)) cs"
  have rc: "recompute (Inner kl (cl @ [c])) = Some ?l" "recompute (Inner kr cs) = Some ?r"
    using recompute_shape [OF assms(1) ll] recompute_shape [OF assms(1) rr] by (simp_all del: recompute.simps)
  have "borrowFromRight l r = Some (?l, ?r)"
    using inner r rc by (simp add: elem_first remove_first del: recompute.simps)
  moreover have "moved M h l r ?l ?r"
    using inner assms ll rr r by (auto simp: moved_def full_def)
  ultimately show ?thesis by blast
qed

lemma mergeNodes_merged:
  assumes "3 \<le> M" "shape M h l" "shape M h r" "least M l + least M r \<le> Suc (fill l + fill r)"
    "fill l + fill r \<le> Suc (2 * (least M l - 1))" "0 < fill l"
  shows "\<exists>m. mergeNodes l r = Some m \<and> shape M h m \<and> full M m \<and>
    entries m = entries l @ entries r \<and> links_shrink (leaf_links l @ leaf_links r) (leaf_links m)"
  using assms(2,3)
proof (cases rule: shape_same)
  case (leaves al kl vl nl ar kr vr nr)
  have "links_shrink [(al, nl), (ar, nr)] [(al, nr)]"
    using links_merge [of "[(al, nl), (ar, nr)]" "[]" al nl ar nr "[]"] by simp
  then show ?thesis using leaves assms by (auto simp: full_def)
next
  case (inner g kl cl kr cr)
  then have "mergeNodes l r = Some (Inner (map first_key (tl (cl @ cr))) (cl @ cr))"
    using recompute_shape [OF assms(1) inner(4)] by (simp del: recompute.simps)
  then show ?thesis using inner assms by (auto simp: full_def)
qed

definition rebalanced :: "nat \<Rightarrow> nat \<Rightarrow> node list \<Rightarrow> node list \<Rightarrow> bool" where
  "rebalanced M h cs cs' \<longleftrightarrow>
     (\<forall>c \<in> set cs'. shape M h c \<and> full M c) \<and> cs' \<noteq> [] \<and> length cs \<le> Suc (length cs') \<and> length cs' \<le> length cs \<and>
     concat (map entries cs') = concat (map entries cs) \<and>
     links_shrink (concat (map leaf_links cs)) (concat (map leaf_links cs'))"

lemma rebalanced_pair:
  assumes "moved M h l r l' r'" "\<forall>c \<in> set (A @ C). shape M h c \<and> full M c"
  shows "rebalanced M h (A @ l # r # C) (A @ l' # r' # C)"
proof -
  have "entries l' @ entries r' @ X = entries l @ entries r @ X" "leaf_links l' @ leaf_links r' @ Y = leaf_links l @ leaf_links r @ Y" for X Y
    using assms(1) by (simp_all add: moved_def flip: append_assoc)
  then have same: "concat (map entries (A @ l' # r' # C)) = concat (map entries (A @ l # r # C))"
    "concat (map leaf_links (A @ l' # r' # C)) = concat (map leaf_links (A @ l # r # C))" by simp_all
  show ?thesis unfolding rebalanced_def same using assms by (auto simp: moved_def)
qed

lemma rebalanced_merge:
  assumes "shape M h m" "full M m" "entries m = entries l @ entries r" "links_shrink (leaf_links l @ leaf_links r) (leaf_links m)"
    "\<forall>c \<in> set (A @ C). shape M h c \<and> full M c"
  shows "rebalanced M h (A @ l # r # C) (A @ m # C)"
  using assms links_shrink_append [OF assms(4), of "concat (map leaf_links A)" "concat (map leaf_links C)"]
  by (auto simp: rebalanced_def)

lemma fill_least:
  "underfilled M t \<longleftrightarrow> fill t < least M t" "canLend M t \<longleftrightarrow> least M t < fill t"
  by (cases t; simp)+

lemma same_least: "shape M h l \<Longrightarrow> shape M h r \<Longrightarrow> least M l = least M r"
  by (erule (1) shape_same) auto

lemma least_pos: "3 \<le> M \<Longrightarrow> 2 \<le> least M t"
  by (cases t) auto

lemma rebalanceChild_rebalanced:
  assumes "3 \<le> M" "\<forall>x \<in> set (A @ C). shape M h x \<and> full M x" "A @ C \<noteq> []"
    and "shape M h c" "least M c \<le> Suc (fill c)" "fill c \<le> most M c"
  shows "\<exists>cs'. rebalanceChild M (A @ c # C) (length A) = Some cs' \<and> rebalanced M h (A @ c # C) cs'"
proof (cases "underfilled M c")
  case False
  then show ?thesis
    using assms by (auto simp: rebalanceChild_def rebalanced_def full_def fill_least)
next
  case under: True
  then have fc: "Suc (fill c) = least M c" using assms(5) by (simp add: fill_least)
  have merge: "\<exists>m. mergeNodes l r = Some m \<and> shape M h m \<and> full M m \<and> entries m = entries l @ entries r \<and>
      links_shrink (leaf_links l @ leaf_links r) (leaf_links m)"
    if "shape M h l" "shape M h r" "fill l + fill r = 2 * least M l - 1" "0 < fill l" for l r
    using mergeNodes_merged [OF assms(1) that(1,2)] that same_least [OF that(1,2)] least_pos [OF assms(1), of l] by simp
  have long: "length (A @ c # C) \<noteq> 1" using assms(3) by auto
  consider (left) A' l where "A = A' @ [l]" "canLend M l"
    | (right) r C' where "C = r # C'" "canLend M r" "A = [] \<or> \<not> canLend M (last A)"
    | (mleft) A' l where "A = A' @ [l]" "\<not> canLend M l" "C = [] \<or> \<not> canLend M (hd C)"
    | (mright) r C' where "A = []" "C = r # C'" "\<not> canLend M r"
    using assms(3) by (cases A rule: rev_cases; cases C) auto
  then show ?thesis
  proof cases
    case left
    then have l: "shape M h l" "full M l" using assms(2) by auto
    obtain l' c' where m: "borrowFromLeft l c = Some (l', c')" "moved M h l c l' c'"
      using borrowFromLeft_moved [OF assms(1) l(1) assms(4) l(2) left(2)] fc by auto
    then have "rebalanceChild M (A @ c # C) (length A) = Some (A' @ l' # c' # C)"
      using left under long by (simp add: rebalanceChild_def nth_append list_update_append)
    then show ?thesis using rebalanced_pair [OF m(2), of A' C] assms(2) left(1) by simp
  next
    case right
    then have r: "shape M h r" "full M r" using assms(2) by auto
    obtain c' r' where m: "borrowFromRight c r = Some (c', r')" "moved M h c r c' r'"
      using borrowFromRight_moved [OF assms(1,4) r(1,2) right(2)] fc by auto
    then have "rebalanceChild M (A @ c # C) (length A) = Some (A @ c' # r' # C')"
      using right under long by (cases A rule: rev_cases) (simp_all add: rebalanceChild_def nth_append list_update_append)
    then show ?thesis using rebalanced_pair [OF m(2), of A C'] assms(2) right(1) by simp
  next
    case mleft
    then have l: "shape M h l" "full M l" using assms(2) by auto
    have "fill l + fill c = 2 * least M l - 1" "0 < fill l"
      using mleft(2) l fc same_least [OF l(1) assms(4)] least_pos [OF assms(1), of l] by (simp_all add: fill_least full_def)
    then obtain m where m: "mergeNodes l c = Some m" "shape M h m" "full M m" "entries m = entries l @ entries c"
      "links_shrink (leaf_links l @ leaf_links c) (leaf_links m)" using merge [OF l(1) assms(4)] by blast
    then have "rebalanceChild M (A @ c # C) (length A) = Some (A' @ m # C)"
      using mleft under long by (cases C) (simp_all add: rebalanceChild_def nth_append list_update_append remove_at_def)
    then show ?thesis using rebalanced_merge [OF m(2-5), of A' C] assms(2) mleft(1) by simp
  next
    case mright
    then have r: "shape M h r" "full M r" using assms(2) by auto
    have "fill c + fill r = 2 * least M c - 1" "0 < fill c"
      using mright(3) r fc same_least [OF assms(4) r(1)] least_pos [OF assms(1), of c] by (simp_all add: fill_least full_def)
    then obtain m where m: "mergeNodes c r = Some m" "shape M h m" "full M m" "entries m = entries c @ entries r"
      "links_shrink (leaf_links c @ leaf_links r) (leaf_links m)" using merge [OF assms(4) r(1)] by blast
    then have "rebalanceChild M (A @ c # C) (length A) = Some (m # C')"
      using mright under long by (simp add: rebalanceChild_def remove_at_def)
    then show ?thesis using rebalanced_merge [OF m(2-5), of "[]" C'] assms(2) mright(1,2) by simp
  qed
qed

section \<open>Deletion refines the entry list\<close>

definition deleted :: "nat \<Rightarrow> nat \<Rightarrow> bytes \<Rightarrow> bytes \<Rightarrow> node \<Rightarrow> bool \<Rightarrow> node \<Rightarrow> bool" where
  "deleted M h k v t d t' \<longleftrightarrow>
     d = ((k, v) \<in> pairs_of (entries t)) \<and> (\<not> d \<longrightarrow> t' = t) \<and>
     shape M h t' \<and> entries t' = multi_delete k v (entries t) \<and>
     links_shrink (leaf_links t) (leaf_links t') \<and> fill t \<le> Suc (fill t') \<and> fill t' \<le> fill t"

lemma leaf_delete_deleted:
  assumes "shape M 0 t" "t = Leaf a ks vs n" "entries_ok (entries t)"
  shows "\<exists>d t'. leaf_delete k v a ks vs n = Some (d, t') \<and> deleted M 0 k v t d t'"
proof -
  have len: "length vs = length ks" using assms(1,2) by simp
  then have sorted: "sorted_wrt (<) ks" using assms(2,3) by (simp add: entries_ok_def)
  from sorted show ?thesis
  proof (cases rule: lower_bound_cases [of ks k])
    case (absent A C)
    have out: "k \<notin> fst ` set (entries t)" using absent(6) assms(2) by (auto dest!: set_zip_leftD)
    then have "(k, v) \<notin> pairs_of (entries t)" "multi_delete k v (entries t) = entries t"
      using pairs_of_key multi_delete_absent [of "entries t" k v] by (blast, force)
    moreover have "leaf_delete k v a ks vs n = Some (False, t)"
      using absent(5) assms(2) by (auto simp: leaf_delete_def)
    ultimately show ?thesis using assms(1) by (auto simp: deleted_def)
  next
    case (found A C)
    obtain VA VC where vs: "vs = VA @ VC" "length VA = length A" "length VC = length (k # C)"
      "zip ks vs = zip A VA @ zip (k # C) VC" using zip_split [of vs A "k # C"] len found(1) by metis
    obtain us V where VC: "VC = us # V" using vs(3) by (cases VC) auto
    have e: "entries t = zip A VA @ (k, us) # zip C V" using assms(2) vs VC by simp
    have A: "\<forall>x \<in> set (zip A VA). fst x < k" using found(3) by (auto dest: set_zip_leftD)
    have C: "\<forall>x \<in> set (zip C V). k < fst x" using found(4) by (auto dest: set_zip_leftD)
    have in_pairs: "(k, v) \<in> pairs_of (entries t) \<longleftrightarrow> v \<in> set us"
      using A C pairs_of_key [of k v "zip A VA"] pairs_of_key [of k v "zip C V"] unfolding e by auto
    have lb: "lower_bound ks k = length A" using found(2) by simp
    have at: "elem_at vs (length A) = Some us" "lower_bound ks k < length ks" "ks ! lower_bound ks k = k"
      using found(1) vs(2) VC vs(1) nth_at [OF found(1,2)] by (simp_all add: elem_at_def nth_append)
    have us: "sorted_wrt (<) us" "us \<noteq> []" using assms(3) e by (simp_all add: values_ok_def)
    have md: "multi_delete k v (entries t) =
        zip A VA @ (if remove1 v us = [] then zip C V else (k, remove1 v us) # zip C V)"
      unfolding e multi_delete_append [OF A] by simp
    from us(1) show ?thesis
    proof (cases rule: lower_bound_cases [of us v])
      case (absent B D)
      have "leaf_delete k v a ks vs n = Some (False, t)"
        using at absent(5) assms(2) lb by (auto simp: leaf_delete_def Let_def)
      moreover have "remove1 v us = us" using absent(6) by (simp add: remove1_idem)
      ultimately show ?thesis
        using assms(1) md us(2) in_pairs absent(6) e by (auto simp: deleted_def)
    next
      case (found B D)
      have "v \<notin> set B" using found(3) by auto
      then have rem: "remove1 v us = B @ D" using found(1) by (simp add: remove1_append)
      have pos: "lower_bound us v < length us \<and> us ! lower_bound us v = v" using nth_at [OF found(1,2)] .
      have take: "remove_at us (lower_bound us v) = Some (remove1 v us)"
        using found(1) pos rem unfolding found(2) [symmetric] by (simp add: remove_at_def)
      have v: "v \<in> set us" using found(1) by simp
      show ?thesis
      proof (cases "remove1 v us = []")
        case True
        have "remove_at ks (length A) = Some (A @ C)" "remove_at vs (length A) = Some (VA @ V)"
          using lb at(2) len vs(1,2) VC \<open>ks = A @ k # C\<close> by (simp_all add: remove_at_def)
        then have "leaf_delete k v a ks vs n = Some (True, Leaf a (A @ C) (VA @ V) n)"
          using at pos take True lb by (simp add: leaf_delete_def Let_def not_le)
        moreover have "deleted M 0 k v t True (Leaf a (A @ C) (VA @ V) n)"
          using md True in_pairs v assms(2) vs VC \<open>ks = A @ k # C\<close> by (simp add: deleted_def)
        ultimately show ?thesis by blast
      next
        case False
        then have "leaf_delete k v a ks vs n = Some (True, Leaf a ks (vs[length A := remove1 v us]) n)"
          using at pos take lb by (simp add: leaf_delete_def Let_def not_le)
        moreover have "zip ks (vs[length A := remove1 v us]) = zip A VA @ (k, remove1 v us) # zip C V"
          using \<open>ks = A @ k # C\<close> vs(1) vs(2) [symmetric] VC by simp
        then have "deleted M 0 k v t True (Leaf a ks (vs[length A := remove1 v us]) n)"
          using md False in_pairs v assms(2) len by (simp add: deleted_def)
        ultimately show ?thesis by blast
      qed
    qed
  qed
qed

end
