(* ===== verification/Mem_Index.thy ===== *)
theory Mem_Index
  imports Mem_BTree
begin

text \<open>
  Correctness of the in-memory index of \<open>internal/index/btree.go\<close>, on the node lemmas of \<open>Mem_BTree\<close>: the
  invariant of a tree, what each exported operation does to the relation between keys and values, and the
  scan along the leaf links.

  The locale \<open>multimap_index\<close> is the contract that the query planner relies on, a finite relation with
  insertion, deletion, lookup and range scan; its interpretation is the tree itself.
\<close>

section \<open>Deletion in a subtree\<close>

lemma multi_delete_child:
  assumes "\<forall>x \<in> set A. fst x < k" "\<forall>x \<in> set C. k < fst x"
  shows "multi_delete k v (A @ B @ C) = A @ multi_delete k v B @ C"
  using assms by (simp add: multi_delete_append multi_delete_below)

lemma shape_most: "shape M h l \<Longrightarrow> shape M h r \<Longrightarrow> most M l = most M r"
  by (erule (1) shape_same) auto

lemma delete_node_deleted:
  assumes "3 \<le> M" "shape M h t" "entries_ok (entries t)" "h = 0 \<or> 2 \<le> fill t"
  shows "\<exists>d t'. delete_node M k v t = Some (d, t') \<and> deleted M h k v t d t'"
  using assms(2-4)
proof (induction h arbitrary: t)
  case 0
  from 0(1) obtain a ks vs n where t: "t = Leaf a ks vs n" by (elim shape_0E)
  show ?case using leaf_delete_deleted [OF 0(1) t 0(2)] t by simp
next
  case (Suc h)
  from Suc.prems(1) obtain ks cs where t: "t = Inner ks cs" "cs \<noteq> []" "ks = map first_key (tl cs)"
    "\<forall>c \<in> set cs. shape M h c \<and> full M c" by (elim shape_SucE)
  have ne: "\<forall>c \<in> set cs. entries c \<noteq> []" using t(4) full_entries [OF assms(1)] by blast
  have ok: "entries_ok (concat (map entries cs))" using Suc.prems(2) t by simp
  obtain A c C where loc: "cs = A @ c # C" "length A = upper_bound (map first_key (tl cs)) k"
    "\<forall>x \<in> set (concat (map entries A)). fst x < k" "\<forall>x \<in> set (concat (map entries C)). k < fst x"
    using locate_child [OF ok ne t(2)] .
  note i = loc(2) [folded t(3), symmetric]
  have c: "shape M h c" "full M c" "entries_ok (entries c)" using t(4) loc(1) ok by auto
  obtain d c' where step: "delete_node M k v c = Some (d, c')" "deleted M h k v c d c'"
    using Suc.IH [OF c(1,3)] full_fill [OF assms(1) c(2)] by auto
  have pairs: "(k, v) \<in> pairs_of (entries t) \<longleftrightarrow> (k, v) \<in> pairs_of (entries c)"
    using child_pairs [OF loc(3,4)] t(1) loc(1) by simp
  have del: "multi_delete k v (entries t) = concat (map entries A) @ multi_delete k v (entries c) @ concat (map entries C)"
    using multi_delete_child [OF loc(3,4)] t(1) loc(1) by simp
  have eq: "delete_node M k v t =
      (if \<not> d then Some (False, Inner ks (A @ c' # C))
       else Option.bind (rebalanceChild M (A @ c' # C) (length A)) (\<lambda>cs. map_option (Pair True) (recompute (Inner ks cs))))"
    using step(1) i loc(1) t(1) by (simp add: Let_def del: recompute.simps)
  show ?case
  proof (cases d)
    case False
    then have "c' = c" "(k, v) \<notin> pairs_of (entries c)" "multi_delete k v (entries c) = entries c"
      using step(2) by (auto simp: deleted_def)
    then have "delete_node M k v t = Some (False, t) \<and> deleted M (Suc h) k v t False t"
      unfolding eq using False Suc.prems(1) t(1) loc(1) pairs del by (simp add: deleted_def)
    then show ?thesis by blast
  next
    case True
    have "A @ C \<noteq> []" using Suc.prems(3) t(1) loc(1) by auto
    moreover have "\<forall>x \<in> set (A @ C). shape M h x \<and> full M x" using t(4) loc(1) by auto
    moreover have c': "shape M h c'" "least M c' \<le> Suc (fill c')" "fill c' \<le> most M c'"
      using step(2) c(1,2) same_least [of M h c c'] shape_most [of M h c c'] by (auto simp: deleted_def full_def)
    ultimately obtain cs' where r: "rebalanceChild M (A @ c' # C) (length A) = Some cs'" "rebalanced M h (A @ c' # C) cs'"
      using rebalanceChild_rebalanced [OF assms(1)] by blast
    let ?t = "Inner (map first_key (tl cs')) cs'"
    have "delete_node M k v t = Some (True, ?t)"
      using eq True r recompute_shape [OF assms(1), of cs' h] by (simp add: rebalanced_def del: recompute.simps)
    moreover have "links_shrink (leaf_links t) (leaf_links ?t)"
    proof -
      have "links_shrink (concat (map leaf_links A) @ leaf_links c @ concat (map leaf_links C))
          (concat (map leaf_links A) @ leaf_links c' @ concat (map leaf_links C))"
        using step(2) links_shrink_append by (simp add: deleted_def)
      then have "links_shrink (concat (map leaf_links (A @ c # C))) (concat (map leaf_links cs'))"
        using r(2) links_shrink_trans [of "concat (map leaf_links (A @ c' # C))"] by (simp add: rebalanced_def)
      then show ?thesis using t(1) loc(1) by simp
    qed
    moreover have "entries ?t = multi_delete k v (entries t)" using step(2) r(2) del by (simp add: rebalanced_def deleted_def)
    ultimately have "deleted M (Suc h) k v t True ?t"
      using step(2) r(2) True pairs t(1) loc(1) by (auto simp: deleted_def rebalanced_def)
    then show ?thesis using \<open>delete_node M k v t = Some (True, ?t)\<close> by blast
  qed
qed

section \<open>The chain of leaves\<close>

definition chained :: "nat \<Rightarrow> (nat \<times> nat option) list \<Rightarrow> bool" where
  "chained fresh L \<longleftrightarrow>
     map snd L = map (Some \<circ> fst) (tl L) @ [None] \<and> distinct (map fst L) \<and> (\<forall>p \<in> set L. fst p < fresh)"

lemma chained_split:
  "map snd (A @ (a, n) # C) = map (Some \<circ> fst) (tl (A @ (a, n) # C)) @ [None] \<longleftrightarrow>
    map snd A = map (Some \<circ> fst) (tl (A @ [(a, n)])) \<and>
    n # map snd C = map (Some \<circ> fst) C @ [None]"
proof -
  have "length (map snd A) = length (map (Some \<circ> fst) (tl (A @ [(a, n)])))" by simp
  moreover have "map (Some \<circ> fst) (tl (A @ (a, n) # C)) = map (Some \<circ> fst) (tl (A @ [(a, n)])) @ map (Some \<circ> fst) C"
    by (cases A) simp_all
  ultimately show ?thesis by (simp add: append_eq_append_conv)
qed

lemma tl_snoc_fst: "map (Some \<circ> fst) (tl (A @ [(a, n)])) = map (Some \<circ> fst) (tl (A @ [(a, m)]))"
  by (cases A) simp_all

lemma chained_grow:
  assumes "links_grow f L f' L'" "chained f L"
  shows "chained f' L'"
proof -
  have "chained (f + 1) (A @ (a, Some f) # (f, n) # C)" if "chained f (A @ (a, n) # C)" for A a n C
  proof -
    have "map snd A = map (Some \<circ> fst) (tl (A @ [(a, Some f)]))" "n # map snd C = map (Some \<circ> fst) C @ [None]"
      using that unfolding chained_def chained_split by (simp_all only: tl_snoc_fst [of A a n "Some f"])
    then have "map snd (A @ (a, Some f) # (f, n) # C) = map (Some \<circ> fst) (tl (A @ (a, Some f) # (f, n) # C)) @ [None]"
      unfolding chained_split by simp
    then show ?thesis using that unfolding chained_def by (auto simp: less_Suc_eq)
  qed
  then show ?thesis using assms unfolding links_grow_def by auto
qed

lemma chained_shrink: "links_shrink L L' \<Longrightarrow> chained f L \<Longrightarrow> chained f L'"
proof (induction rule: links_shrink.induct)
  case (links_merge L A a x b n C)
  then have c: "chained f (A @ (a, x) # (b, n) # C)" by simp
  then have "map snd A = map (Some \<circ> fst) (tl (A @ [(a, n)]))" "n # map snd C = map (Some \<circ> fst) C @ [None]"
    unfolding chained_def chained_split by (simp_all add: tl_snoc_fst [of A a x n])
  then show ?case using c unfolding chained_def chained_split by auto
qed simp

section \<open>Trees\<close>

definition total :: "entry list \<Rightarrow> nat" where
  "total es = sum_list (map (length \<circ> snd) es)"

definition tree_ok :: "Tree \<Rightarrow> bool" where
  "tree_ok t \<longleftrightarrow>
     3 \<le> maxKeys t \<and>
     (\<exists>h. shape (maxKeys t) h (root t) \<and> (h = 0 \<or> 2 \<le> fill (root t))) \<and> fill (root t) \<le> most (maxKeys t) (root t) \<and>
     entries_ok (entries (root t)) \<and> (\<forall>e \<in> set (entries (root t)). fst e \<noteq> []) \<and>
     tree_size t = total (entries (root t)) \<and> chained (fresh_addr t) (leaf_links (root t))"

definition contents :: "Tree \<Rightarrow> Pair set" where
  "contents t = pairs_of (entries (root t))"

lemma total_simps [simp]: "total [] = 0" "total ((k, vs) # es) = length vs + total es" "total (es @ fs) = total es + total fs"
  by (simp_all add: total_def)

lemma total_insert: "entries_ok es \<Longrightarrow> (k, v) \<notin> pairs_of es \<Longrightarrow> total (multi_insert k v es) = total es + 1"
  by (induction k v es rule: multi_insert.induct) (auto simp: insort_insert_key_def)

lemma total_delete: "entries_ok es \<Longrightarrow> (k, v) \<in> pairs_of es \<Longrightarrow> total (multi_delete k v es) + 1 = total es"
proof (induction k v es rule: multi_delete.induct)
  case (2 k v k' vs es)
  show ?case
  proof (cases "k = k'")
    case True
    have "(k, v) \<notin> pairs_of es" using pairs_of_key [of k v es] "2.prems"(1) True by auto
    then have v: "v \<in> set vs" using "2.prems"(2) True by auto
    then have "length (remove1 v vs) + 1 = length vs" using length_pos_if_in_set [OF v] by (simp add: length_remove1)
    then show ?thesis using True by (cases "remove1 v vs = []") simp_all
  next
    case False
    then show ?thesis using 2 by auto
  qed
qed simp

lemma total_zero: "entries_ok es \<Longrightarrow> total es = 0 \<longleftrightarrow> es = []"
  by (cases es) (auto simp: values_ok_def)

lemma shape_root: "3 \<le> M \<Longrightarrow> shape M h l \<Longrightarrow> shape M h r \<Longrightarrow> full M l \<Longrightarrow> full M r \<Longrightarrow>
    recompute (Inner [] [l, r]) = Some (Inner [first_key r] [l, r]) \<and> shape M (Suc h) (Inner [first_key r] [l, r])"
  using recompute_shape [of M "[l, r]" h "[]"] by simp

lemma Insert_ok:
  assumes "tree_ok t" "key \<noteq> []"
  shows "\<exists>t'. Insert key v t = Some ((key, v) \<notin> contents t, t') \<and> tree_ok t' \<and> maxKeys t' = maxKeys t \<and>
    entries (root t') = multi_insert key v (entries (root t))"
proof -
  let ?M = "maxKeys t" and ?f = "fresh_addr t"
  obtain h where t: "3 \<le> ?M" "shape ?M h (root t)" "h = 0 \<or> 2 \<le> fill (root t)" "fill (root t) \<le> most ?M (root t)"
    "entries_ok (entries (root t))" "\<forall>e \<in> set (entries (root t)). fst e \<noteq> []" "tree_size t = total (entries (root t))"
    "chained ?f (leaf_links (root t))" using assms(1) unfolding tree_ok_def by blast
  obtain added r sp f' where step: "insert_node ?M key v ?f (root t) = Some (added, r, sp, f')"
    "inserted ?M h key v ?f (root t) added r sp f'" using insert_node_inserted [OF t(1,2,5,4)] by blast
  have added: "added = ((key, v) \<notin> contents t)" using step(2) by (simp add: inserted_def contents_def)
  have "[] \<notin> fst ` set (multi_insert key v (entries (root t)))"
    unfolding fst_multi_insert using t(6) assms(2) by auto
  then have new: "entries_ok (multi_insert key v (entries (root t)))" "\<forall>e \<in> set (multi_insert key v (entries (root t))). fst e \<noteq> []"
    using multi_insert_ok [OF t(5)] by force+
  show ?thesis
  proof (cases added)
    case False
    then have "r = root t" "f' = ?f" "multi_insert key v (entries (root t)) = entries (root t)"
      using step(2) by (auto simp: inserted_def)
    then show ?thesis using step(1) False added assms by (simp add: Insert_def)
  next
    case True
    have size: "total (multi_insert key v (entries (root t))) = tree_size t + 1"
      using total_insert [OF t(5)] True step(2) t(7) by (simp add: inserted_def)
    have leaf_links: "chained f' (concat (map leaf_links (parts r sp)))"
      using step(2) chained_grow [OF _ t(8)] by (simp add: inserted_def)
    show ?thesis
    proof (cases sp)
      case None
      then show ?thesis
        using step True added new size leaf_links t(1-3) assms(2)
        by (auto simp: Insert_def inserted_def tree_ok_def)
    next
      case (Some s)
      let ?r = "Inner [first_key (right_node s)] [r, right_node s]"
      have "shape ?M h r" "shape ?M h (right_node s)" "full ?M r" "full ?M (right_node s)"
        using step(2) Some by (simp_all add: inserted_def)
      note root = shape_root [OF t(1) this]
      have "Insert key v t = Some (True, t\<lparr>fresh_addr := f', tree_size := tree_size t + 1, root := ?r\<rparr>)"
        using step(1) True Some root assms(2) by (simp add: Insert_def Let_def del: recompute.simps)
      moreover have "entries ?r = multi_insert key v (entries (root t))" "leaf_links ?r = concat (map leaf_links (parts r sp))"
        using step(2) Some by (simp_all add: inserted_def)
      moreover have "\<exists>h. shape ?M h ?r \<and> (h = 0 \<or> 2 \<le> fill ?r)" using root by (intro exI [of _ "Suc h"]) simp
      ultimately show ?thesis using True added new size leaf_links t(1) by (simp add: tree_ok_def)
    qed
  qed
qed

lemma collapse_ok:
  assumes "3 \<le> M" "shape M h r" "fill r \<le> most M r" "0 < h \<Longrightarrow> 0 < fill r"
  shows "\<exists>h. shape M h (collapse r) \<and> (h = 0 \<or> 2 \<le> fill (collapse r))"
    "fill (collapse r) \<le> most M (collapse r)" "entries (collapse r) = entries r" "leaf_links (collapse r) = leaf_links r"
proof -
  have "(\<exists>h. shape M h (collapse r) \<and> (h = 0 \<or> 2 \<le> fill (collapse r))) \<and>
    fill (collapse r) \<le> most M (collapse r) \<and> entries (collapse r) = entries r \<and> leaf_links (collapse r) = leaf_links r"
    using assms(2-4)
  proof (induction r arbitrary: h rule: collapse.induct)
    case (1 a ks vs n)
    then have "h = 0" by (cases h) auto
    then show ?case using "1.prems" by (intro conjI exI [of _ 0]) simp_all
  next
    case (2 ks)
    then show ?case by (cases h) auto
  next
    case (3 ks c)
    then obtain g where h: "h = Suc g" "shape M g c" "full M c" by (cases h) auto
    then show ?case using "3.IH" [of g] full_fill [OF assms(1) h(3)] by (simp add: full_def)
  next
    case (4 ks c d cs)
    then show ?case by (intro conjI exI [of _ h]) simp_all
  qed
  then show "\<exists>h. shape M h (collapse r) \<and> (h = 0 \<or> 2 \<le> fill (collapse r))"
    "fill (collapse r) \<le> most M (collapse r)" "entries (collapse r) = entries r" "leaf_links (collapse r) = leaf_links r"
    by blast+
qed

lemma Delete_ok:
  assumes "tree_ok t" "key \<noteq> []"
  shows "\<exists>t'. Delete key v t = Some ((key, v) \<in> contents t, t') \<and> tree_ok t' \<and> maxKeys t' = maxKeys t \<and>
    entries (root t') = multi_delete key v (entries (root t))"
proof -
  let ?M = "maxKeys t"
  obtain h where t: "3 \<le> ?M" "shape ?M h (root t)" "h = 0 \<or> 2 \<le> fill (root t)" "fill (root t) \<le> most ?M (root t)"
    "entries_ok (entries (root t))" "\<forall>e \<in> set (entries (root t)). fst e \<noteq> []" "tree_size t = total (entries (root t))"
    "chained (fresh_addr t) (leaf_links (root t))" using assms(1) unfolding tree_ok_def by blast
  obtain d r where step: "delete_node ?M key v (root t) = Some (d, r)" "deleted ?M h key v (root t) d r"
    using delete_node_deleted [OF t(1,2,5,3)] by blast
  have d: "d = ((key, v) \<in> contents t)" using step(2) by (simp add: deleted_def contents_def)
  show ?thesis
  proof (cases d)
    case False
    then have "r = root t" "multi_delete key v (entries (root t)) = entries (root t)" using step(2) by (auto simp: deleted_def)
    then show ?thesis using step(1) False d assms by (simp add: Delete_def)
  next
    case True
    let ?es = "multi_delete key v (entries (root t))"
    have "[] \<notin> fst ` set (entries (root t))" using t(6) by auto
    then have "[] \<notin> fst ` set ?es" using fst_multi_delete [of key v "entries (root t)"] by blast
    then have new: "entries_ok ?es" "\<forall>e \<in> set ?es. fst e \<noteq> []" using multi_delete_ok [OF t(5)] by force+
    have r: "shape ?M h r" "fill r \<le> most ?M r" "0 < h \<Longrightarrow> 0 < fill r" "entries r = ?es"
      using step(2) t(2-4) shape_most [OF t(2), of r] by (auto simp: deleted_def)
    note c = collapse_ok [OF t(1) r(1-3)]
    have leaf_links: "chained (fresh_addr t) (leaf_links (collapse r))"
      using step(2) chained_shrink [OF _ t(8)] c(4) by (simp add: deleted_def)
    have size: "tree_size t - 1 = total ?es" using total_delete [OF t(5), of key v] True step(2) t(7) by (simp add: deleted_def)
    show ?thesis
    proof (cases "?es = []")
      case True
      then show ?thesis
        using step(1) \<open>d\<close> d assms(2) size t(1) by (auto simp: Delete_def Let_def tree_ok_def chained_def intro: exI [of _ 0])
    next
      case False
      then have "total ?es \<noteq> 0" using total_zero [OF new(1)] by simp
      then show ?thesis
        using step(1) \<open>d\<close> d assms(2) c leaf_links size new r(4) t(1) by (simp add: Delete_def Let_def tree_ok_def)
    qed
  qed
qed

lemma New_ok: "tree_ok New" "tree_ok (NewWithOrder n)" "contents New = {}" "contents (NewWithOrder n) = {}"
  by (auto simp: tree_ok_def New_def NewWithOrder_def defaultMaxKeys_def chained_def contents_def intro: exI [of _ 0])

section \<open>Lookup\<close>

definition leaf_entries :: "(nat \<times> bytes list \<times> bytes list list \<times> nat option) list \<Rightarrow> entry list" where
  "leaf_entries ls = concat (map (\<lambda>(a, ks, vs, n). zip ks vs) ls)"

lemma leaf_entries_simps [simp]:
  "leaf_entries [] = []" "leaf_entries ((a, ks, vs, n) # ls) = zip ks vs @ leaf_entries ls"
  "leaf_entries (ls @ ms) = leaf_entries ls @ leaf_entries ms"
  by (simp_all add: leaf_entries_def)

lemma leaf_entries_concat: "leaf_entries (concat lss) = concat (map leaf_entries lss)"
  by (induction lss) simp_all

lemma leaf_entries_leaves: "leaf_entries (leaves t) = entries t"
proof (induction t)
  case (Inner ks cs)
  then have "map (leaf_entries \<circ> leaves) cs = map entries cs" by simp
  then show ?case by (simp only: leaves.simps entries.simps leaf_entries_concat map_map)
qed simp

lemma links_leaves: "leaf_links t = map (\<lambda>(a, ks, vs, n). (a, n)) (leaves t)"
proof (induction t)
  case (Inner ks cs)
  then have "map leaf_links cs = map (map (\<lambda>(a, ks, vs, n). (a, n)) \<circ> leaves) cs" by simp
  then show ?case by (simp only: leaves.simps leaf_links.simps map_concat map_map)
qed simp

lemma leaf_entries_children: "leaf_entries (concat (map leaves cs)) = concat (map entries cs)"
  by (simp add: leaf_entries_concat leaf_entries_leaves o_def)

definition found_leaf :: "bytes \<Rightarrow> node \<Rightarrow> nat \<Rightarrow> bytes list \<Rightarrow> bytes list list \<Rightarrow> nat option \<Rightarrow> bool" where
  "found_leaf key t a ks vs n \<longleftrightarrow>
     findLeaf key t = Some (Leaf a ks vs n) \<and> length vs = length ks \<and>
     (\<exists>A C. leaves t = A @ (a, ks, vs, n) # C \<and> (\<forall>x \<in> set (leaf_entries A). fst x < key) \<and>
        (\<forall>x \<in> set (leaf_entries C). key < fst x))"

lemma findLeaf_found:
  assumes "3 \<le> M" "shape M h t" "entries_ok (entries t)"
  shows "\<exists>a ks vs n. found_leaf key t a ks vs n"
  using assms(2,3)
proof (induction h arbitrary: t)
  case 0
  from 0(1) obtain a ks vs n where "t = Leaf a ks vs n" "length vs = length ks" by (elim shape_0E)
  then have "found_leaf key t a ks vs n" unfolding found_leaf_def by (simp, intro exI [of _ "[]"]) simp
  then show ?case by blast
next
  case (Suc h)
  from Suc.prems(1) obtain ks cs where t: "t = Inner ks cs" "cs \<noteq> []" "ks = map first_key (tl cs)"
    "\<forall>c \<in> set cs. shape M h c \<and> full M c" by (elim shape_SucE)
  have ne: "\<forall>c \<in> set cs. entries c \<noteq> []" using t(4) full_entries [OF assms(1)] by blast
  have ok: "entries_ok (concat (map entries cs))" using Suc.prems(2) t by simp
  obtain A c C where loc: "cs = A @ c # C" "length A = upper_bound (map first_key (tl cs)) key"
    "\<forall>x \<in> set (concat (map entries A)). fst x < key" "\<forall>x \<in> set (concat (map entries C)). key < fst x"
    using locate_child [OF ok ne t(2)] .
  obtain a ls vs n where f: "found_leaf key c a ls vs n" using Suc.IH [of c] t(4) loc(1) ok by auto
  then obtain B D where B: "leaves c = B @ (a, ls, vs, n) # D" "\<forall>x \<in> set (leaf_entries B). fst x < key"
    "\<forall>x \<in> set (leaf_entries D). key < fst x" unfolding found_leaf_def by blast
  have "findLeaf key t = findLeaf key c" using t(1,3) loc(1) loc(2) [symmetric] by simp
  moreover have "leaves t = (concat (map leaves A) @ B) @ (a, ls, vs, n) # (D @ concat (map leaves C))"
    using t(1) loc(1) B(1) by simp
  moreover have "\<forall>x \<in> set (leaf_entries (concat (map leaves A) @ B)). fst x < key"
    "\<forall>x \<in> set (leaf_entries (D @ concat (map leaves C))). key < fst x"
    using loc(3,4) B(2,3) by (auto simp: leaf_entries_children)
  ultimately have "found_leaf key t a ls vs n" using f unfolding found_leaf_def by metis
  then show ?case by blast
qed

lemma map_of_middle: "\<forall>x \<in> set A. fst x \<noteq> k \<Longrightarrow> map_of (A @ B) k = map_of B k"
  by (induction A) (auto simp: map_add_def)

lemma map_of_outside: "\<forall>x \<in> set C. fst x \<noteq> k \<Longrightarrow> map_of (B @ C) k = map_of B k"
proof -
  assume "\<forall>x \<in> set C. fst x \<noteq> k"
  then have "map_of C k = None" by (force simp: map_of_eq_None_iff)
  then show ?thesis by (simp add: map_add_def split: option.split)
qed

lemma Get_ok:
  assumes "tree_ok t"
  shows "Get key t = Some (case map_of (entries (root t)) key of None \<Rightarrow> [] | Some vs \<Rightarrow> vs)"
proof -
  obtain h where t: "3 \<le> maxKeys t" "shape (maxKeys t) h (root t)" "entries_ok (entries (root t))"
    using assms unfolding tree_ok_def by blast
  obtain a ks vs n where f: "found_leaf key (root t) a ks vs n" using findLeaf_found [OF t] by blast
  then obtain A C where loc: "leaves (root t) = A @ (a, ks, vs, n) # C" "\<forall>x \<in> set (leaf_entries A). fst x < key"
    "\<forall>x \<in> set (leaf_entries C). key < fst x" unfolding found_leaf_def by blast
  have e: "entries (root t) = leaf_entries A @ zip ks vs @ leaf_entries C"
    using loc(1) leaf_entries_leaves [of "root t"] by simp
  have "\<forall>x \<in> set (leaf_entries A). fst x \<noteq> key" "\<forall>x \<in> set (leaf_entries C). fst x \<noteq> key" using loc(2,3) by auto
  then have m: "map_of (entries (root t)) key = map_of (zip ks vs) key"
    unfolding e by (simp only: map_of_middle map_of_outside)
  have len: "length vs = length ks" using f by (simp add: found_leaf_def)
  have sorted: "sorted_wrt (<) ks" using t(3) len unfolding e by (simp add: entries_ok_def sorted_wrt_append)
  have fl: "findLeaf key (root t) = Some (Leaf a ks vs n)" using f by (simp add: found_leaf_def)
  from sorted show ?thesis
  proof (cases rule: lower_bound_cases [of ks key])
    case (found B D)
    note at = nth_at [OF found(1,2)]
    have "map_of (zip ks vs) key = Some (vs ! lower_bound ks key)"
      using at len sorted by (metis map_of_zip_nth strict_sorted_iff)
    then show ?thesis using at fl m len by (simp add: Get_def Let_def elem_at_def)
  next
    case (absent B D)
    then have "map_of (zip ks vs) key = None" using len by (simp add: map_of_zip_is_None)
    then show ?thesis using absent(5) fl m by (auto simp: Get_def Let_def)
  qed
qed

section \<open>Scans\<close>

definition in_range :: "bytes \<Rightarrow> bytes \<Rightarrow> bool \<Rightarrow> bytes \<Rightarrow> bool" where
  "in_range start stop includeEnd k \<longleftrightarrow>
     (start = [] \<or> start \<le> k) \<and> (stop = [] \<or> k < stop \<or> includeEnd \<and> k = stop)"

definition pairs_in :: "bytes \<Rightarrow> bytes \<Rightarrow> bool \<Rightarrow> entry list \<Rightarrow> Pair list" where
  "pairs_in start stop includeEnd es =
     concat (map (\<lambda>(k, vs). map (Pair k) vs) (filter (\<lambda>e. in_range start stop includeEnd (fst e)) es))"

lemma pairs_in_simps [simp]:
  "pairs_in s e i [] = []"
  "pairs_in s e i ((k, vs) # es) = (if in_range s e i k then map (Pair k) vs else []) @ pairs_in s e i es"
  "pairs_in s e i (es @ fs) = pairs_in s e i es @ pairs_in s e i fs"
  by (simp_all add: pairs_in_def)

lemma pairs_in_none: "\<forall>x \<in> set es. \<not> in_range s e i (fst x) \<Longrightarrow> pairs_in s e i es = []"
  by (simp add: pairs_in_def)

definition past :: "bytes \<Rightarrow> bool \<Rightarrow> bytes \<Rightarrow> bool" where
  "past stop includeEnd k \<longleftrightarrow> stop \<noteq> [] \<and> (stop < k \<or> k = stop \<and> \<not> includeEnd)"

lemma past_above:
  assumes "past e i k" "k < l"
  shows "\<not> in_range s e i l"
proof -
  have "e \<noteq> []" "e < l" using assms by (auto simp: past_def)
  then show ?thesis by (auto simp: in_range_def)
qed

lemma scan_leaf_ok:
  assumes "length vs = length ks" "entries_ok (zip ks vs @ es)"
  shows "\<exists>ps ended. scan_leaf s e i ks vs = Some (ps, ended) \<and> ps = pairs_in s e i (zip ks vs) \<and>
    (ended \<longrightarrow> pairs_in s e i es = [])"
  using assms
proof (induction ks arbitrary: vs)
  case (Cons k ks)
  obtain us vs' where vs: "vs = us # vs'" "length vs' = length ks" using Cons.prems(1) by (cases vs) auto
  have above: "\<forall>x \<in> set (zip ks vs' @ es). k < fst x" and ok: "entries_ok (zip ks vs' @ es)"
    using Cons.prems(2) vs(1) by auto
  obtain ps ended where IH: "scan_leaf s e i ks vs' = Some (ps, ended)" "ps = pairs_in s e i (zip ks vs')"
    "ended \<longrightarrow> pairs_in s e i es = []" using Cons.IH [OF vs(2) ok] by blast
  consider "s \<noteq> []" "k < s" | "s = [] \<or> s \<le> k" "past e i k" | "s = [] \<or> s \<le> k" "\<not> past e i k" by force
  then show ?case
  proof cases
    case 1
    then show ?thesis using IH vs(1) by (auto simp: in_range_def)
  next
    case 2
    then have "\<forall>x \<in> set (zip ks vs' @ es). \<not> in_range s e i (fst x)"
      using above past_above by blast
    then have "pairs_in s e i (zip ks vs') = []" "pairs_in s e i es = []" by (simp_all add: pairs_in_none)
    moreover have "\<not> in_range s e i k" using 2(2) unfolding past_def in_range_def by auto
    moreover have "scan_leaf s e i (k # ks) vs = Some ([], True)" using 2 by (auto simp: past_def)
    ultimately show ?thesis using vs(1) by (auto simp del: scan_leaf.simps)
  next
    case 3
    then have "in_range s e i k" unfolding past_def in_range_def by auto
    moreover have "scan_leaf s e i (k # ks) vs = Some (map (Pair k) us @ ps, ended)"
      using 3 IH(1) vs(1) by (auto simp: past_def elem_at_def)
    ultimately show ?thesis using IH vs(1) by (simp del: scan_leaf.simps)
  qed
qed auto

lemma scan_chain_ok:
  assumes "ls = A @ (a, ks, vs, n) # C" "distinct (map fst ls)"
    "n # map (\<lambda>(a, ks, vs, n). n) C = map (Some \<circ> fst) C @ [None]"
    "\<forall>(a, ks, vs, n) \<in> set ls. length vs = length ks" "entries_ok (leaf_entries ((a, ks, vs, n) # C))"
  shows "scan_chain s e i ls (Some a) = Some (pairs_in s e i (leaf_entries ((a, ks, vs, n) # C)))"
  using assms
proof (induction C arbitrary: A a ks vs n)
  case Nil
  have "map_of ls a = Some (ks, vs, n)" using Nil.prems(1,2) by (intro map_of_is_SomeI) simp_all
  moreover have "length vs = length ks" using Nil.prems(1,4) by auto
  then obtain ps ended where "scan_leaf s e i ks vs = Some (ps, ended)" "ps = pairs_in s e i (zip ks vs)"
    using scan_leaf_ok [of vs ks "[]" s e i] Nil.prems(5) by auto
  moreover have "scan_chain s e i ls None = Some []" unfolding scan_chain.simps [of s e i ls None] by simp
  moreover have "n = None" using Nil.prems(3) by simp
  ultimately show ?case unfolding scan_chain.simps [of s e i ls "Some a"] by simp
next
  case (Cons l C)
  obtain b ks' vs' n' where l: "l = (b, ks', vs', n')" by (cases l)
  have a: "map_of ls a = Some (ks, vs, n)" using Cons.prems(1,2) by (intro map_of_is_SomeI) simp_all
  have "length vs = length ks" using Cons.prems(1,4) by auto
  then obtain ps ended where leaf: "scan_leaf s e i ks vs = Some (ps, ended)" "ps = pairs_in s e i (zip ks vs)"
    "ended \<longrightarrow> pairs_in s e i (leaf_entries (l # C)) = []"
    using scan_leaf_ok [of vs ks "leaf_entries (l # C)" s e i] Cons.prems(5) by auto
  have n: "n = Some b" using Cons.prems(3) l by simp
  have "scan_chain s e i ls (Some b) = Some (pairs_in s e i (leaf_entries ((b, ks', vs', n') # C)))"
    using Cons.prems l by (intro Cons.IH [of "A @ [(a, ks, vs, n)]"]) auto
  then show ?case
    unfolding scan_chain.simps [of s e i ls "Some a"] using a leaf n l by simp
qed

lemma shape_leaves: "shape M h t \<Longrightarrow> \<forall>(a, ks, vs, n) \<in> set (leaves t). length vs = length ks"
proof (induction h arbitrary: t)
  case 0
  then show ?case by (elim shape_0E) simp
next
  case (Suc h)
  from Suc.prems show ?case by (elim shape_SucE) (use Suc.IH in fastforce)
qed

lemma Scan_ok:
  assumes "tree_ok t"
  shows "Scan start stop includeEnd t = Some (pairs_in start stop includeEnd (entries (root t)))"
proof -
  obtain h where t: "3 \<le> maxKeys t" "shape (maxKeys t) h (root t)" "entries_ok (entries (root t))"
    "chained (fresh_addr t) (leaf_links (root t))" using assms unfolding tree_ok_def by blast
  obtain a ks vs n where f: "found_leaf start (root t) a ks vs n" using findLeaf_found [OF t(1-3)] by blast
  then obtain A C where loc: "leaves (root t) = A @ (a, ks, vs, n) # C" "\<forall>x \<in> set (leaf_entries A). fst x < start"
    unfolding found_leaf_def by blast
  have e: "entries (root t) = leaf_entries A @ leaf_entries ((a, ks, vs, n) # C)"
    using loc(1) leaf_entries_leaves [of "root t"] by simp
  have leaf_links: "leaf_links (root t) = map (\<lambda>(a, ks, vs, n). (a, n)) A @ (a, n) # map (\<lambda>(a, ks, vs, n). (a, n)) C"
    using loc(1) by (simp add: links_leaves)
  have "n # map snd (map (\<lambda>(a, ks, vs, n). (a, n)) C) = map (Some \<circ> fst) (map (\<lambda>(a, ks, vs, n). (a, n)) C) @ [None]"
    using t(4) unfolding leaf_links chained_def chained_split by blast
  then have next_ok: "n # map (\<lambda>(a, ks, vs, n). n) C = map (Some \<circ> fst) C @ [None]"
    by (simp add: o_def case_prod_unfold)
  have "map fst (leaves (root t)) = map fst (leaf_links (root t))" by (simp add: links_leaves o_def case_prod_unfold)
  then have "distinct (map fst (leaves (root t)))" using t(4) by (simp add: chained_def)
  then have "scan_chain start stop includeEnd (leaves (root t)) (Some a) =
      Some (pairs_in start stop includeEnd (leaf_entries ((a, ks, vs, n) # C)))"
    using scan_chain_ok [OF loc(1) _ next_ok shape_leaves [OF t(2)]] t(3) e by simp
  moreover have "pairs_in start stop includeEnd (leaf_entries A) = []"
  proof (rule pairs_in_none)
    show "\<forall>x \<in> set (leaf_entries A). \<not> in_range start stop includeEnd (fst x)"
      using loc(2) by (auto simp: in_range_def)
  qed
  moreover have "findLeaf start (root t) = Some (Leaf a ks vs n)" using f by (simp add: found_leaf_def)
  ultimately show ?thesis unfolding e by (simp add: Scan_def)
qed

section \<open>The contract of an index\<close>

lemma card_pairs_of: "entries_ok es \<Longrightarrow> finite (pairs_of es) \<and> card (pairs_of es) = total es"
proof (induction es)
  case (Cons e es)
  obtain k vs where e: "e = (k, vs)" by (cases e)
  have "distinct vs" using Cons.prems e by (simp add: values_ok_def strict_sorted_iff)
  then have "card (Pair k ` set vs) = length vs" by (simp add: card_image inj_on_def distinct_card)
  moreover have "Pair k ` set vs \<inter> pairs_of es = {}" using pairs_of_key [of k _ es] Cons.prems e by auto
  ultimately show ?case using Cons e by (simp add: card_Un_disjoint)
qed simp

lemma map_of_pairs:
  assumes "entries_ok es"
  shows "set (case map_of es k of None \<Rightarrow> [] | Some vs \<Rightarrow> vs) = {v. (k, v) \<in> pairs_of es} \<and>
    sorted_wrt (<) (case map_of es k of None \<Rightarrow> [] | Some vs \<Rightarrow> vs)"
proof (cases "map_of es k")
  case None
  then have "k \<notin> fst ` set es" by (simp add: map_of_eq_None_iff)
  then show ?thesis using None pairs_of_key [of k _ es] by auto
next
  case (Some vs)
  have "distinct (map fst es)" using assms by (simp add: entries_ok_def strict_sorted_iff)
  then have "(k, ws) \<in> set es \<longleftrightarrow> ws = vs" for ws
    using eq_key_imp_eq_value [of es k ws vs] map_of_SomeD [OF Some] by blast
  then have "set vs = {v. (k, v) \<in> pairs_of es}" by (auto simp: pairs_of_def)
  moreover have "sorted_wrt (<) vs" using assms map_of_SomeD [OF Some] by (auto simp: entries_ok_def values_ok_def)
  ultimately show ?thesis using Some by simp
qed

text \<open>The values of the abstraction are pairs of a key and a value; operations on an empty key are refused.\<close>

locale multimap_index =
  fixes invar :: "'s \<Rightarrow> bool"
    and relation :: "'s \<Rightarrow> Pair set"
    and ins :: "bytes \<Rightarrow> bytes \<Rightarrow> 's \<Rightarrow> (bool \<times> 's) option"
    and del :: "bytes \<Rightarrow> bytes \<Rightarrow> 's \<Rightarrow> (bool \<times> 's) option"
    and get :: "bytes \<Rightarrow> 's \<Rightarrow> bytes list option"
  assumes ins_law: "invar s \<Longrightarrow> \<exists>s'. ins k v s = Some (k \<noteq> [] \<and> (k, v) \<notin> relation s, s') \<and> invar s' \<and>
      relation s' = (if k = [] then relation s else insert (k, v) (relation s))"
    and del_law: "invar s \<Longrightarrow> \<exists>s'. del k v s = Some ((k, v) \<in> relation s, s') \<and> invar s' \<and> relation s' = relation s - {(k, v)}"
    and get_law: "invar s \<Longrightarrow> \<exists>vs. get k s = Some vs \<and> sorted_wrt (<) vs \<and> set vs = {v. (k, v) \<in> relation s}"
begin

lemma get_unique: "invar s \<Longrightarrow> invar s' \<Longrightarrow> relation s = relation s' \<Longrightarrow> get k s = get k s'"
  using get_law [of s k] get_law [of s' k] by (metis strict_sorted_equal)

lemma ins_del:
  assumes "invar s" "k \<noteq> []" "(k, v) \<notin> relation s"
  shows "\<exists>s1 s2. ins k v s = Some (True, s1) \<and> del k v s1 = Some (True, s2) \<and> invar s2 \<and> relation s2 = relation s \<and>
    (\<forall>k'. get k' s2 = get k' s)"
proof -
  obtain s1 where s1: "ins k v s = Some (True, s1)" "invar s1" "relation s1 = insert (k, v) (relation s)"
    using ins_law [OF assms(1), of k v] assms(2,3) by auto
  obtain s2 where s2: "del k v s1 = Some (True, s2)" "invar s2" "relation s2 = relation s"
    using del_law [OF s1(2), of k v] s1(3) assms(3) by auto
  then show ?thesis using s1(1) get_unique [OF s2(2) assms(1) s2(3)] by blast
qed

lemma get_ins_other:
  assumes "invar s" "ins k v s = Some (b, s1)" "k' \<noteq> k"
  shows "get k' s1 = get k' s"
proof -
  obtain s' where "ins k v s = Some (k \<noteq> [] \<and> (k, v) \<notin> relation s, s')" "invar s'"
    "relation s' = (if k = [] then relation s else insert (k, v) (relation s))" using ins_law [OF assms(1), of k v] by blast
  then have s1: "invar s1" "relation s1 = (if k = [] then relation s else insert (k, v) (relation s))" using assms(2) by auto
  have same: "{v. (k', v) \<in> relation s1} = {v. (k', v) \<in> relation s}" using s1(2) assms(3) by (auto split: if_splits)
  obtain vs where vs: "get k' s1 = Some vs" "sorted_wrt (<) vs" "set vs = {v. (k', v) \<in> relation s1}"
    using get_law [OF s1(1)] by blast
  obtain ws where ws: "get k' s = Some ws" "sorted_wrt (<) ws" "set ws = {v. (k', v) \<in> relation s}"
    using get_law [OF assms(1)] by blast
  have "vs = ws" using strict_sorted_equal [OF vs(2) ws(2)] vs(3) ws(3) same by simp
  then show ?thesis using vs(1) ws(1) by simp
qed

end

interpretation tree: multimap_index tree_ok contents Insert Delete Get
proof
  fix s :: Tree and k v
  assume s: "tree_ok s"
  then have es: "entries_ok (entries (root s))" by (simp add: tree_ok_def)
  show "\<exists>s'. Insert k v s = Some (k \<noteq> [] \<and> (k, v) \<notin> contents s, s') \<and> tree_ok s' \<and>
      contents s' = (if k = [] then contents s else insert (k, v) (contents s))"
    using Insert_ok [OF s, of k v] multi_insert_ok [OF es, of k v] s
    by (cases "k = []") (auto simp: Insert_def contents_def)
  have "[] \<notin> fst ` set (entries (root s))" using s unfolding tree_ok_def by force
  then have "(k, v) \<notin> contents s" if "k = []" using that pairs_of_key unfolding contents_def by blast
  then show "\<exists>s'. Delete k v s = Some ((k, v) \<in> contents s, s') \<and> tree_ok s' \<and> contents s' = contents s - {(k, v)}"
    using Delete_ok [OF s, of k v] multi_delete_ok [OF es, of k v] s
    by (cases "k = []") (auto simp: Delete_def contents_def)
  show "\<exists>vs. Get k s = Some vs \<and> sorted_wrt (<) vs \<and> set vs = {v. (k, v) \<in> contents s}"
    using Get_ok [OF s, of k] map_of_pairs [OF es, of k] by (auto simp: contents_def)
qed

section \<open>Trees that programs build\<close>

inductive built :: "Tree \<Rightarrow> bool" where
  "built New"
| "built (NewWithOrder n)"
| "built t \<Longrightarrow> Insert k v t = Some (b, t') \<Longrightarrow> built t'"
| "built t \<Longrightarrow> Delete k v t = Some (b, t') \<Longrightarrow> built t'"

lemma built_ok: "built t \<Longrightarrow> tree_ok t"
proof (induction rule: built.induct)
  case (3 t k v b t')
  then show ?case using tree.ins_law [of t k v] by auto
next
  case (4 t k v b t')
  then show ?case using tree.del_law [of t k v] by auto
qed (simp_all add: New_ok)

definition pair_less :: "Pair \<Rightarrow> Pair \<Rightarrow> bool" where
  "pair_less p q \<longleftrightarrow> fst p < fst q \<or> fst p = fst q \<and> snd p < snd q"

lemma pairs_in_ok:
  assumes "entries_ok es"
  shows "set (pairs_in s e i es) = {p \<in> pairs_of es. in_range s e i (fst p)} \<and> sorted_wrt pair_less (pairs_in s e i es)"
  using assms
proof (induction es)
  case (Cons x es)
  obtain k vs where x: "x = (k, vs)" by (cases x)
  have IH: "set (pairs_in s e i es) = {p \<in> pairs_of es. in_range s e i (fst p)}" "sorted_wrt pair_less (pairs_in s e i es)"
    using Cons by auto
  have "k < fst p" if "p \<in> pairs_of es" for p using that pairs_of_key [of "fst p" "snd p" es] Cons.prems x by auto
  moreover have "sorted_wrt pair_less (map (Pair k) vs)"
    using Cons.prems x by (simp add: values_ok_def sorted_wrt_map pair_less_def)
  ultimately have "sorted_wrt pair_less (pairs_in s e i (x # es))"
    using IH x by (auto simp: sorted_wrt_append pair_less_def)
  moreover have "set (pairs_in s e i (x # es)) = {p \<in> pairs_of (x # es). in_range s e i (fst p)}"
    unfolding x pairs_in_simps pairs_of_simps set_append IH(1) by (cases "in_range s e i k") auto
  ultimately show ?case by blast
qed simp

text \<open>
  C3 Every tree that is built by the exported operations implements a finite relation
  between keys and values. \<open>Insert\<close> adds the pair and reports whether it was new, \<open>Delete\<close> removes it and
  reports whether it was there, \<open>Get\<close> returns the values of a key in order, and \<open>Len\<close> counts the pairs.
  An empty key is refused by both updates. No operation indexes out of range.
\<close>

theorem index_refines_relation:
  assumes "built t"
  shows "(\<exists>t'. Insert k v t = Some (k \<noteq> [] \<and> (k, v) \<notin> contents t, t') \<and> built t' \<and>
      contents t' = (if k = [] then contents t else insert (k, v) (contents t))) \<and>
    (\<exists>t'. Delete k v t = Some ((k, v) \<in> contents t, t') \<and> built t' \<and> contents t' = contents t - {(k, v)}) \<and>
    (\<exists>vs. Get k t = Some vs \<and> sorted_wrt (<) vs \<and> set vs = {w. (k, w) \<in> contents t}) \<and>
    Len t = card (contents t)"
proof -
  have ok: "tree_ok t" using built_ok [OF assms] .
  then have "Len t = card (contents t)"
    using card_pairs_of [of "entries (root t)"] by (simp add: Len_def contents_def tree_ok_def)
  then show ?thesis
    using tree.ins_law [OF ok, of k v] tree.del_law [OF ok, of k v] tree.get_law [OF ok, of k] built.intros(3,4) [OF assms]
    by metis
qed

text \<open>
  C4 Every tree that is built by the exported operations is a B+ tree of its order: all leaves
  are at one depth, every node below the root holds at least half of what fits and no node holds more than
  fits, separators are first keys, keys are in strict order across leaves, no key is empty or without
  values, and the links of the leaves form one chain in key order.
\<close>

theorem index_balanced:
  assumes "built t"
  shows "(\<exists>h. shape (maxKeys t) h (root t)) \<and> fill (root t) \<le> most (maxKeys t) (root t) \<and>
    sorted_wrt (<) (map fst (entries (root t))) \<and>
    (\<forall>e \<in> set (entries (root t)). fst e \<noteq> [] \<and> snd e \<noteq> [] \<and> sorted_wrt (<) (snd e)) \<and>
    map snd (leaf_links (root t)) = map (Some \<circ> fst) (tl (leaf_links (root t))) @ [None] \<and> distinct (map fst (leaf_links (root t)))"
  using built_ok [OF assms] by (auto simp: tree_ok_def chained_def entries_ok_def values_ok_def)

text \<open>
  C5 A range scan of a tree that is built by the exported operations ends, although it follows
  pointers. It returns exactly the pairs whose key lies between the bounds, each once, in the order of keys and
  then of values. An empty bound is no bound, and the upper bound is included only on request.
\<close>

theorem scan_exact:
  assumes "built t"
  shows "\<exists>ps. Scan start stop includeEnd t = Some ps \<and> sorted_wrt pair_less ps \<and>
    set ps = {p \<in> contents t. (start = [] \<or> start \<le> fst p) \<and>
      (stop = [] \<or> fst p < stop \<or> includeEnd \<and> fst p = stop)}"
proof -
  have ok: "tree_ok t" using built_ok [OF assms] .
  then have "entries_ok (entries (root t))" by (simp add: tree_ok_def)
  then show ?thesis
    using Scan_ok [OF ok] pairs_in_ok [of "entries (root t)" start stop includeEnd] by (simp add: contents_def in_range_def)
qed

text \<open>
  C32 Deleting a pair that was just inserted gives back the index as it was: every lookup
  answers as before. In between, lookups of other keys are unaffected.
\<close>

theorem index_insert_delete:
  assumes "built t" "k \<noteq> []" "(k, v) \<notin> contents t"
  shows "\<exists>t1 t2. Insert k v t = Some (True, t1) \<and> Delete k v t1 = Some (True, t2) \<and>
    contents t2 = contents t \<and> (\<forall>k'. Get k' t2 = Get k' t) \<and> (\<forall>k'. k' \<noteq> k \<longrightarrow> Get k' t1 = Get k' t)"
  using tree.ins_del [OF built_ok [OF assms(1)] assms(2,3)] tree.get_ins_other [OF built_ok [OF assms(1)]] by blast

definition example_tree :: Tree where
  "example_tree = \<lparr>root = Leaf 0 [[1]] [[[7]]] None, maxKeys = 32, tree_size = 1, fresh_addr = 1\<rparr>"

lemma built_example: "built example_tree" "contents example_tree = {([1], [7])}"
proof -
  have "Insert [1] [7] New = Some (True, example_tree)"
    by (simp add: Insert_def New_def leaf_insert_def lower_bound_def go_Search_def go_Search_loop.simps insert_at_def
        leaf_split_def defaultMaxKeys_def example_tree_def)
  then show "built example_tree" using built.intros(1,3) by blast
  show "contents example_tree = {([1], [7])}" by (simp add: example_tree_def contents_def)
qed

theorem index_refines_relation_witness:
  "Get [1] example_tree = Some [[7]] \<and> Len example_tree = 1"
  using index_refines_relation [OF built_example(1), of "[1]" "[7]"] built_example(2)
  by (auto simp: Get_def example_tree_def lower_bound_def go_Search_def go_Search_loop.simps elem_at_def Len_def)

theorem index_insert_delete_witness:
  "\<exists>t1. Insert [2] [8] example_tree = Some (True, t1) \<and> Get [1] t1 = Get [1] example_tree"
  using index_insert_delete [OF built_example(1), of "[2]" "[8]"] built_example(2) by auto

theorem index_balanced_witness: "shape 32 0 (root example_tree) \<and> fill (root example_tree) \<le> 32"
  using index_balanced [OF built_example(1)] by (simp add: example_tree_def)

theorem scan_exact_witness: "\<exists>ps. Scan [] [2] False example_tree = Some ps \<and> set ps = {([1], [7])}"
  using scan_exact [OF built_example(1), of "[]" "[2]" False] built_example(2) by auto

end
