(* ===== verification/Checksum.thy ===== *)
theory Checksum
  imports Meld_Prelude
begin

text \<open>
  The two checksums of the page format, as the Go standard library computes them: CRC-32C over a lookup
  table (\<open>hash/crc32\<close> with the Castagnoli polynomial) and SHA-256 (\<open>crypto/sha256\<close>).

  Of SHA-256 the format needs only the length of the digest. For CRC-32C the theory shows that replacing
  one byte of the input always changes the checksum: a step of the register is injective.
\<close>

unbundle bit_operations_syntax

section \<open>CRC-32C\<close>

definition crc_bit :: "uint32 \<Rightarrow> uint32" where
  "crc_bit c = (if c AND 1 = 1 then drop_bit 1 c XOR 0x82F63B78 else drop_bit 1 c)"

definition crcTable :: "uint32 list" where
  "crcTable = map (\<lambda>i. (crc_bit ^^ 8) (of_nat i)) [0..<256]"

definition crc_step :: "byte \<Rightarrow> uint32 \<Rightarrow> uint32" where
  "crc_step v c = crcTable ! unat (ucast c XOR v) XOR drop_bit 8 c"

definition crc32_Update :: "uint32 \<Rightarrow> bytes \<Rightarrow> uint32" where
  "crc32_Update crc p = NOT (fold crc_step p (NOT crc))"

section \<open>SHA-256\<close>

definition sha_K :: "uint32 list" where
  "sha_K =
     [
      0x428A2F98, 0x71374491, 0xB5C0FBCF, 0xE9B5DBA5, 0x3956C25B, 0x59F111F1,
      0x923F82A4, 0xAB1C5ED5, 0xD807AA98, 0x12835B01, 0x243185BE, 0x550C7DC3,
      0x72BE5D74, 0x80DEB1FE, 0x9BDC06A7, 0xC19BF174, 0xE49B69C1, 0xEFBE4786,
      0x0FC19DC6, 0x240CA1CC, 0x2DE92C6F, 0x4A7484AA, 0x5CB0A9DC, 0x76F988DA,
      0x983E5152, 0xA831C66D, 0xB00327C8, 0xBF597FC7, 0xC6E00BF3, 0xD5A79147,
      0x06CA6351, 0x14292967, 0x27B70A85, 0x2E1B2138, 0x4D2C6DFC, 0x53380D13,
      0x650A7354, 0x766A0ABB, 0x81C2C92E, 0x92722C85, 0xA2BFE8A1, 0xA81A664B,
      0xC24B8B70, 0xC76C51A3, 0xD192E819, 0xD6990624, 0xF40E3585, 0x106AA070,
      0x19A4C116, 0x1E376C08, 0x2748774C, 0x34B0BCB5, 0x391C0CB3, 0x4ED8AA4A,
      0x5B9CCA4F, 0x682E6FF3, 0x748F82EE, 0x78A5636F, 0x84C87814, 0x8CC70208,
      0x90BEFFFA, 0xA4506CEB, 0xBEF9A3F7, 0xC67178F2
     ]"

definition sha_H :: "uint32 list" where
  "sha_H = [0x6A09E667, 0xBB67AE85, 0x3C6EF372, 0xA54FF53A, 0x510E527F, 0x9B05688C, 0x1F83D9AB, 0x5BE0CD19]"

definition rotr :: "nat \<Rightarrow> uint32 \<Rightarrow> uint32" where
  "rotr n x = (drop_bit n x) OR (push_bit (32 - n) x)"

definition sha_schedule :: "uint32 list \<Rightarrow> uint32 list" where
  "sha_schedule ws =
     fold (\<lambda>i w.
       let v1 = w ! (i - 2);
           t1 = rotr 17 v1 XOR rotr 19 v1 XOR drop_bit 10 v1;
           v2 = w ! (i - 15);
           t2 = rotr 7 v2 XOR rotr 18 v2 XOR drop_bit 3 v2
       in w @ [t1 + w ! (i - 7) + t2 + w ! (i - 16)]) [16..<64] ws"

type_synonym sha_state = "uint32 \<times> uint32 \<times> uint32 \<times> uint32 \<times> uint32 \<times> uint32 \<times> uint32 \<times> uint32"

fun sha_round :: "uint32 \<times> uint32 \<Rightarrow> sha_state \<Rightarrow> sha_state" where
  "sha_round (k, w) (a, b, c, d, e, f, g, h) =
     (let t1 = h + (rotr 6 e XOR rotr 11 e XOR rotr 25 e) + ((e AND f) XOR (NOT e AND g)) + k + w;
          t2 = (rotr 2 a XOR rotr 13 a XOR rotr 22 a) + ((a AND b) XOR (a AND c) XOR (b AND c))
      in (t1 + t2, a, b, c, d + t1, e, f, g))"

fun sha_add :: "sha_state \<Rightarrow> sha_state \<Rightarrow> sha_state" where
  "sha_add (a, b, c, d, e, f, g, h) (a', b', c', d', e', f', g', h') =
     (a + a', b + b', c + c', d + d', e + e', f + f', g + g', h + h')"

definition be_get32 :: "bytes \<Rightarrow> uint32" where
  "be_get32 bs = of_nat (be_nat bs)"

fun chunks :: "nat \<Rightarrow> nat \<Rightarrow> bytes \<Rightarrow> bytes list" where
  "chunks n 0 bs = []"
| "chunks n (Suc k) bs = take n bs # chunks n k (drop n bs)"

definition sha_block :: "bytes \<Rightarrow> sha_state \<Rightarrow> sha_state" where
  "sha_block block s =
     sha_add s (fold sha_round (zip sha_K (sha_schedule (map be_get32 (chunks 4 16 block)))) s)"

definition sha_pad :: "bytes \<Rightarrow> bytes" where
  "sha_pad bs =
     bs @ 0x80 # replicate ((119 - length bs mod 64) mod 64) 0 @ be_put64 (of_nat (8 * length bs))"

definition sha256_Sum :: "bytes \<Rightarrow> bytes" where
  "sha256_Sum bs =
     (let padded = sha_pad bs
      in case fold sha_block (chunks 64 (length padded div 64) padded)
           (sha_H ! 0, sha_H ! 1, sha_H ! 2, sha_H ! 3, sha_H ! 4, sha_H ! 5, sha_H ! 6, sha_H ! 7) of
           (a, b, c, d, e, f, g, h) \<Rightarrow> concat (map be_put32 [a, b, c, d, e, f, g, h]))"

lemma length_sha256_Sum [simp]: "length (sha256_Sum bs) = 32"
  by (simp add: sha256_Sum_def Let_def split: prod.split)

section \<open>A step of the CRC register is injective\<close>

lemma crc_bit_eq: "crc_bit c = drop_bit 1 c XOR (if odd c then 0x82F63B78 else 0)"
proof -
  have "c AND 1 = 1 \<longleftrightarrow> odd c" by (simp add: and_one_eq odd_iff_mod_2_eq_one)
  then show ?thesis by (simp add: crc_bit_def)
qed

lemma crc_bit_xor: "crc_bit (x XOR y) = crc_bit x XOR crc_bit y"
proof -
  have "odd (x XOR y) \<longleftrightarrow> odd x \<noteq> odd y" using even_xor_iff [of x y] by blast
  then show ?thesis by (cases "odd x"; cases "odd y") (simp_all add: crc_bit_eq drop_bit_xor ac_simps)
qed

lemma crc_bits_xor: "(crc_bit ^^ n) (x XOR y) = (crc_bit ^^ n) x XOR (crc_bit ^^ n) y"
  by (induction n) (simp_all add: crc_bit_xor)

lemma xor_cancel: "a XOR c = b XOR c \<longleftrightarrow> a = (b :: 'a :: len word)"
  by (metis xor.assoc xor_self_eq xor.right_neutral)

lemma crc_bit_inj: "crc_bit x = crc_bit y \<Longrightarrow> x = y"
proof -
  assume eq: "crc_bit x = crc_bit y"
  have top: "bit (crc_bit c) 31 \<longleftrightarrow> odd c" for c
    using bit_imp_le_length [of c 32] by (auto simp: crc_bit_eq bit_simps)
  then have o: "odd x \<longleftrightarrow> odd y" using eq by metis
  then have "drop_bit 1 x = drop_bit 1 y" using eq by (cases "odd y") (simp_all add: crc_bit_eq xor_cancel)
  then have "bit x (Suc n) = bit y (Suc n)" for n by (metis bit_drop_bit_eq plus_1_eq_Suc comp_apply)
  then have "bit x n = bit y n" for n using o by (cases n) (simp_all add: bit_0)
  then show "x = y" by (rule bit_eqI)
qed

lemma crc_bits_inj: "(crc_bit ^^ n) x = (crc_bit ^^ n) y \<Longrightarrow> x = y"
  by (induction n) (auto dest: crc_bit_inj)

lemma crc_bits_zero: "take_bit n x = 0 \<Longrightarrow> (crc_bit ^^ n) x = drop_bit n x"
proof (induction n arbitrary: x)
  case (Suc n)
  have bits: "\<not> bit x k" if "k < Suc n" for k
    using Suc.prems that by (metis bit_take_bit_iff bit_0_eq bot_apply bot_bool_def)
  then have "even x" by (metis bit_0 zero_less_Suc)
  then have "crc_bit x = drop_bit 1 x" by (simp add: crc_bit_eq)
  moreover have "take_bit n (drop_bit 1 x) = 0"
    by (rule bit_eqI) (use bits in \<open>auto simp: bit_simps\<close>)
  ultimately show ?case using Suc.IH [of "drop_bit 1 x"] by (simp add: funpow_Suc_right drop_bit_drop_bit del: funpow.simps)
qed simp

lemma crc_step_bits: "crc_step v c = (crc_bit ^^ 8) (c XOR ucast v)"
proof -
  let ?w = "c XOR ucast v :: uint32"
  let ?low = "take_bit 8 ?w" and ?high = "push_bit 8 (drop_bit 8 ?w)"
  have split: "?w = ?low XOR ?high"
  proof (rule bit_eqI)
    fix n assume "possible_bit TYPE(32 word) n"
    then show "bit ?w n = bit (?low XOR ?high) n" by (cases "n < 8") (auto simp: bit_simps)
  qed
  have high: "(crc_bit ^^ 8) ?high = drop_bit 8 ?w"
    by (subst crc_bits_zero) (auto simp: bit_eq_iff bit_simps dest: bit_imp_le_length)
  have rest: "drop_bit 8 ?w = drop_bit 8 c"
    by (rule bit_eqI) (auto simp: bit_simps dest: bit_imp_le_length)
  have low: "of_nat (unat (ucast c XOR v :: byte)) = ?low"
    unfolding of_nat_unat by (rule bit_eqI) (auto simp: bit_simps dest: bit_imp_le_length)
  have "unat (ucast c XOR v :: byte) < 256" using unat_bound [of "ucast c XOR v :: byte"] by simp
  then have "crc_step v c = (crc_bit ^^ 8) (of_nat (unat (ucast c XOR v :: byte))) XOR drop_bit 8 c"
    by (simp add: crc_step_def crcTable_def del: of_nat_unat)
  also have "\<dots> = (crc_bit ^^ 8) (?low XOR ?high)" unfolding crc_bits_xor low high by (simp only: rest)
  finally show ?thesis unfolding split [symmetric] .
qed

lemma crc_step_inj:
  assumes "crc_step v c = crc_step w d" "v = w \<or> c = d"
  shows "v = w \<and> c = d"
proof -
  have eq: "c XOR ucast v = d XOR ucast w" using assms(1) crc_bits_inj unfolding crc_step_bits by blast
  show ?thesis
  proof (cases "v = w")
    case False
    then have "ucast v = (ucast w :: uint32)" using eq assms(2) xor_cancel by (metis xor.commute)
    then have same: "bit (ucast v :: uint32) n = bit (ucast w :: uint32) n" for n by simp
    have "v = w"
      by (rule bit_eqI) (use same in \<open>force simp: bit_simps\<close>)
    then show ?thesis using False by simp
  qed (use eq xor_cancel in blast)
qed

lemma crc_fold_inj: "fold crc_step p c = fold crc_step p d \<Longrightarrow> c = d"
  by (induction p arbitrary: c d) (auto dest: crc_step_inj)

lemma crc32_Update_append: "crc32_Update (crc32_Update c p) q = crc32_Update c (p @ q)"
  by (simp add: crc32_Update_def)

lemma crc32_one_byte:
  assumes "v \<noteq> w"
  shows "crc32_Update c (A @ v # B) \<noteq> crc32_Update c (A @ w # B)"
proof
  let ?s = "fold crc_step A (NOT c)"
  assume "crc32_Update c (A @ v # B) = crc32_Update c (A @ w # B)"
  then have "fold crc_step B (crc_step v ?s) = fold crc_step B (crc_step w ?s)" by (simp add: crc32_Update_def)
  then have "crc_step v ?s = crc_step w ?s" by (rule crc_fold_inj)
  then show False using crc_step_inj [of v ?s w ?s] assms by blast
qed

end
