(* ===== verification/Page_Format.thy ===== *)
theory Page_Format
  imports Checksum
begin

text \<open>
  The page format, \<open>internal/storage/format.go\<close>: the two metadata pages with their SHA-256 envelope, data
  pages with CRC-32C, the database root page and the extents of free pages
  (\<open>internal/storage/freespace_codec.go\<close>).

  A page is a list of bytes. The encoders write fields into a zeroed buffer at the offsets of the source
  (\<open>put_at\<close>), the decoders read \<open>page[i:j]\<close> (\<open>cut\<close>). A record field of type \<open>[16]byte\<close> is a byte list whose
  length the theorems state. \<open>DecodePage\<close> and \<open>decodePageView\<close> differ in whether the payload is copied and
  agree as functions.
\<close>

section \<open>Errors and buffers\<close>

datatype storage_error =
    SErrCorrupt
  | ErrUnsupportedFormat
  | ErrUnsupportedFeature
  | ErrStorageLimit
  | ErrFileClosed
  | ErrIO
  | ErrEOF
  | ErrNodeFull
  | ErrKeyTooBig
  | ErrInvalidStorageLimit
  | ErrStaleSnapshot
  | ErrDatabaseIdentity
  | ErrRecoveryRequired

definition cut :: "bytes \<Rightarrow> nat \<Rightarrow> nat \<Rightarrow> bytes" where
  "cut p i j = take (j - i) (drop i p)"

definition put_at :: "nat \<Rightarrow> bytes \<Rightarrow> bytes \<Rightarrow> bytes" where
  "put_at i bs p = take i p @ bs @ drop (i + length bs) p"

section \<open>Constants\<close>

definition PageSize :: nat where
  "PageSize = 16 * 1024"

definition PageHeaderSize :: nat where
  "PageHeaderSize = 64"

definition MetaHeaderSize :: nat where
  "MetaHeaderSize = 256"

definition FormatVersion :: uint16 where
  "FormatVersion = 3"

definition metaMagic :: bytes where
  "metaMagic = str ''MELDMT2'' @ [0]"

definition pageMagic :: bytes where
  "pageMagic = str ''MELDPG2'' @ [0]"

definition RequiredFeatureShadowIndexBuilds :: uint64 where
  "RequiredFeatureShadowIndexBuilds = push_bit 0 1"

definition RequiredFeatureCompoundIndexes :: uint64 where
  "RequiredFeatureCompoundIndexes = push_bit 1 1"

definition RequiredFeatureIndexBuildAppliedRoot :: uint64 where
  "RequiredFeatureIndexBuildAppliedRoot = push_bit 2 1"

definition SupportedRequiredFeatures :: uint64 where
  "SupportedRequiredFeatures =
     RequiredFeatureShadowIndexBuilds OR RequiredFeatureCompoundIndexes OR RequiredFeatureIndexBuildAppliedRoot"

definition OptionalFeaturePersistentFreeSpace :: uint64 where
  "OptionalFeaturePersistentFreeSpace = push_bit 0 1"

definition PageDatabaseRoot :: byte where
  "PageDatabaseRoot = 1"

definition PageIndexBuildCatalogLeaf :: byte where
  "PageIndexBuildCatalogLeaf = 22"

section \<open>Metadata\<close>

record Meta =
  mDatabaseID :: bytes
  mGeneration :: uint64
  mCommitSequence :: uint64
  mRootPage :: uint64
  mPhysicalPageCount :: uint64
  mOldestRetainedSequence :: uint64
  mRequiredFeatures :: uint64
  mOptionalFeatures :: uint64

record MetaEnvelope =
  eRevision :: uint16
  eHeaderSize :: uint16
  ePageSize :: uint32
  eDatabaseID :: bytes
  eGeneration :: uint64
  eCommitSequence :: uint64
  eRootPage :: uint64
  ePhysicalPageCount :: uint64
  eRequiredFeatures :: uint64
  eOptionalFeatures :: uint64

definition equalBytes :: "bytes \<Rightarrow> bytes \<Rightarrow> bool" where
  "equalBytes left right \<longleftrightarrow>
     length left = length right \<and> fold (\<lambda>(a, b) different. different OR (a XOR b)) (zip left right) 0 = 0"

definition validMeta :: "Meta \<Rightarrow> bool" where
  "validMeta meta \<longleftrightarrow>
     (if allZero (mDatabaseID meta) \<or> mGeneration meta = 0 \<or> mPhysicalPageCount meta < 2 \<or>
         mCommitSequence meta < mOldestRetainedSequence meta
      then False
      else if mRootPage meta = 0 then mCommitSequence meta = 0
      else 2 \<le> mRootPage meta \<and> mRootPage meta < mPhysicalPageCount meta \<and> 0 < mCommitSequence meta)"

definition metaChecksum :: "bytes \<Rightarrow> bytes" where
  "metaChecksum page = sha256_Sum (take 224 page @ replicate 32 0 @ drop 256 page)"

definition EncodeMeta :: "Meta \<Rightarrow> storage_error + bytes" where
  "EncodeMeta meta =
     (if mRequiredFeatures meta AND NOT SupportedRequiredFeatures \<noteq> 0 then Inl ErrUnsupportedFeature
      else if \<not> validMeta meta then Inl SErrCorrupt
      else
        let page = replicate PageSize 0;
            page = put_at 0 metaMagic page;
            page = put_at 8 (put16 FormatVersion) page;
            page = put_at 10 (put16 (of_nat MetaHeaderSize)) page;
            page = put_at 12 (put32 (of_nat PageSize)) page;
            page = put_at 16 (mDatabaseID meta) page;
            page = put_at 32 (put64 (mGeneration meta)) page;
            page = put_at 40 (put64 (mCommitSequence meta)) page;
            page = put_at 48 (put64 (mRootPage meta)) page;
            page = put_at 56 (put64 (mPhysicalPageCount meta)) page;
            page = put_at 64 (put64 (mOldestRetainedSequence meta)) page;
            page = put_at 72 (put64 (mRequiredFeatures meta)) page;
            page = put_at 80 (put64 (mOptionalFeatures meta)) page;
            checksum = metaChecksum page
        in Inr (put_at 224 checksum page))"

definition InspectMetaEnvelope :: "bytes \<Rightarrow> storage_error + MetaEnvelope" where
  "InspectMetaEnvelope page =
     (if length page \<noteq> PageSize \<or> cut page 0 8 \<noteq> metaMagic then Inl SErrCorrupt
      else if \<not> equalBytes (cut page 224 256) (metaChecksum page) then Inl SErrCorrupt
      else Inr \<lparr>eRevision = get16 (cut page 8 10), eHeaderSize = get16 (cut page 10 12),
        ePageSize = get32 (cut page 12 16), eDatabaseID = cut page 16 32,
        eGeneration = get64 (cut page 32 40), eCommitSequence = get64 (cut page 40 48),
        eRootPage = get64 (cut page 48 56), ePhysicalPageCount = get64 (cut page 56 64),
        eRequiredFeatures = get64 (cut page 72 80), eOptionalFeatures = get64 (cut page 80 88)\<rparr>)"

definition DecodeMeta :: "bytes \<Rightarrow> storage_error + Meta" where
  "DecodeMeta page =
     rbind (InspectMetaEnvelope page) (\<lambda>envelope.
       if eRevision envelope \<noteq> FormatVersion then Inl ErrUnsupportedFormat
       else if eHeaderSize envelope \<noteq> of_nat MetaHeaderSize \<or> ePageSize envelope \<noteq> of_nat PageSize \<or>
               \<not> allZero (cut page 88 224) \<or> \<not> allZero (drop 256 page)
       then Inl SErrCorrupt
       else
         let meta = \<lparr>mDatabaseID = cut page 16 32, mGeneration = get64 (cut page 32 40),
               mCommitSequence = get64 (cut page 40 48), mRootPage = get64 (cut page 48 56),
               mPhysicalPageCount = get64 (cut page 56 64), mOldestRetainedSequence = get64 (cut page 64 72),
               mRequiredFeatures = get64 (cut page 72 80), mOptionalFeatures = get64 (cut page 80 88)\<rparr>
         in if mRequiredFeatures meta AND NOT SupportedRequiredFeatures \<noteq> 0 then Inl ErrUnsupportedFeature
            else if \<not> validMeta meta then Inl SErrCorrupt
            else Inr meta)"

section \<open>Data pages\<close>

record Page =
  pType :: byte
  pFlags :: byte
  pID :: uint64
  pGeneration :: uint64
  pBornSequence :: uint64
  pItemCount :: uint32
  pLink :: uint64
  pPayload :: bytes

definition pageChecksum :: "bytes \<Rightarrow> uint32" where
  "pageChecksum page =
     (let checksum = crc32_Update 0 (take 56 page);
          checksum = crc32_Update checksum (replicate 4 0)
      in crc32_Update checksum (drop 60 page))"

definition EncodePage :: "Page \<Rightarrow> storage_error + bytes" where
  "EncodePage v =
     (if pType v < PageDatabaseRoot \<or> PageIndexBuildCatalogLeaf < pType v \<or> pID v < 2 \<or> pGeneration v = 0 \<or>
         PageSize - PageHeaderSize < length (pPayload v)
      then Inl SErrCorrupt
      else
        let page = replicate PageSize 0;
            page = put_at 0 pageMagic page;
            page = put_at 8 (put16 FormatVersion) page;
            page = put_at 10 [pType v, pFlags v] page;
            page = put_at 12 (put16 (of_nat PageHeaderSize)) page;
            page = put_at 16 (put64 (pID v)) page;
            page = put_at 24 (put64 (pGeneration v)) page;
            page = put_at 32 (put64 (pBornSequence v)) page;
            page = put_at 40 (put32 (of_nat (length (pPayload v)))) page;
            page = put_at 44 (put32 (pItemCount v)) page;
            page = put_at 48 (put64 (pLink v)) page;
            page = put_at PageHeaderSize (pPayload v) page
        in Inr (put_at 56 (put32 (pageChecksum page)) page))"

definition decodePage :: "bytes \<Rightarrow> uint64 \<Rightarrow> storage_error + Page" where
  "decodePage page expectedID =
     (if length page \<noteq> PageSize \<or> cut page 0 8 \<noteq> pageMagic \<or> get16 (cut page 8 10) \<noteq> FormatVersion \<or>
         get16 (cut page 12 14) \<noteq> of_nat PageHeaderSize \<or> get16 (cut page 14 16) \<noteq> 0 \<or>
         get32 (cut page 60 64) \<noteq> 0 \<or> get64 (cut page 16 24) \<noteq> expectedID \<or> expectedID < 2 \<or>
         get32 (cut page 56 60) \<noteq> pageChecksum page
      then Inl SErrCorrupt
      else
        let n = unat (get32 (cut page 40 44))
        in if PageSize - PageHeaderSize < n \<or> \<not> allZero (drop (PageHeaderSize + n) page) then Inl SErrCorrupt
           else
             let result = \<lparr>pType = page ! 10, pFlags = page ! 11, pID = expectedID,
                   pGeneration = get64 (cut page 24 32), pBornSequence = get64 (cut page 32 40),
                   pItemCount = get32 (cut page 44 48), pLink = get64 (cut page 48 56),
                   pPayload = cut page PageHeaderSize (PageHeaderSize + n)\<rparr>
             in if pType result < PageDatabaseRoot \<or> PageIndexBuildCatalogLeaf < pType result \<or>
                   pGeneration result = 0
                then Inl SErrCorrupt
                else Inr result)"

definition DecodePage :: "bytes \<Rightarrow> uint64 \<Rightarrow> storage_error + Page" where
  "DecodePage page expectedID = decodePage page expectedID"

section \<open>The database root\<close>

record DatabaseRoot =
  rCommitSequence :: uint64
  rCatalogRoot :: uint64
  rCommitLogRoot :: uint64
  rFreeSpaceRoot :: uint64
  rOldestRetainedSequence :: uint64
  rCatalogGeneration :: uint64
  rDocumentCount :: uint64
  rCollectionCount :: uint64
  rIndexBuildCatalogRoot :: uint64

definition EncodeDatabaseRoot :: "uint64 \<Rightarrow> uint64 \<Rightarrow> DatabaseRoot \<Rightarrow> storage_error + bytes" where
  "EncodeDatabaseRoot pageID generation root =
     (if rCommitSequence root < rOldestRetainedSequence root \<or>
         rCommitSequence root = 0 \<and> (rCatalogRoot root \<noteq> 0 \<or> rCommitLogRoot root \<noteq> 0 \<or> rFreeSpaceRoot root \<noteq> 0 \<or>
           rIndexBuildCatalogRoot root \<noteq> 0)
      then Inl SErrCorrupt
      else
        let payload = replicate 128 0;
            payload = put_at 0 (put64 (rCommitSequence root)) payload;
            payload = put_at 8 (put64 (rCatalogRoot root)) payload;
            payload = put_at 16 (put64 (rCommitLogRoot root)) payload;
            payload = put_at 24 (put64 (rFreeSpaceRoot root)) payload;
            payload = put_at 32 (put64 (rOldestRetainedSequence root)) payload;
            payload = put_at 40 (put64 (rCatalogGeneration root)) payload;
            payload = put_at 48 (put64 (rDocumentCount root)) payload;
            payload = put_at 56 (put64 (rCollectionCount root)) payload;
            payload = put_at 64 (put64 (rIndexBuildCatalogRoot root)) payload
        in EncodePage \<lparr>pType = PageDatabaseRoot, pFlags = 0, pID = pageID, pGeneration = generation,
             pBornSequence = rCommitSequence root, pItemCount = 1, pLink = 0, pPayload = payload\<rparr>)"

definition DecodeDatabaseRoot :: "bytes \<Rightarrow> uint64 \<Rightarrow> storage_error + DatabaseRoot \<times> Page" where
  "DecodeDatabaseRoot page expectedID =
     rbind (with_error SErrCorrupt (DecodePage page expectedID)) (\<lambda>decoded.
       if pType decoded \<noteq> PageDatabaseRoot \<or> pFlags decoded \<noteq> 0 \<or> pItemCount decoded \<noteq> 1 \<or> pLink decoded \<noteq> 0 \<or>
          length (pPayload decoded) \<noteq> 128 \<or> \<not> allZero (drop 72 (pPayload decoded))
       then Inl SErrCorrupt
       else
         let p = pPayload decoded;
             root = \<lparr>rCommitSequence = get64 (cut p 0 8), rCatalogRoot = get64 (cut p 8 16),
               rCommitLogRoot = get64 (cut p 16 24), rFreeSpaceRoot = get64 (cut p 24 32),
               rOldestRetainedSequence = get64 (cut p 32 40), rCatalogGeneration = get64 (cut p 40 48),
               rDocumentCount = get64 (cut p 48 56), rCollectionCount = get64 (cut p 56 64),
               rIndexBuildCatalogRoot = get64 (cut p 64 72)\<rparr>
         in if rCommitSequence root \<noteq> pBornSequence decoded \<or> rCommitSequence root < rOldestRetainedSequence root
            then Inl SErrCorrupt
            else Inr (root, decoded))"

section \<open>Free extents\<close>

definition freeSpaceExtentMagic :: bytes where
  "freeSpaceExtentMagic = str ''MELDFR31''"

definition freeSpaceKey :: "uint64 \<Rightarrow> bytes" where
  "freeSpaceKey pageID = be_put64 pageID"

definition encodeFreeSpaceExtent :: "uint64 \<Rightarrow> uint64 \<Rightarrow> uint64 \<Rightarrow> storage_error + bytes" where
  "encodeFreeSpaceExtent stop safePhysicalPages auditGeneration =
     (if stop \<le> 2 \<or> safePhysicalPages < stop \<or> auditGeneration = 0 then Inl SErrCorrupt
      else
        let v = replicate 32 0;
            v = put_at 0 freeSpaceExtentMagic v;
            v = put_at 8 (put64 stop) v;
            v = put_at 16 (put64 safePhysicalPages) v
        in Inr (put_at 24 (put64 auditGeneration) v))"

definition decodeFreeSpaceExtent :: "bytes \<Rightarrow> bytes \<Rightarrow> uint64 \<Rightarrow> storage_error + uint64 \<times> uint64 \<times> uint64" where
  "decodeFreeSpaceExtent key v physicalPages =
     (if length key \<noteq> 8 \<or> length v \<noteq> 32 \<or> cut v 0 8 \<noteq> freeSpaceExtentMagic then Inl SErrCorrupt
      else
        let start = be_get64 key;
            stop = get64 (cut v 8 16);
            safePhysicalPages = get64 (cut v 16 24);
            auditGeneration = get64 (cut v 24 32)
        in if start < 2 \<or> stop \<le> start \<or> safePhysicalPages < stop \<or> physicalPages < safePhysicalPages \<or>
              auditGeneration = 0
           then Inl SErrCorrupt
           else Inr (start, stop, auditGeneration))"

section \<open>Buffers\<close>

lemma put_at_append: "length x \<le> i \<Longrightarrow> put_at i bs (x @ y) = x @ put_at (i - length x) bs y"
  by (simp add: put_at_def)

lemma put_at_Cons: "0 < i \<Longrightarrow> put_at i bs (x # y) = x # put_at (i - 1) bs y"
  by (cases i) (simp_all add: put_at_def)

lemma put_at_zeros:
  "i + length bs \<le> n \<Longrightarrow> put_at i bs (replicate n 0) = replicate i 0 @ bs @ replicate (n - (i + length bs)) 0"
  by (simp add: put_at_def min_def)

lemma put_at_zeros_0: "length bs \<le> n \<Longrightarrow> put_at 0 bs (replicate n 0) = bs @ replicate (n - length bs) 0"
  by (simp add: put_at_def)

lemma cut_join: "i \<le> j \<Longrightarrow> j \<le> k \<Longrightarrow> cut p i j @ cut p j k = cut p i k"
proof -
  assume "i \<le> j" "j \<le> k"
  then have "cut p j k = take (k - j) (drop (j - i) (drop i p))" "k - i = (j - i) + (k - j)" by (simp_all add: cut_def)
  then show ?thesis by (simp add: cut_def take_add)
qed

lemma cut_all: "cut p 0 (length p) = p"
  by (simp add: cut_def)

lemma cut_drop: "cut p i (length p) = drop i p"
  by (simp add: cut_def)

lemma cut_drop_join: "i \<le> j \<Longrightarrow> cut p i j @ drop j p = drop i p"
  by (metis append_take_drop_id cut_def drop_drop le_add_diff_inverse2)

lemma length_cut [simp]: "j \<le> length p \<Longrightarrow> length (cut p i j) = j - i"
  by (simp add: cut_def)

lemma cut_prefix: "length A \<le> i \<Longrightarrow> cut (A @ B) i j = cut B (i - length A) (j - length A)"
  by (simp add: cut_def)

lemma cut_Cons: "0 < i \<Longrightarrow> cut (x # B) i j = cut B (i - 1) (j - 1)"
  by (cases i) (simp_all add: cut_def)

lemma cut_whole: "length bs = j \<Longrightarrow> cut bs 0 j = bs"
  by (simp add: cut_def)

lemma cut_here: "length bs = j \<Longrightarrow> cut (bs @ B) 0 j = bs"
  by (simp add: cut_def)

lemma fold_or_zero:
  "fold (\<lambda>(a, b) d. d OR (a XOR b)) xs d = (0 :: byte) \<longleftrightarrow> d = 0 \<and> (\<forall>(a, b) \<in> set xs. a = b)"
proof (induction xs arbitrary: d)
  case (Cons x xs)
  have "a XOR b = 0 \<longleftrightarrow> a = b" for a b :: byte by (metis xor_self_eq xor_cancel xor.left_neutral)
  then show ?case using Cons by (auto simp: or_eq_0_iff split: prod.splits)
qed simp

lemma equalBytes_iff: "equalBytes a b \<longleftrightarrow> a = b"
proof
  assume "equalBytes a b"
  then have "length a = length b" "\<forall>(x, y) \<in> set (zip a b). x = y" by (simp_all add: equalBytes_def fold_or_zero)
  then show "a = b" by (simp add: list_eq_iff_zip_eq)
qed (auto simp: equalBytes_def fold_or_zero set_zip)

lemma length_magic [simp]: "length metaMagic = 8" "length pageMagic = 8" "length freeSpaceExtentMagic = 8"
  by (simp_all add: metaMagic_def pageMagic_def freeSpaceExtentMagic_def str_def)

lemma allZero_cut: "j \<le> length p \<Longrightarrow> allZero (cut p i j) \<longleftrightarrow> cut p i j = replicate (j - i) 0"
  unfolding allZero_iff by simp

section \<open>Metadata pages\<close>

definition meta_head :: "Meta \<Rightarrow> bytes" where
  "meta_head m =
     metaMagic @ put16 FormatVersion @ put16 (of_nat MetaHeaderSize) @ put32 (of_nat PageSize) @ mDatabaseID m @
     put64 (mGeneration m) @ put64 (mCommitSequence m) @ put64 (mRootPage m) @ put64 (mPhysicalPageCount m) @
     put64 (mOldestRetainedSequence m) @ put64 (mRequiredFeatures m) @ put64 (mOptionalFeatures m)"

definition meta_page :: "Meta \<Rightarrow> bytes \<Rightarrow> bytes" where
  "meta_page m checksum = meta_head m @ replicate 136 0 @ checksum @ replicate (PageSize - 256) 0"

definition meta_sum :: "Meta \<Rightarrow> bytes" where
  "meta_sum m = sha256_Sum (meta_head m @ replicate 136 0 @ replicate 32 0 @ replicate (PageSize - 256) 0)"

lemma length_meta_head [simp]: "length (mDatabaseID m) = 16 \<Longrightarrow> length (meta_head m) = 88"
  by (simp add: meta_head_def)

lemma metaChecksum_page:
  "length (mDatabaseID m) = 16 \<Longrightarrow> length cs = 32 \<Longrightarrow> metaChecksum (meta_page m cs) = meta_sum m"
  by (simp add: metaChecksum_def meta_page_def meta_sum_def)

lemma EncodeMeta_page:
  assumes "length (mDatabaseID m) = 16"
  shows "EncodeMeta m =
    (if mRequiredFeatures m AND NOT SupportedRequiredFeatures \<noteq> 0 then Inl ErrUnsupportedFeature
     else if \<not> validMeta m then Inl SErrCorrupt else Inr (meta_page m (meta_sum m)))"
proof -
  have zeros: "replicate 136 0 @ replicate 32 0 @ replicate (PageSize - 256) (0 :: byte) = replicate (PageSize - 88) 0"
    by (simp add: PageSize_def flip: replicate_add)
  have sum: "metaChecksum (meta_head m @ replicate (PageSize - 88) 0) = meta_sum m"
    using metaChecksum_page [OF assms, of "replicate 32 0"] by (simp add: meta_page_def zeros)
  have big: "88 < PageSize" by (simp add: PageSize_def)
  have chain: "put_at 80 (put64 (mOptionalFeatures m)) (put_at 72 (put64 (mRequiredFeatures m))
      (put_at 64 (put64 (mOldestRetainedSequence m)) (put_at 56 (put64 (mPhysicalPageCount m))
      (put_at 48 (put64 (mRootPage m)) (put_at 40 (put64 (mCommitSequence m)) (put_at 32 (put64 (mGeneration m))
      (put_at 16 (mDatabaseID m) (put_at 12 (put32 (of_nat PageSize)) (put_at 10 (put16 (of_nat MetaHeaderSize))
      (put_at 8 (put16 FormatVersion) (put_at 0 metaMagic (replicate PageSize 0)))))))))))) =
      meta_head m @ replicate (PageSize - 88) 0"
    using assms big by (simp add: put_at_append put_at_zeros_0 meta_head_def)
  have last: "put_at 224 (meta_sum m) (meta_head m @ replicate (PageSize - 88) 0) = meta_page m (meta_sum m)"
    using assms by (simp add: put_at_append put_at_zeros meta_page_def meta_sum_def PageSize_def)
  show ?thesis unfolding EncodeMeta_def Let_def chain sum last ..
qed

lemma meta_page_cuts:
  assumes "length (mDatabaseID m) = 16" "length cs = 32"
  shows "length (meta_page m cs) = PageSize" "cut (meta_page m cs) 0 8 = metaMagic"
    "cut (meta_page m cs) 8 10 = put16 FormatVersion" "cut (meta_page m cs) 10 12 = put16 (of_nat MetaHeaderSize)"
    "cut (meta_page m cs) 12 16 = put32 (of_nat PageSize)" "cut (meta_page m cs) 16 32 = mDatabaseID m"
    "cut (meta_page m cs) 32 40 = put64 (mGeneration m)" "cut (meta_page m cs) 40 48 = put64 (mCommitSequence m)"
    "cut (meta_page m cs) 48 56 = put64 (mRootPage m)" "cut (meta_page m cs) 56 64 = put64 (mPhysicalPageCount m)"
    "cut (meta_page m cs) 64 72 = put64 (mOldestRetainedSequence m)"
    "cut (meta_page m cs) 72 80 = put64 (mRequiredFeatures m)" "cut (meta_page m cs) 80 88 = put64 (mOptionalFeatures m)"
    "cut (meta_page m cs) 88 224 = replicate 136 0" "cut (meta_page m cs) 224 256 = cs"
    "drop 256 (meta_page m cs) = replicate (PageSize - 256) 0"
  using assms by (simp_all add: meta_page_def meta_head_def cut_prefix cut_here PageSize_def)

lemma meta_page_from_cuts:
  "page = cut page 0 8 @ cut page 8 10 @ cut page 10 12 @ cut page 12 16 @ cut page 16 32 @
    cut page 32 40 @ cut page 40 48 @ cut page 48 56 @ cut page 56 64 @ cut page 64 72 @ cut page 72 80 @
    cut page 80 88 @ cut page 88 224 @ cut page 224 256 @ drop 256 page"
  by (simp add: cut_drop_join)

lemma DecodeMeta_iff:
  "DecodeMeta page = Inr m \<longleftrightarrow>
    length (mDatabaseID m) = 16 \<and> mRequiredFeatures m AND NOT SupportedRequiredFeatures = 0 \<and> validMeta m \<and>
    page = meta_page m (meta_sum m)"
proof
  assume d: "DecodeMeta page = Inr m"
  have len: "length page = PageSize" and magic: "cut page 0 8 = metaMagic"
    and sum: "cut page 224 256 = metaChecksum page"
    and head: "get16 (cut page 8 10) = FormatVersion" "get16 (cut page 10 12) = of_nat MetaHeaderSize"
      "get32 (cut page 12 16) = of_nat PageSize"
    and zero: "allZero (cut page 88 224)" "allZero (drop 256 page)"
    and m: "m = \<lparr>mDatabaseID = cut page 16 32, mGeneration = get64 (cut page 32 40),
               mCommitSequence = get64 (cut page 40 48), mRootPage = get64 (cut page 48 56),
               mPhysicalPageCount = get64 (cut page 56 64), mOldestRetainedSequence = get64 (cut page 64 72),
               mRequiredFeatures = get64 (cut page 72 80), mOptionalFeatures = get64 (cut page 80 88)\<rparr>"
    and ok: "mRequiredFeatures m AND NOT SupportedRequiredFeatures = 0" "validMeta m"
    using d by (auto simp: DecodeMeta_def InspectMetaEnvelope_def equalBytes_iff Let_def split: if_splits)
  have big: "PageSize = 16384" by (simp add: PageSize_def)
  have id: "length (mDatabaseID m) = 16" using m len big by simp
  have fields: "cut page 8 10 = put16 FormatVersion" "cut page 10 12 = put16 (of_nat MetaHeaderSize)"
    "cut page 12 16 = put32 (of_nat PageSize)"
    unfolding head [symmetric] using len big by (simp_all add: put_get)
  have rest: "cut page 88 224 = replicate 136 0" "drop 256 page = replicate (PageSize - 256) 0"
    using zero len big allZero_cut [of 224 page 88] unfolding allZero_iff [of "drop 256 page"] by simp_all
  have p: "page = meta_page m (cut page 224 256)"
    using meta_page_from_cuts [of page] magic fields rest len big
    by (simp add: m meta_page_def meta_head_def put_get)
  have "length (cut page 224 256) = 32" using len big by simp
  then have "cut page 224 256 = meta_sum m" using sum p metaChecksum_page [OF id] by metis
  then show "length (mDatabaseID m) = 16 \<and> mRequiredFeatures m AND NOT SupportedRequiredFeatures = 0 \<and> validMeta m \<and>
      page = meta_page m (meta_sum m)" using id ok p by metis
next
  assume a: "length (mDatabaseID m) = 16 \<and> mRequiredFeatures m AND NOT SupportedRequiredFeatures = 0 \<and> validMeta m \<and>
      page = meta_page m (meta_sum m)"
  have s: "length (meta_sum m) = 32" by (simp add: meta_sum_def)
  show "DecodeMeta page = Inr m"
    using a s by (cases m) (simp add: DecodeMeta_def InspectMetaEnvelope_def equalBytes_iff Let_def meta_page_cuts
        metaChecksum_page get_put)
qed

section \<open>Data pages\<close>

definition page_head :: "Page \<Rightarrow> bytes" where
  "page_head v =
     pageMagic @ put16 FormatVersion @ [pType v, pFlags v] @ put16 (of_nat PageHeaderSize) @ replicate 2 0 @
     put64 (pID v) @ put64 (pGeneration v) @ put64 (pBornSequence v) @ put32 (of_nat (length (pPayload v))) @
     put32 (pItemCount v) @ put64 (pLink v)"

definition page_tail :: "Page \<Rightarrow> bytes" where
  "page_tail v = replicate 4 0 @ pPayload v @ replicate (PageSize - PageHeaderSize - length (pPayload v)) 0"

definition page_bytes :: "Page \<Rightarrow> uint32 \<Rightarrow> bytes" where
  "page_bytes v checksum = page_head v @ put32 checksum @ page_tail v"

definition page_sum :: "Page \<Rightarrow> uint32" where
  "page_sum v = crc32_Update 0 (page_head v @ replicate 4 0 @ page_tail v)"

definition page_ok :: "Page \<Rightarrow> bool" where
  "page_ok v \<longleftrightarrow>
     PageDatabaseRoot \<le> pType v \<and> pType v \<le> PageIndexBuildCatalogLeaf \<and> 2 \<le> pID v \<and> pGeneration v \<noteq> 0 \<and>
     length (pPayload v) \<le> PageSize - PageHeaderSize"

lemma length_page_head [simp]: "length (page_head v) = 56"
  by (simp add: page_head_def)

lemma pageChecksum_eq: "pageChecksum page = crc32_Update 0 (take 56 page @ replicate 4 0 @ drop 60 page)"
  by (simp add: pageChecksum_def crc32_Update_append)

lemma pageChecksum_bytes: "pageChecksum (page_bytes v c) = page_sum v"
  by (simp add: pageChecksum_eq page_bytes_def page_sum_def)

lemma put_at_inside:
  "length bs \<le> n \<Longrightarrow> put_at 0 bs (replicate n 0 @ y) = bs @ replicate (n - length bs) 0 @ y"
  by (simp add: put_at_def)

lemma sizes: "PageSize = 16384" "PageHeaderSize = 64"
  by (simp_all add: PageSize_def PageHeaderSize_def)

lemma EncodePage_bytes: "EncodePage v = (if page_ok v then Inr (page_bytes v (page_sum v)) else Inl SErrCorrupt)"
proof (cases "page_ok v")
  case True
  then have n: "length (pPayload v) \<le> 16320" by (simp add: page_ok_def sizes)
  define z where "z = replicate (16320 - length (pPayload v)) (0 :: byte)"
  have chain: "put_at PageHeaderSize (pPayload v) (put_at 48 (put64 (pLink v)) (put_at 44 (put32 (pItemCount v))
      (put_at 40 (put32 (of_nat (length (pPayload v)))) (put_at 32 (put64 (pBornSequence v))
      (put_at 24 (put64 (pGeneration v)) (put_at 16 (put64 (pID v)) (put_at 12 (put16 (of_nat PageHeaderSize))
      (put_at 10 [pType v, pFlags v] (put_at 8 (put16 FormatVersion) (put_at 0 pageMagic (replicate PageSize 0))))))))))) =
      page_head v @ replicate 8 0 @ pPayload v @ z"
    using n by (simp add: put_at_append put_at_Cons put_at_zeros put_at_zeros_0 page_head_def sizes z_def)
  have eight: "replicate 8 0 = replicate 4 0 @ replicate 4 (0 :: byte)" by (simp flip: replicate_add)
  have sum: "pageChecksum (page_head v @ replicate 8 0 @ pPayload v @ z) = page_sum v"
    unfolding pageChecksum_eq eight by (simp add: page_sum_def page_tail_def sizes z_def)
  have last: "put_at 56 (put32 c) (page_head v @ replicate 8 0 @ pPayload v @ z) = page_bytes v c" for c
    by (simp add: put_at_append put_at_inside page_bytes_def page_tail_def sizes z_def)
  have guard: "\<not> (pType v < PageDatabaseRoot \<or> PageIndexBuildCatalogLeaf < pType v \<or> pID v < 2 \<or> pGeneration v = 0 \<or>
      PageSize - PageHeaderSize < length (pPayload v))" using True by (auto simp: page_ok_def not_less)
  show ?thesis unfolding EncodePage_def Let_def chain sum last using guard True by simp
next
  case False
  then show ?thesis by (auto simp: EncodePage_def page_ok_def not_less)
qed

lemma page_bytes_cuts:
  assumes "length (pPayload v) \<le> PageSize - PageHeaderSize"
  shows "length (page_bytes v c) = PageSize" "cut (page_bytes v c) 0 8 = pageMagic"
    "cut (page_bytes v c) 8 10 = put16 FormatVersion" "page_bytes v c ! 10 = pType v" "page_bytes v c ! 11 = pFlags v"
    "cut (page_bytes v c) 12 14 = put16 (of_nat PageHeaderSize)" "cut (page_bytes v c) 14 16 = replicate 2 0"
    "cut (page_bytes v c) 16 24 = put64 (pID v)" "cut (page_bytes v c) 24 32 = put64 (pGeneration v)"
    "cut (page_bytes v c) 32 40 = put64 (pBornSequence v)"
    "cut (page_bytes v c) 40 44 = put32 (of_nat (length (pPayload v)))" "cut (page_bytes v c) 44 48 = put32 (pItemCount v)"
    "cut (page_bytes v c) 48 56 = put64 (pLink v)" "cut (page_bytes v c) 56 60 = put32 c"
    "cut (page_bytes v c) 60 64 = replicate 4 0"
    "cut (page_bytes v c) PageHeaderSize (PageHeaderSize + length (pPayload v)) = pPayload v"
  using assms by (simp_all add: page_bytes_def page_head_def page_tail_def cut_prefix cut_Cons cut_here sizes nth_append)

lemma page_bytes_drop:
  assumes "length (pPayload v) \<le> PageSize - PageHeaderSize"
  shows "drop (PageHeaderSize + length (pPayload v)) (page_bytes v c) = replicate (PageSize - PageHeaderSize - length (pPayload v)) 0"
  using assms by (simp add: page_bytes_def page_tail_def sizes)

lemma page_from_cuts:
  assumes "length page = PageSize" "PageHeaderSize + n \<le> PageSize"
  shows "page = cut page 0 8 @ cut page 8 10 @ [page ! 10, page ! 11] @ cut page 12 14 @ cut page 14 16 @ cut page 16 24 @
    cut page 24 32 @ cut page 32 40 @ cut page 40 44 @ cut page 44 48 @ cut page 48 56 @ cut page 56 60 @ cut page 60 64 @
    cut page PageHeaderSize (PageHeaderSize + n) @ drop (PageHeaderSize + n) page"
proof -
  have "[page ! 10, page ! 11] = cut page 10 12"
    using assms(1) by (simp add: cut_def sizes list_eq_iff_nth_eq nth_Cons less_2_cases_iff split: nat.split)
  then show ?thesis by (simp add: cut_drop_join sizes del: append.simps)
qed

lemma get_eq:
  "get16 bs = x \<Longrightarrow> length bs = 2 \<Longrightarrow> bs = put16 x"
  "get32 bs = y \<Longrightarrow> length bs = 4 \<Longrightarrow> bs = put32 y"
  "get64 bs = z \<Longrightarrow> length bs = 8 \<Longrightarrow> bs = put64 z"
  by (auto simp: put_get)

lemma put_zero: "put16 0 = replicate 2 0" "put32 0 = replicate 4 0"
  by code_simp+

lemma decodePage_iff:
  "decodePage page i = Inr v \<longleftrightarrow> page_ok v \<and> pID v = i \<and> page = page_bytes v (page_sum v)"
proof
  assume d: "decodePage page i = Inr v"
  define n where "n = unat (get32 (cut page 40 44))"
  have len: "length page = PageSize" and magic: "cut page 0 8 = pageMagic"
    and head: "get16 (cut page 8 10) = FormatVersion" "get16 (cut page 12 14) = of_nat PageHeaderSize"
      "get16 (cut page 14 16) = 0" "get32 (cut page 60 64) = 0" "get64 (cut page 16 24) = i" "2 \<le> i"
    and sum: "get32 (cut page 56 60) = pageChecksum page"
    and n: "n \<le> PageSize - PageHeaderSize" "allZero (drop (PageHeaderSize + n) page)"
    and v: "v = \<lparr>pType = page ! 10, pFlags = page ! 11, pID = i,
                   pGeneration = get64 (cut page 24 32), pBornSequence = get64 (cut page 32 40),
                   pItemCount = get32 (cut page 44 48), pLink = get64 (cut page 48 56),
                   pPayload = cut page PageHeaderSize (PageHeaderSize + n)\<rparr>"
    and ok: "PageDatabaseRoot \<le> pType v" "pType v \<le> PageIndexBuildCatalogLeaf" "pGeneration v \<noteq> 0"
    using d unfolding decodePage_def Let_def n_def [symmetric] by (auto simp: not_less split: if_splits)
  have pl: "length (pPayload v) = n" using v len n(1) by (simp add: sizes)
  have lens: "length (cut page 8 10) = 2" "length (cut page 12 14) = 2" "length (cut page 14 16) = 2"
    "length (cut page 16 24) = 8" "length (cut page 40 44) = 4" "length (cut page 56 60) = 4" "length (cut page 60 64) = 4"
    using len by (simp_all add: sizes)
  have "pID v = i" using v by simp
  moreover have "of_nat n = get32 (cut page 40 44)" unfolding n_def by simp
  ultimately have fields: "cut page 8 10 = put16 FormatVersion" "cut page 12 14 = put16 (of_nat PageHeaderSize)"
    "cut page 16 24 = put64 (pID v)" "cut page 40 44 = put32 (of_nat n)"
    "cut page 56 60 = put32 (pageChecksum page)" "cut page 14 16 = replicate 2 0" "cut page 60 64 = replicate 4 0"
    using get_eq(1) [OF head(1) lens(1)] get_eq(1) [OF head(2) lens(2)] get_eq(1) [OF head(3) lens(3)]
      get_eq(3) [OF head(5) lens(4)] get_eq(2) [OF refl lens(5)] get_eq(2) [OF sum lens(6)]
      get_eq(2) [OF head(4) lens(7)] by (simp_all add: put_zero)
  have rest: "drop (PageHeaderSize + n) page = replicate (PageSize - PageHeaderSize - n) 0"
    using n(2) len unfolding allZero_iff by simp
  have vs: "pType v = page ! 10" "pFlags v = page ! 11" "put64 (pGeneration v) = cut page 24 32"
    "put64 (pBornSequence v) = cut page 32 40" "put32 (pItemCount v) = cut page 44 48" "put64 (pLink v) = cut page 48 56"
    "pPayload v = cut page PageHeaderSize (PageHeaderSize + n)"
    using len unfolding v by (simp_all add: sizes put_get)
  have le: "PageHeaderSize + n \<le> PageSize" using n(1) by (simp add: sizes)
  have p: "page = page_bytes v (pageChecksum page)"
    unfolding page_bytes_def page_head_def page_tail_def pl vs(1-6) fields [symmetric] magic [symmetric] rest [symmetric]
    unfolding vs(7) by (rule trans [OF page_from_cuts [OF len le]]) (simp only: append_assoc)
  then have "pageChecksum page = page_sum v" using pageChecksum_bytes by metis
  moreover have "page_ok v" using ok n(1) pl head(6) v by (simp add: page_ok_def)
  ultimately show "page_ok v \<and> pID v = i \<and> page = page_bytes v (page_sum v)" using p v by simp
next
  assume a: "page_ok v \<and> pID v = i \<and> page = page_bytes v (page_sum v)"
  then have n: "length (pPayload v) \<le> PageSize - PageHeaderSize" by (simp add: page_ok_def)
  have "length (pPayload v) < 2 ^ 32" using n by (simp add: sizes)
  then have u: "unat (of_nat (length (pPayload v)) :: uint32) = length (pPayload v)" by (simp add: unat_of_nat)
  have z: "get16 (replicate 2 0) = 0" "get32 (replicate 4 0) = 0"
    unfolding put_zero [symmetric] by simp_all
  have tail: "allZero (drop (PageHeaderSize + length (pPayload v)) (page_bytes v (page_sum v)))"
    unfolding page_bytes_drop [OF n] allZero_iff by simp
  have eta: "\<lparr>pType = pType v, pFlags = pFlags v, pID = pID v, pGeneration = pGeneration v, pBornSequence = pBornSequence v,
      pItemCount = pItemCount v, pLink = pLink v, pPayload = pPayload v\<rparr> = v" by (cases v) simp
  have ok: "\<not> pType v < PageDatabaseRoot" "\<not> PageIndexBuildCatalogLeaf < pType v" "\<not> pID v < 2" "pGeneration v \<noteq> 0"
    "\<not> PageSize - PageHeaderSize < length (pPayload v)"
    using a by (auto simp: page_ok_def not_less)
  have "decodePage (page_bytes v (page_sum v)) (pID v) = Inr v"
    by (simp add: decodePage_def Let_def page_bytes_cuts [OF n] pageChecksum_bytes u z tail eta ok)
  then show "decodePage page i = Inr v" using a by simp
qed

lemma crc32_update_ne:
  assumes "i < length xs" "b \<noteq> xs ! i"
  shows "crc32_Update c xs \<noteq> crc32_Update c (xs [i := b])"
proof -
  have "xs = take i xs @ xs ! i # drop (Suc i) xs" "xs [i := b] = take i xs @ b # drop (Suc i) xs"
    using assms(1) by (simp_all add: id_take_nth_drop upd_conv_take_nth_drop)
  then show ?thesis using crc32_one_byte [of "xs ! i" b c "take i xs" "drop (Suc i) xs"] assms(2) by metis
qed

lemma page_sum_flip:
  assumes "i < length (page_head v @ put32 (page_sum v) @ page_tail v)" "b \<noteq> page_bytes v (page_sum v) ! i"
    "i < 56 \<or> 60 \<le> i"
  shows "pageChecksum ((page_bytes v (page_sum v)) [i := b]) \<noteq> page_sum v"
proof -
  let ?p = "page_bytes v (page_sum v)"
  let ?z = "\<lambda>q. take 56 q @ replicate 4 0 @ drop 60 q"
  have len: "i < length ?p" using assms(1) by (simp add: page_bytes_def)
  have z: "?z (?p [i := b]) = (?z ?p) [i := b]" "?z ?p ! i = ?p ! i" "i < length (?z ?p)"
    using assms(3) len by (auto simp: list_update_append take_update_swap drop_update_swap drop_update_cancel nth_append
        take_update_cancel list_update_beyond)
  have "crc32_Update 0 (?z ?p) \<noteq> crc32_Update 0 (?z (?p [i := b]))"
    unfolding z(1) by (rule crc32_update_ne) (use z(2,3) assms(2) in simp_all)
  then show ?thesis using pageChecksum_bytes [of v "page_sum v"] unfolding pageChecksum_eq by metis
qed

lemma page_flip:
  assumes "page_ok v" "i < PageSize" "b \<noteq> page_bytes v (page_sum v) ! i" "pID w = pID v"
  shows "(page_bytes v (page_sum v)) [i := b] \<noteq> page_bytes w (page_sum w)"
proof
  let ?p = "page_bytes v (page_sum v)"
  assume eq: "?p [i := b] = page_bytes w (page_sum w)"
  have len: "length (pPayload v) \<le> PageSize - PageHeaderSize" using assms(1) by (simp add: page_ok_def)
  have i: "i < length ?p" using assms(2) page_bytes_cuts(1) [OF len] by simp
  have c: "pageChecksum (?p [i := b]) = get32 (cut (?p [i := b]) 56 60)" unfolding eq pageChecksum_bytes
    by (simp add: page_bytes_def cut_prefix cut_here)
  have s: "get32 (cut ?p 56 60) = page_sum v" by (simp add: page_bytes_cuts(14) [OF len])
  show False
  proof (cases "i < 56 \<or> 60 \<le> i")
    case True
    then have "cut (?p [i := b]) 56 60 = cut ?p 56 60" by (auto simp: cut_def drop_update_swap drop_update_cancel take_update_cancel)
    then show False using page_sum_flip [OF _ assms(3) True] i c s by (simp add: page_bytes_def)
  next
    case False
    then have "pageChecksum (?p [i := b]) = pageChecksum ?p" by (simp add: pageChecksum_eq take_update_cancel drop_update_cancel)
    then have "get32 (cut (?p [i := b]) 56 60) = page_sum v" using c unfolding pageChecksum_bytes by simp
    then have "cut (?p [i := b]) 56 60 = put32 (page_sum v)"
      by (rule get_eq(2)) (simp add: page_bytes_cuts(1) [OF len] sizes)
    then have "cut (?p [i := b]) 56 60 = cut ?p 56 60" using page_bytes_cuts(14) [OF len] by simp
    then have "cut (?p [i := b]) 56 60 ! (i - 56) = cut ?p 56 60 ! (i - 56)" by simp
    moreover have "56 \<le> i" "i - 56 < 4" using False by linarith+
    ultimately show False using i assms(3) page_bytes_cuts(1) [OF len] by (simp add: cut_def sizes)
  qed
qed

section \<open>Database roots and free extents\<close>

definition root_payload :: "DatabaseRoot \<Rightarrow> bytes" where
  "root_payload root =
     put64 (rCommitSequence root) @ put64 (rCatalogRoot root) @ put64 (rCommitLogRoot root) @ put64 (rFreeSpaceRoot root) @
     put64 (rOldestRetainedSequence root) @ put64 (rCatalogGeneration root) @ put64 (rDocumentCount root) @
     put64 (rCollectionCount root) @ put64 (rIndexBuildCatalogRoot root) @ replicate 56 0"

definition root_page :: "uint64 \<Rightarrow> uint64 \<Rightarrow> DatabaseRoot \<Rightarrow> Page" where
  "root_page pageID generation root =
     \<lparr>pType = PageDatabaseRoot, pFlags = 0, pID = pageID, pGeneration = generation,
      pBornSequence = rCommitSequence root, pItemCount = 1, pLink = 0, pPayload = root_payload root\<rparr>"

text \<open>The roots the encoder accepts, apart from the page header: the first commit sequence has no trees yet.\<close>

definition root_started :: "DatabaseRoot \<Rightarrow> bool" where
  "root_started root \<longleftrightarrow>
     rCommitSequence root \<noteq> 0 \<or>
     rCatalogRoot root = 0 \<and> rCommitLogRoot root = 0 \<and> rFreeSpaceRoot root = 0 \<and> rIndexBuildCatalogRoot root = 0"

lemma length_root_payload [simp]: "length (root_payload root) = 128"
  by (simp add: root_payload_def)

lemma EncodeDatabaseRoot_page:
  "EncodeDatabaseRoot i g root =
     (if rOldestRetainedSequence root \<le> rCommitSequence root \<and> root_started root then EncodePage (root_page i g root)
      else Inl SErrCorrupt)"
proof -
  have chain: "put_at 64 (put64 (rIndexBuildCatalogRoot root)) (put_at 56 (put64 (rCollectionCount root))
      (put_at 48 (put64 (rDocumentCount root)) (put_at 40 (put64 (rCatalogGeneration root))
      (put_at 32 (put64 (rOldestRetainedSequence root)) (put_at 24 (put64 (rFreeSpaceRoot root))
      (put_at 16 (put64 (rCommitLogRoot root)) (put_at 8 (put64 (rCatalogRoot root))
      (put_at 0 (put64 (rCommitSequence root)) (replicate 128 0))))))))) = root_payload root"
    by (simp add: put_at_append put_at_zeros_0 root_payload_def)
  show ?thesis unfolding EncodeDatabaseRoot_def Let_def chain root_page_def by (auto simp: root_started_def not_less)
qed

lemma root_payload_cuts:
  "cut (root_payload root) 0 8 = put64 (rCommitSequence root)" "cut (root_payload root) 8 16 = put64 (rCatalogRoot root)"
  "cut (root_payload root) 16 24 = put64 (rCommitLogRoot root)" "cut (root_payload root) 24 32 = put64 (rFreeSpaceRoot root)"
  "cut (root_payload root) 32 40 = put64 (rOldestRetainedSequence root)"
  "cut (root_payload root) 40 48 = put64 (rCatalogGeneration root)"
  "cut (root_payload root) 48 56 = put64 (rDocumentCount root)" "cut (root_payload root) 56 64 = put64 (rCollectionCount root)"
  "cut (root_payload root) 64 72 = put64 (rIndexBuildCatalogRoot root)" "drop 72 (root_payload root) = replicate 56 0"
  by (simp_all add: root_payload_def cut_prefix cut_here)

lemma payload_from_cuts:
  "p = cut p 0 8 @ cut p 8 16 @ cut p 16 24 @ cut p 24 32 @ cut p 32 40 @ cut p 40 48 @ cut p 48 56 @ cut p 56 64 @
    cut p 64 72 @ drop 72 p"
  by (simp add: cut_drop_join)

lemma DecodeDatabaseRoot_iff:
  "DecodeDatabaseRoot page i = Inr (root, p) \<longleftrightarrow>
     p = root_page i (pGeneration p) root \<and> rOldestRetainedSequence root \<le> rCommitSequence root \<and> EncodePage p = Inr page"
proof
  assume d: "DecodeDatabaseRoot page i = Inr (root, p)"
  have p: "decodePage page i = Inr p" "pType p = PageDatabaseRoot" "pFlags p = 0" "pItemCount p = 1" "pLink p = 0"
      "length (pPayload p) = 128" "allZero (drop 72 (pPayload p))"
    and seq: "rCommitSequence root = pBornSequence p" "rOldestRetainedSequence root \<le> rCommitSequence root"
    and root: "root = \<lparr>rCommitSequence = get64 (cut (pPayload p) 0 8), rCatalogRoot = get64 (cut (pPayload p) 8 16),
               rCommitLogRoot = get64 (cut (pPayload p) 16 24), rFreeSpaceRoot = get64 (cut (pPayload p) 24 32),
               rOldestRetainedSequence = get64 (cut (pPayload p) 32 40), rCatalogGeneration = get64 (cut (pPayload p) 40 48),
               rDocumentCount = get64 (cut (pPayload p) 48 56), rCollectionCount = get64 (cut (pPayload p) 56 64),
               rIndexBuildCatalogRoot = get64 (cut (pPayload p) 64 72)\<rparr>"
    using d by (auto simp: DecodeDatabaseRoot_def DecodePage_def Let_def not_less split: if_splits)
  have z: "drop 72 (pPayload p) = replicate 56 0" using p(6,7) unfolding allZero_iff by simp
  have "root_payload root = pPayload p"
    by (rule trans [OF _ payload_from_cuts [symmetric]])
      (simp add: root_payload_def root put_get p(6) z)
  then have "p = root_page i (pGeneration p) root"
    using p seq by (cases p) (auto simp: root_page_def decodePage_iff)
  moreover have "EncodePage p = Inr page" using p(1) by (simp add: decodePage_iff EncodePage_bytes)
  ultimately show "p = root_page i (pGeneration p) root \<and> rOldestRetainedSequence root \<le> rCommitSequence root \<and>
      EncodePage p = Inr page" using seq(2) by blast
next
  assume a: "p = root_page i (pGeneration p) root \<and> rOldestRetainedSequence root \<le> rCommitSequence root \<and>
      EncodePage p = Inr page"
  define g where "g = pGeneration p"
  have p: "p = root_page i g root" using a g_def by blast
  have d: "decodePage page i = Inr p" using a unfolding decodePage_iff by (auto simp: EncodePage_bytes p root_page_def split: if_splits)
  have z: "allZero (drop 72 (root_payload root))" unfolding root_payload_cuts allZero_iff by simp
  show "DecodeDatabaseRoot page i = Inr (root, p)"
    using a z unfolding DecodeDatabaseRoot_def DecodePage_def d
    by (simp add: p root_page_def root_payload_cuts Let_def not_less)
qed

lemma encodeFreeSpaceExtent_bytes:
  "encodeFreeSpaceExtent stop safe audit =
     (if 2 < stop \<and> stop \<le> safe \<and> audit \<noteq> 0 then Inr (freeSpaceExtentMagic @ put64 stop @ put64 safe @ put64 audit)
      else Inl SErrCorrupt)"
proof -
  have chain: "put_at 24 (put64 audit) (put_at 16 (put64 safe) (put_at 8 (put64 stop)
      (put_at 0 freeSpaceExtentMagic (replicate 32 0)))) = freeSpaceExtentMagic @ put64 stop @ put64 safe @ put64 audit"
    by (simp add: put_at_append put_at_zeros_0)
  show ?thesis unfolding encodeFreeSpaceExtent_def Let_def chain by (auto simp: not_less)
qed

section \<open>Properties\<close>

text \<open>C33: a 16384-byte metadata page decodes to a value exactly when it is the page that
  \<^const>\<open>EncodeMeta\<close> writes for that value. Decoding inverts encoding, and no two pages decode to the same metadata: a
  wrong magic number, version, page size, reserved byte, required feature or SHA-256 checksum is never accepted.\<close>

theorem meta_codec_canonical:
  "DecodeMeta page = Inr m \<longleftrightarrow> length (mDatabaseID m) = 16 \<and> EncodeMeta m = Inr page"
  by (auto simp: DecodeMeta_iff EncodeMeta_page split: if_splits)

text \<open>C8: a page decodes to a value under the expected page number exactly when the value carries that
  number and \<^const>\<open>EncodePage\<close> writes precisely these bytes for it: decoding inverts encoding, and the decoder accepts
  nothing but encodings.\<close>

theorem page_codec_canonical: "decodePage page expectedID = Inr v \<longleftrightarrow> pID v = expectedID \<and> EncodePage v = Inr page"
  by (auto simp: decodePage_iff EncodePage_bytes split: if_splits)

text \<open>C9: replacing any single byte of an encoded page, wherever it lies (header, checksum, payload or
  padding), by a different one makes the decoder report corruption. The damage is never read as some other page.\<close>

theorem page_byte_damage:
  assumes "EncodePage v = Inr page" "i < PageSize" "b \<noteq> page ! i"
  shows "decodePage (page[i := b]) (pID v) = Inl SErrCorrupt"
proof -
  have v: "page_ok v" "page = page_bytes v (page_sum v)" using assms(1) by (auto simp: EncodePage_bytes split: if_splits)
  have "decodePage (page[i := b]) (pID v) \<noteq> Inr w" for w
    unfolding decodePage_iff using page_flip [OF v(1) assms(2)] assms(3) unfolding v(2) by auto
  moreover have "decodePage q n = Inl SErrCorrupt \<or> (\<exists>w. decodePage q n = Inr w)" for q n
    by (auto simp: decodePage_def Let_def)
  ultimately show ?thesis by blast
qed

theorem page_byte_damage_witness:
  "\<exists>page. EncodePage (root_page 2 1 (DatabaseRoot.make 0 0 0 0 0 0 0 0 0)) = Inr page \<and>
     decodePage (page[10 := 2]) 2 = Inl SErrCorrupt"
proof -
  let ?v = "root_page 2 1 (DatabaseRoot.make 0 0 0 0 0 0 0 0 0)"
  let ?page = "page_bytes ?v (page_sum ?v)"
  have ok: "page_ok ?v" by (simp add: page_ok_def root_page_def PageDatabaseRoot_def PageIndexBuildCatalogLeaf_def sizes)
  have "length (pPayload ?v) \<le> PageSize - PageHeaderSize" by (simp add: root_page_def sizes)
  then have "?page ! 10 = 1" by (simp add: page_bytes_cuts root_page_def PageDatabaseRoot_def)
  moreover have e: "EncodePage ?v = Inr ?page" using ok by (simp add: EncodePage_bytes)
  ultimately have "decodePage (?page[10 := 2]) (pID ?v) = Inl SErrCorrupt"
    by (intro page_byte_damage) (simp_all add: sizes)
  then show ?thesis using e by (auto simp: root_page_def)
qed

text \<open>C34: \<^const>\<open>EncodeDatabaseRoot\<close> succeeds with a page exactly when the decoder
  reads that page, under the same page number, as the same root and the same generation, and the root of the first commit
  sequence has no trees. Every root that is written is read back unchanged.\<close>

theorem database_root_roundtrip:
  "EncodeDatabaseRoot pageID generation root = Inr page \<longleftrightarrow>
     root_started root \<and> (\<exists>p. DecodeDatabaseRoot page pageID = Inr (root, p) \<and> pGeneration p = generation)"
proof -
  have g: "pGeneration (root_page pageID generation root) = generation" by (simp add: root_page_def)
  then have "(\<exists>p. DecodeDatabaseRoot page pageID = Inr (root, p) \<and> pGeneration p = generation) \<longleftrightarrow>
      DecodeDatabaseRoot page pageID = Inr (root, root_page pageID generation root)"
    unfolding DecodeDatabaseRoot_iff by metis
  then show ?thesis unfolding EncodeDatabaseRoot_page DecodeDatabaseRoot_iff g by auto
qed

text \<open>C35: a free-space entry decodes to an extent exactly when its key is the big-endian start page,
  the extent is not empty and begins after the two metadata pages, and its bytes are the encoding of the end page and audit
  generation for some safe page count within the file.\<close>

theorem free_extent_roundtrip:
  "decodeFreeSpaceExtent key v physicalPages = Inr (start, stop, auditGeneration) \<longleftrightarrow>
     key = freeSpaceKey start \<and> 2 \<le> start \<and> start < stop \<and>
     (\<exists>safe. safe \<le> physicalPages \<and> encodeFreeSpaceExtent stop safe auditGeneration = Inr v)"
  (is "?l \<longleftrightarrow> ?r")
proof
  assume ?l
  then have k: "length key = 8" "length v = 32" "cut v 0 8 = freeSpaceExtentMagic" "start = be_get64 key"
      "stop = get64 (cut v 8 16)" "auditGeneration = get64 (cut v 24 32)" "2 \<le> start" "start < stop"
      "stop \<le> get64 (cut v 16 24)" "get64 (cut v 16 24) \<le> physicalPages" "auditGeneration \<noteq> 0"
    by (auto simp: decodeFreeSpaceExtent_def Let_def not_less not_le split: if_splits)
  have "v = cut v 0 8 @ cut v 8 16 @ cut v 16 24 @ cut v 24 32"
    using cut_all [of v] by (simp add: cut_join k(2))
  then have "encodeFreeSpaceExtent stop (get64 (cut v 16 24)) auditGeneration = Inr v"
    unfolding encodeFreeSpaceExtent_bytes using k by (simp add: put_get)
  then show ?r using k by (auto simp: freeSpaceKey_def put_get)
next
  assume ?r
  then obtain safe where "key = freeSpaceKey start" "2 \<le> start" "start < stop" "safe \<le> physicalPages" "stop \<le> safe"
      "auditGeneration \<noteq> 0" "v = freeSpaceExtentMagic @ put64 stop @ put64 safe @ put64 auditGeneration"
    by (auto simp: encodeFreeSpaceExtent_bytes split: if_splits)
  then show ?l
    by (simp add: decodeFreeSpaceExtent_def Let_def freeSpaceKey_def cut_prefix cut_here cut_whole not_less not_le)
qed

end
