(* ===== verification/Page_Cache.thy ===== *)
theory Page_Cache
  imports Page_Format "HOL-Library.AList"
begin

text \<open>
  The page cache, \<open>internal/storage/pagecache.go\<close>: sixteen partitions, each a map of cached pages with a ring of page
  numbers for round-robin eviction. A map is an association list with distinct keys; an index out of range, which would panic,
  is \<open>None\<close>. The partition locks make each call atomic and are not modelled. The counters of \<open>PageCacheStats\<close> are.

  What a client needs of the cache is the locale \<open>forgetful_map\<close>: it may forget a page at any time, it never
  makes one up, and an invalidated page is gone.
\<close>

section \<open>State and operations\<close>

definition pageCacheShards :: nat where
  "pageCacheShards = 16"

definition defaultCachedPages :: nat where
  "defaultCachedPages = 1024"

record cachedPage =
  c_raw :: bytes
  c_page :: Page

record pageCacheShard =
  entries :: "(uint64 \<times> cachedPage) list"
  order :: "uint64 list"
  hand :: nat
  limit :: nat

record pageCache =
  shards :: "pageCacheShard list"
  hits :: uint64
  misses :: uint64
  evictions :: uint64

record PageCacheStats =
  CapacityPages :: uint64
  ResidentPages :: uint64
  Hits :: uint64
  Misses :: uint64
  Evictions :: uint64

definition newPageCache :: "nat \<Rightarrow> pageCache" where
  "newPageCache capacity =
     (let capacity = (if capacity < pageCacheShards then pageCacheShards else capacity);
          base = capacity div pageCacheShards;
          remainder = capacity mod pageCacheShards
      in \<lparr>shards = map (\<lambda>index. \<lparr>entries = [], order = [], hand = 0,
                 limit = (if index < remainder then base + 1 else base)\<rparr>) [0..<pageCacheShards],
          hits = 0, misses = 0, evictions = 0\<rparr>)"

definition shard_of :: "uint64 \<Rightarrow> nat" where
  "shard_of pageID = unat (pageID mod of_nat pageCacheShards)"

definition cache_get :: "pageCache \<Rightarrow> uint64 \<Rightarrow> cachedPage option \<times> pageCache" where
  "cache_get cache pageID =
     (case map_of (entries (shards cache ! shard_of pageID)) pageID of
        None \<Rightarrow> (None, cache\<lparr>misses := misses cache + 1\<rparr>)
      | Some page \<Rightarrow> (Some page, cache\<lparr>hits := hits cache + 1\<rparr>))"

definition shard_evict :: "pageCacheShard \<Rightarrow> uint64 \<Rightarrow> pageCacheShard option" where
  "shard_evict shard pageID =
     (if hand shard < length (order shard) \<and> limit shard \<noteq> 0
      then Some (shard\<lparr>entries := AList.delete (order shard ! hand shard) (entries shard),
                   order := (order shard)[hand shard := pageID],
                   hand := (hand shard + 1) mod limit shard\<rparr>)
      else None)"

definition cache_put :: "pageCache \<Rightarrow> uint64 \<Rightarrow> bytes \<Rightarrow> Page \<Rightarrow> (cachedPage \<times> pageCache) option" where
  "cache_put cache pageID raw decoded =
     (let entry = \<lparr>c_raw = raw, c_page = decoded\<rparr>;
          n = shard_of pageID;
          shard = shards cache ! n;
          store = (\<lambda>shard. shard\<lparr>entries := AList.update pageID entry (entries shard)\<rparr>)
      in case map_of (entries shard) pageID of
           Some existing \<Rightarrow> Some (existing, cache)
         | None \<Rightarrow>
             if limit shard \<le> length (entries shard)
             then Option.bind (shard_evict shard pageID) (\<lambda>shard.
                    Some (entry, cache\<lparr>shards := (shards cache)[n := store shard], evictions := evictions cache + 1\<rparr>))
             else Some (entry, cache\<lparr>shards := (shards cache)[n := store (shard\<lparr>order := order shard @ [pageID]\<rparr>)]\<rparr>))"

fun order_position :: "uint64 \<Rightarrow> uint64 list \<Rightarrow> nat option" where
  "order_position pageID [] = None"
| "order_position pageID (candidate # rest) =
     (if candidate = pageID then Some 0 else map_option Suc (order_position pageID rest))"

definition shard_invalidate :: "pageCacheShard \<Rightarrow> uint64 \<Rightarrow> pageCacheShard" where
  "shard_invalidate shard pageID =
     (if map_of (entries shard) pageID = None then shard
      else
        let shard = shard\<lparr>entries := AList.delete pageID (entries shard)\<rparr>
        in case order_position pageID (order shard) of
             None \<Rightarrow> shard
           | Some index \<Rightarrow>
               let shard = shard\<lparr>order := take index (order shard) @ drop (index + 1) (order shard)\<rparr>;
                   shard = (if index < hand shard then shard\<lparr>hand := hand shard - 1\<rparr> else shard)
               in if order shard = [] \<or> length (order shard) \<le> hand shard then shard\<lparr>hand := 0\<rparr> else shard)"

definition cache_invalidate1 :: "uint64 \<Rightarrow> pageCache \<Rightarrow> pageCache" where
  "cache_invalidate1 pageID cache =
     (let n = shard_of pageID
      in cache\<lparr>shards := (shards cache)[n := shard_invalidate (shards cache ! n) pageID]\<rparr>)"

definition cache_invalidate :: "pageCache \<Rightarrow> uint64 list \<Rightarrow> pageCache" where
  "cache_invalidate cache pageIDs = fold cache_invalidate1 pageIDs cache"

definition cache_stats :: "pageCache \<Rightarrow> PageCacheStats" where
  "cache_stats cache =
     fold (\<lambda>shard stats. stats\<lparr>CapacityPages := CapacityPages stats + of_nat (limit shard),
             ResidentPages := ResidentPages stats + of_nat (length (entries shard))\<rparr>) (shards cache)
       \<lparr>CapacityPages = 0, ResidentPages = 0, Hits = hits cache, Misses = misses cache, Evictions = evictions cache\<rparr>"

section \<open>The contract of a cache\<close>

locale forgetful_map =
  fixes wf :: "'c \<Rightarrow> bool"
    and find :: "'c \<Rightarrow> 'k \<Rightarrow> 'v option"
    and store :: "'c \<Rightarrow> 'k \<Rightarrow> 'v \<Rightarrow> ('v \<times> 'c) option"
    and forget :: "'c \<Rightarrow> 'k list \<Rightarrow> 'c"
  assumes store_returns: "wf c \<Longrightarrow> \<exists>r. store c k v = Some r"
    and store_wf: "wf c \<Longrightarrow> store c k v = Some (v', c') \<Longrightarrow> wf c'"
    and store_result: "wf c \<Longrightarrow> store c k v = Some (v', c') \<Longrightarrow> v' = (case find c k of None \<Rightarrow> v | Some w \<Rightarrow> w)"
    and store_find: "wf c \<Longrightarrow> store c k v = Some (v', c') \<Longrightarrow> find c' k = Some v'"
    and store_other: "wf c \<Longrightarrow> store c k v = Some (v', c') \<Longrightarrow> j \<noteq> k \<Longrightarrow> find c' j = None \<or> find c' j = find c j"
    and forget_wf: "wf c \<Longrightarrow> wf (forget c ks)"
    and forget_find: "wf c \<Longrightarrow> find (forget c ks) j = (if j \<in> set ks then None else find c j)"
begin

definition coherent :: "('k \<Rightarrow> 'v option) \<Rightarrow> 'c \<Rightarrow> bool" where
  "coherent source c \<longleftrightarrow> wf c \<and> (\<forall>k v. find c k = Some v \<longrightarrow> source k = Some v)"

lemma coherent_store:
  assumes "coherent source c" "source k = Some v"
  shows "\<exists>c'. store c k v = Some (v, c') \<and> coherent source c'"
proof -
  have wf: "wf c" using assms(1) by (simp add: coherent_def)
  obtain v' c' where s: "store c k v = Some (v', c')" using store_returns [OF wf, of k v] by auto
  have v': "v' = v" using store_result [OF wf s] assms by (auto simp: coherent_def split: option.splits)
  have "source j = Some w" if "find c' j = Some w" for j w
    using that store_find [OF wf s] store_other [OF wf s, of j] assms v' unfolding coherent_def by (metis option.simps(3))
  then show ?thesis using s store_wf [OF wf s] v' by (auto simp: coherent_def)
qed

lemma coherent_forget:
  assumes "coherent source c" "\<And>k v. find c k = Some v \<Longrightarrow> k \<notin> set ks \<Longrightarrow> source' k = source k"
  shows "coherent source' (forget c ks)"
  using assms forget_wf forget_find by (fastforce simp: coherent_def split: if_splits)

end

section \<open>Invariant\<close>

definition shard_wf :: "nat \<Rightarrow> pageCacheShard \<Rightarrow> bool" where
  "shard_wf n s \<longleftrightarrow>
     distinct (map fst (entries s)) \<and> distinct (order s) \<and> set (order s) = fst ` set (entries s) \<and>
     length (order s) \<le> limit s \<and> 0 < limit s \<and> hand s < limit s \<and> (\<forall>k \<in> set (order s). shard_of k = n)"

definition cache_wf :: "pageCache \<Rightarrow> bool" where
  "cache_wf c \<longleftrightarrow> length (shards c) = pageCacheShards \<and> (\<forall>n < pageCacheShards. shard_wf n (shards c ! n))"

definition cache_find :: "pageCache \<Rightarrow> uint64 \<Rightarrow> cachedPage option" where
  "cache_find c k = map_of (entries (shards c ! shard_of k)) k"

lemma shard_of_less: "shard_of k < pageCacheShards"
  by (simp add: shard_of_def pageCacheShards_def unat_mod_distrib)

lemma entries_length: "shard_wf n s \<Longrightarrow> length (entries s) = length (order s)"
  by (metis shard_wf_def distinct_card length_map set_map)

lemma order_position_find:
  "order_position k xs = (if k \<in> set xs then Some (length (takeWhile (\<lambda>x. x \<noteq> k) xs)) else None)"
  by (induction xs) auto

lemma shard_wf_find: "shard_wf n s \<Longrightarrow> map_of (entries s) k = None \<longleftrightarrow> k \<notin> set (order s)"
  by (simp add: shard_wf_def map_of_eq_None_iff)

lemma map_of_delete_key: "map_of (AList.delete k xs) j = (if j = k then None else map_of xs j)"
  by (simp add: AList.delete_conv)

lemma delete_dom: "fst ` set (AList.delete k xs) = fst ` set xs - {k}"
  by (metis AList.delete_keys set_map set_removeAll)

lemma shard_evict_wf:
  assumes "shard_wf n s" "limit s \<le> length (order s)"
  shows "shard_evict s k = Some (s\<lparr>entries := AList.delete (order s ! hand s) (entries s),
    order := (order s)[hand s := k], hand := (hand s + 1) mod limit s\<rparr>)"
  using assms by (simp add: shard_evict_def shard_wf_def)

text \<open>Storing an entry in a partition, with the eviction that makes room for it.\<close>

definition shard_put :: "pageCacheShard \<Rightarrow> uint64 \<Rightarrow> cachedPage \<Rightarrow> pageCacheShard" where
  "shard_put s k e =
     (if limit s \<le> length (entries s)
      then s\<lparr>order := (order s)[hand s := k], hand := (hand s + 1) mod limit s,
             entries := AList.update k e (AList.delete (order s ! hand s) (entries s))\<rparr>
      else s\<lparr>order := order s @ [k], entries := AList.update k e (entries s)\<rparr>)"

lemma shard_put_wf:
  assumes s: "shard_wf n s" and k: "k \<notin> set (order s)" "shard_of k = n"
  shows "shard_wf n (shard_put s k e)"
proof (cases "limit s \<le> length (entries s)")
  case True
  have h: "hand s < length (order s)" "length (order s) = limit s"
    using True s entries_length [OF s] by (simp_all add: shard_wf_def)
  have "set ((order s)[hand s := k]) = insert k (set (order s) - {order s ! hand s})"
    using set_update_distinct [OF _ h(1)] s by (simp add: shard_wf_def)
  moreover have "distinct ((order s)[hand s := k])" using s k by (simp add: shard_wf_def distinct_list_update)
  moreover have "fst ` set (AList.update k e (AList.delete (order s ! hand s) (entries s))) = insert k (set (order s) - {order s ! hand s})"
    using s delete_dom [of "order s ! hand s" "entries s"] by (simp add: AList.dom_update shard_wf_def)
  ultimately show ?thesis
    using True h s k by (simp add: shard_put_def shard_wf_def AList.distinct_update AList.distinct_delete)
next
  case False
  then show ?thesis using s k entries_length [OF s]
    by (simp add: shard_put_def shard_wf_def AList.distinct_update AList.dom_update)
qed

lemma shard_put_find:
  assumes "shard_wf n s"
  shows "map_of (entries (shard_put s k e)) k = Some e"
    "j \<noteq> k \<Longrightarrow> map_of (entries (shard_put s k e)) j = None \<or> map_of (entries (shard_put s k e)) j = map_of (entries s) j"
  by (simp_all add: shard_put_def AList.update_conv map_of_delete_key)

lemma cache_put_eq:
  assumes "cache_wf c"
  shows "cache_put c k raw p =
    (case cache_find c k of
       Some e \<Rightarrow> Some (e, c)
     | None \<Rightarrow> Some (\<lparr>c_raw = raw, c_page = p\<rparr>,
         c\<lparr>shards := (shards c)[shard_of k := shard_put (shards c ! shard_of k) k \<lparr>c_raw = raw, c_page = p\<rparr>],
           evictions := (if limit (shards c ! shard_of k) \<le> length (entries (shards c ! shard_of k)) then evictions c + 1
             else evictions c)\<rparr>))"
proof -
  have s: "shard_wf (shard_of k) (shards c ! shard_of k)" using assms shard_of_less by (simp add: cache_wf_def)
  show ?thesis
    using shard_evict_wf [OF s] entries_length [OF s]
    by (auto simp: cache_put_def Let_def cache_find_def shard_put_def split: option.splits)
qed

lemma cache_find_update:
  assumes "cache_wf c"
  shows "cache_find (c\<lparr>shards := (shards c)[shard_of k := s], evictions := v\<rparr>) j =
    (if shard_of j = shard_of k then map_of (entries s) j else cache_find c j)"
  using assms shard_of_less [of k] by (simp add: cache_find_def cache_wf_def)

lemma cache_wf_update:
  assumes "cache_wf c" "shard_wf (shard_of k) s"
  shows "cache_wf (c\<lparr>shards := (shards c)[shard_of k := s], evictions := v\<rparr>)"
proof -
  have "shard_wf n ((shards c)[shard_of k := s] ! n)" if "n < pageCacheShards" for n
    using assms that by (cases "n = shard_of k") (simp_all add: cache_wf_def)
  then show ?thesis using assms(1) by (simp add: cache_wf_def)
qed

lemma order_delete:
  assumes "distinct xs" "order_position k xs = Some i"
  shows "take i xs @ drop (i + 1) xs = remove1 k xs" "i < length xs" "k \<in> set xs"
proof -
  have k: "k \<in> set xs" "i = length (takeWhile (\<lambda>x. x \<noteq> k) xs)" using assms(2) by (auto simp: order_position_find split: if_splits)
  show "k \<in> set xs" by (fact k)
  have "take i xs @ drop (i + 1) xs = remove1 k xs \<and> i < length xs" using k by (induction xs arbitrary: i) auto
  then show "take i xs @ drop (i + 1) xs = remove1 k xs" "i < length xs" by simp_all
qed

lemma shard_invalidate_entries: "entries (shard_invalidate s k) = AList.delete k (entries s)"
  by (auto simp: shard_invalidate_def Let_def AList.delete_id map_of_eq_None_iff split: option.splits)

lemma shard_invalidate_wf:
  assumes s: "shard_wf n s"
  shows "shard_wf n (shard_invalidate s k)"
proof (cases "k \<in> set (order s)")
  case False
  then show ?thesis using s shard_wf_find [OF s] by (simp add: shard_invalidate_def)
next
  case True
  then obtain i where i: "order_position k (order s) = Some i" by (simp add: order_position_find)
  have d: "distinct (order s)" using s by (simp add: shard_wf_def)
  have o: "take i (order s) @ drop (i + 1) (order s) = remove1 k (order s)" "i < length (order s)"
    using order_delete [OF d i] by simp_all
  have e: "map_of (entries s) k \<noteq> None" using True shard_wf_find [OF s] by simp
  have "shard_invalidate s k =
    (let h = (if i < hand s then hand s - 1 else hand s)
     in s\<lparr>entries := AList.delete k (entries s), order := remove1 k (order s),
          hand := (if remove1 k (order s) = [] \<or> length (remove1 k (order s)) \<le> h then 0 else h)\<rparr>)"
    unfolding shard_invalidate_def if_not_P [OF e] using i by (simp add: Let_def o(1) [simplified])
  then show ?thesis
    using s by (auto simp: Let_def shard_wf_def AList.distinct_delete delete_dom length_remove1)
qed

lemma cache_invalidate1_find:
  assumes "cache_wf c"
  shows "cache_wf (cache_invalidate1 k c)" "cache_find (cache_invalidate1 k c) j = (if j = k then None else cache_find c j)"
proof -
  have s: "shard_wf (shard_of k) (shards c ! shard_of k)" using assms shard_of_less by (simp add: cache_wf_def)
  have eq: "cache_invalidate1 k c = c\<lparr>shards := (shards c)[shard_of k := shard_invalidate (shards c ! shard_of k) k], evictions := evictions c\<rparr>"
    by (simp add: cache_invalidate1_def Let_def)
  show "cache_wf (cache_invalidate1 k c)" unfolding eq by (rule cache_wf_update [OF assms shard_invalidate_wf [OF s]])
  show "cache_find (cache_invalidate1 k c) j = (if j = k then None else cache_find c j)"
    unfolding eq cache_find_update [OF assms] by (auto simp: shard_invalidate_entries map_of_delete_key cache_find_def)
qed

lemma cache_invalidate_find:
  assumes "cache_wf c"
  shows "cache_wf (cache_invalidate c ks)" "cache_find (cache_invalidate c ks) j = (if j \<in> set ks then None else cache_find c j)"
  using assms unfolding cache_invalidate_def
  by (induction ks arbitrary: c) (simp_all add: cache_invalidate1_find)

interpretation page_cache: forgetful_map cache_wf cache_find "\<lambda>c k e. cache_put c k (c_raw e) (c_page e)" cache_invalidate
proof
  fix c :: pageCache and k :: uint64 and v v' :: cachedPage and c' :: pageCache
  assume wf: "cache_wf c"
  have s: "shard_wf (shard_of k) (shards c ! shard_of k)" using wf shard_of_less by (simp add: cache_wf_def)
  have eta: "\<lparr>c_raw = c_raw v, c_page = c_page v\<rparr> = v" by simp
  note put = cache_put_eq [OF wf, of k "c_raw v" "c_page v", unfolded eta]
  show "\<exists>r. cache_put c k (c_raw v) (c_page v) = Some r" using put by (auto split: option.splits)
  assume p: "cache_put c k (c_raw v) (c_page v) = Some (v', c')"
  show "v' = (case cache_find c k of None \<Rightarrow> v | Some w \<Rightarrow> w)" using p put by (auto split: option.splits)
  show "cache_wf c'"
  proof (cases "cache_find c k")
    case None
    then have "k \<notin> set (order (shards c ! shard_of k))" using shard_wf_find [OF s] by (simp add: cache_find_def)
    then show ?thesis using None p put cache_wf_update [OF wf shard_put_wf [OF s]] by auto
  qed (use p put wf in auto)
  show "cache_find c' k = Some v'"
    using p put by (cases "cache_find c k") (auto simp: cache_find_update [OF wf] shard_put_find [OF s])
  show "cache_find c' j = None \<or> cache_find c' j = cache_find c j" if "j \<noteq> k" for j
  proof (cases "cache_find c k")
    case None
    then have c': "cache_find c' j =
        (if shard_of j = shard_of k then map_of (entries (shard_put (shards c ! shard_of k) k v)) j else cache_find c j)"
      using p put by (auto simp: cache_find_update [OF wf])
    show ?thesis
    proof (cases "shard_of j = shard_of k")
      case True
      then have "cache_find c j = map_of (entries (shards c ! shard_of k)) j" by (simp add: cache_find_def)
      then show ?thesis using c' True shard_put_find(2) [OF s that, of v] by simp
    qed (simp add: c')
  qed (use p put in auto)
qed (simp_all add: cache_invalidate_find)

section \<open>Every reachable cache\<close>

datatype cache_op = Get uint64 | Put uint64 bytes Page | Invalidate "uint64 list"

fun cache_run :: "cache_op list \<Rightarrow> pageCache \<Rightarrow> pageCache option" where
  "cache_run [] c = Some c"
| "cache_run (Get k # ops) c = cache_run ops (snd (cache_get c k))"
| "cache_run (Put k raw p # ops) c = Option.bind (cache_put c k raw p) (\<lambda>(e, c). cache_run ops c)"
| "cache_run (Invalidate ks # ops) c = cache_run ops (cache_invalidate c ks)"

text \<open>The capacity a cache was made with: the limits of its partitions.\<close>

definition cache_capacity :: "pageCache \<Rightarrow> nat" where
  "cache_capacity c = sum_list (map limit (shards c))"

definition cache_resident :: "pageCache \<Rightarrow> nat" where
  "cache_resident c = sum_list (map (length \<circ> entries) (shards c))"

lemma new_cache_wf: "cache_wf (newPageCache n)"
  by (auto simp: newPageCache_def cache_wf_def shard_wf_def Let_def pageCacheShards_def div_greater_zero_iff)

lemma cache_get_wf: "cache_wf c \<Longrightarrow> cache_wf (snd (cache_get c k))"
  by (auto simp: cache_get_def cache_wf_def split: option.splits)

lemma limit_kept:
  "map limit (shards (snd (cache_get c k))) = map limit (shards c)"
  "cache_wf c \<Longrightarrow> cache_put c k raw p = Some (e, c') \<Longrightarrow> map limit (shards c') = map limit (shards c)"
  "map limit (shards (cache_invalidate c ks)) = map limit (shards c)"
proof -
  show "map limit (shards (snd (cache_get c k))) = map limit (shards c)" by (auto simp: cache_get_def split: option.splits)
  have upd: "limit s = limit (xs ! i) \<Longrightarrow> map limit (xs[i := s]) = map limit xs" for s xs i
    by (metis list_update_id map_update)
  have "limit (shard_put s k e) = limit s" for s e by (simp add: shard_put_def)
  then show "cache_wf c \<Longrightarrow> cache_put c k raw p = Some (e, c') \<Longrightarrow> map limit (shards c') = map limit (shards c)"
    by (auto simp: cache_put_eq upd split: option.splits)
  have "limit (shard_invalidate s k) = limit s" for s k by (auto simp: shard_invalidate_def Let_def split: option.splits)
  then show "map limit (shards (cache_invalidate c ks)) = map limit (shards c)" unfolding cache_invalidate_def
    by (induction ks arbitrary: c) (simp_all add: cache_invalidate1_def Let_def upd)
qed

lemma cache_bound:
  assumes "cache_wf c"
  shows "cache_resident c \<le> cache_capacity c"
proof -
  have "length (entries s) \<le> limit s" if "s \<in> set (shards c)" for s
    using that assms entries_length unfolding in_set_conv_nth cache_wf_def by (metis shard_wf_def)
  then show ?thesis unfolding cache_resident_def cache_capacity_def by (simp add: sum_list_mono)
qed

lemma cache_run_wf:
  assumes "cache_wf c"
  shows "\<exists>c'. cache_run ops c = Some c' \<and> cache_wf c' \<and> cache_capacity c' = cache_capacity c"
  using assms
proof (induction ops c rule: cache_run.induct)
  case (3 k raw p ops c)
  let ?e = "\<lparr>c_raw = raw, c_page = p\<rparr>"
  obtain e c' where put: "cache_put c k raw p = Some (e, c')" using page_cache.store_returns [OF 3(2), of k ?e] by auto
  then have "cache_wf c'" using page_cache.store_wf [OF 3(2), of k ?e] by simp
  then show ?case using 3(1) [OF put refl] put limit_kept(2) [OF 3(2) put] by (auto simp: cache_capacity_def)
qed (simp_all add: cache_get_wf cache_invalidate_find limit_kept cache_capacity_def)

lemma spread_sum: "(\<Sum>i\<leftarrow>[0..<k]. if i < r then b + 1 else b) = k * b + min r (k :: nat)"
  by (induction k) (auto simp: min_def)

lemma new_cache_capacity: "cache_capacity (newPageCache n) = max n pageCacheShards"
proof -
  define m where "m = (if n < pageCacheShards then pageCacheShards else n)"
  have "cache_capacity (newPageCache n) = (\<Sum>i\<leftarrow>[0..<pageCacheShards]. if i < m mod pageCacheShards then m div pageCacheShards + 1
      else m div pageCacheShards)"
    unfolding cache_capacity_def newPageCache_def Let_def m_def by (simp add: comp_def cong: if_cong)
  also have "\<dots> = m" unfolding spread_sum by (simp add: pageCacheShards_def min_def not_le less_imp_le)
  finally show ?thesis by (simp add: m_def max_def)
qed

text \<open>C36: whatever sequence of lookups, insertions and invalidations a new cache goes through, no
  operation panics, and the cache ends well-formed: in every partition the ring lists exactly the cached pages, without
  repetition, each in the partition its number selects, and the hand stays inside the ring. The number of cached pages never
  exceeds the requested capacity, or sixteen if less was requested.\<close>

theorem page_cache_bounded:
  "\<exists>c. cache_run ops (newPageCache capacity) = Some c \<and> cache_wf c \<and> cache_resident c \<le> max capacity pageCacheShards"
  using cache_run_wf [OF new_cache_wf, of ops capacity] cache_bound new_cache_capacity by metis

end
