(* ===== verification/Spec2Isabelle.thy ===== *)
theory Spec2Isabelle
  imports Compound_Key Document_Codec Query_Delta Filter_Compile Update_Model Query_Results Mem_Index Page_Cache
begin

text \<open>
  Verification of Meldbase, a single-file document database in Go.
\<close>

end
